(* ===== verification/Prelude.thy ===== *)
theory Prelude
  imports Main "HOL-Library.Word"
begin

text \<open>
  Shared vocabulary of the development: the ways a C program of this repository goes wrong
  (\<open>fault\<close>), results that may be such a fault, byte buffers with the C string functions the
  code calls on them (\<open>memcpy\<close>, \<open>memset\<close>, \<open>strlen\<close> through \<open>cstr\<close>), narrowing of a
  \<open>long\<close> to an \<open>int\<close> and the wrap-around of their products, and a locale for invariants of deterministic runs.
\<close>

section \<open>Faults and results\<close>

text \<open>
  What the code does after such an event is not defined by C (or is a kernel oops, or a
  blocked process, or the process has ended through \<open>exit\<close> with the message given), so a run of
  the model stops there and says why.
\<close>

datatype fault =
    NullDeref
  | UseAfterFree
  | BadFree
  | OutOfBounds
  | Indeterminate
  | NotEnabled
  | Overflow
  | Exit string

type_synonym 'a res = "fault + 'a"

definition bind_res :: "'a res \<Rightarrow> ('a \<Rightarrow> 'b res) \<Rightarrow> 'b res" where
  "bind_res r f = (case r of Inl e \<Rightarrow> Inl e | Inr x \<Rightarrow> f x)"

named_theorems res_simps

lemma bind_res_simps [simp, res_simps]:
  "bind_res (Inl e) f = Inl e"
  "bind_res (Inr x) f = f x"
  by (simp_all add: bind_res_def)

lemma bind_res_cong [fundef_cong]:
  "r = r' \<Longrightarrow> (\<And>x. r' = Inr x \<Longrightarrow> f x = g x) \<Longrightarrow> bind_res r f = bind_res r' g"
  by (auto simp: bind_res_def split: sum.splits)

lemma bind_res_Inr_iff:
  "bind_res r f = Inr y \<longleftrightarrow> (\<exists>x. r = Inr x \<and> f x = Inr y)"
  by (auto simp: bind_res_def split: sum.splits)

lemma bind_res_Inl_iff:
  "bind_res r f = Inl e \<longleftrightarrow> r = Inl e \<or> (\<exists>x. r = Inr x \<and> f x = Inl e)"
  by (auto simp: bind_res_def split: sum.splits)

lemma bind_resE:
  assumes "bind_res r f = Inr y"
  obtains x where "r = Inr x" and "f x = Inr y"
  using assms by (auto simp: bind_res_Inr_iff)

lemma bind_res_assoc: "bind_res (bind_res r f) g = bind_res r (\<lambda>x. bind_res (f x) g)"
  by (simp add: bind_res_def split: sum.splits)

text \<open>
  A sequence of calls each of which ends the process when it fails: the failures as they
  come, with the message of each.
\<close>

fun first_failure :: "(bool \<times> string) list \<Rightarrow> string option" where
  "first_failure [] = None"
| "first_failure ((failed, msg) # rest) = (if failed then Some msg else first_failure rest)"

lemma first_failure_None [simp]: "first_failure cs = None \<longleftrightarrow> (\<forall>(failed, msg) \<in> set cs. \<not> failed)"
  by (induction cs rule: first_failure.induct) auto

lemma first_failure_Some: "first_failure cs = Some msg \<Longrightarrow> (True, msg) \<in> set cs"
  by (induction cs rule: first_failure.induct) (auto split: if_splits)

section \<open>Bytes, buffers and C strings\<close>

abbreviation NUL :: char where
  "NUL \<equiv> CHR 0x00"

definition overlay :: "'a list \<Rightarrow> nat \<Rightarrow> 'a list \<Rightarrow> 'a list" where
  "overlay buf off bs = take off buf @ bs @ drop (off + length bs) buf"

lemma length_overlay [simp]:
  "off + length bs \<le> length buf \<Longrightarrow> length (overlay buf off bs) = length buf"
  by (simp add: overlay_def)

lemma nth_overlay:
  assumes "off + length bs \<le> length buf" and "i < length buf"
  shows "overlay buf off bs ! i =
    (if off \<le> i \<and> i < off + length bs then bs ! (i - off) else buf ! i)"
  using assms by (auto simp: overlay_def nth_append min_def)

lemma drop_overlay_same:
  "off + length bs \<le> length buf \<Longrightarrow>
   drop off (overlay buf off bs) = bs @ drop (off + length bs) buf"
  by (simp add: overlay_def)

text \<open>\<open>memcpy(buf + off, bs, n)\<close> and \<open>memset(buf + off, c, n)\<close> inside a mapping of
  \<open>length buf\<close> bytes; an access outside of it is a fault.\<close>

definition memcpy_at :: "char list \<Rightarrow> int \<Rightarrow> char list \<Rightarrow> char list res" where
  "memcpy_at buf off bs =
     (if 0 \<le> off \<and> nat off + length bs \<le> length buf
      then Inr (overlay buf (nat off) bs) else Inl OutOfBounds)"

definition memset_at :: "char list \<Rightarrow> int \<Rightarrow> char \<Rightarrow> nat \<Rightarrow> char list res" where
  "memset_at buf off c n = memcpy_at buf off (replicate n c)"

text \<open>The C string that starts a buffer: up to the first NUL, which must be inside.\<close>

definition cstr :: "char list \<Rightarrow> string res" where
  "cstr buf = (if NUL \<in> set buf then Inr (takeWhile (\<lambda>c. c \<noteq> NUL) buf) else Inl OutOfBounds)"

definition cstr_at :: "char list \<Rightarrow> int \<Rightarrow> string res" where
  "cstr_at buf off =
     (if 0 \<le> off \<and> nat off < length buf then cstr (drop (nat off) buf) else Inl OutOfBounds)"

lemma cstr_no_NUL: "cstr buf = Inr s \<Longrightarrow> NUL \<notin> set s"
  by (auto simp: cstr_def split: if_splits dest: set_takeWhileD)

lemma cstr_append_NUL:
  "NUL \<notin> set s \<Longrightarrow> cstr (s @ NUL # rest) = Inr s"
  by (auto simp: cstr_def takeWhile_append)

lemma length_takeWhile_less_nth:
  "n < length xs \<Longrightarrow> \<not> P (xs ! n) \<Longrightarrow> length (takeWhile P xs) \<le> n"
proof (induction xs arbitrary: n)
  case Nil
  then show ?case by simp
next
  case (Cons x xs)
  then show ?case by (cases n) auto
qed

lemma cstr_at_bounded:
  assumes "0 \<le> off" and "nat off \<le> j" and "j < length buf" and "buf ! j = NUL"
  shows "\<exists>s. cstr_at buf off = Inr s \<and> length s \<le> j - nat off"
proof -
  let ?d = "drop (nat off) buf"
  have j: "j - nat off < length ?d" and nth: "?d ! (j - nat off) = NUL"
    using assms by auto
  then have "NUL \<in> set ?d" by (metis nth_mem)
  moreover have "length (takeWhile (\<lambda>c. c \<noteq> NUL) ?d) \<le> j - nat off"
    using j nth by (intro length_takeWhile_less_nth) auto
  ultimately show ?thesis
    using assms by (simp add: cstr_at_def cstr_def)
qed

section \<open>Printing numbers\<close>

text \<open>\<open>%d\<close>.\<close>

abbreviation newline :: char where
  "newline \<equiv> CHR 0x0A"

fun dec_nat :: "nat \<Rightarrow> string" where
  "dec_nat n =
     (if n < 10 then [char_of (48 + n)] else dec_nat (n div 10) @ [char_of (48 + n mod 10)])"

definition dec :: "int \<Rightarrow> string" where
  "dec n = (if n < 0 then CHR ''-'' # dec_nat (nat (- n)) else dec_nat (nat n))"

declare dec_nat.simps [simp del]

text \<open>
  A concrete \<open>kstrtoint\<close> for witnesses: an optional sign and decimal digits, an error for
  anything else or out of the range of an \<open>int\<close>.
\<close>

definition digits_value :: "string \<Rightarrow> int option" where
  "digits_value p =
     (if p \<noteq> [] \<and> list_all (\<lambda>c. of_char c \<in> {48..57 :: nat}) p
      then Some (fold (\<lambda>c n. 10 * n + (of_char c - 48)) p 0) else None)"

definition sample_kstrtoint :: "string \<Rightarrow> int + int" where
  "sample_kstrtoint p =
     (let v = (case p of c # ds \<Rightarrow> if c = CHR ''-'' then map_option uminus (digits_value ds) else digits_value p
         | [] \<Rightarrow> None)
      in case v of None \<Rightarrow> Inl (-22)
       | Some v \<Rightarrow> if - (2 ^ 31) \<le> v \<and> v < 2 ^ 31 then Inr v else Inl (-34))"

section \<open>Narrowing\<close>

text \<open>\<open>int index = temp_data.page_num;\<close>: a \<open>long\<close> stored in an \<open>int\<close> keeps its low 32 bits.\<close>

definition to_int32 :: "int \<Rightarrow> int" where
  "to_int32 n = signed_take_bit 31 n"

lemma to_int32_id: "- (2 ^ 31) \<le> n \<Longrightarrow> n < 2 ^ 31 \<Longrightarrow> to_int32 n = n"
  by (simp add: to_int32_def signed_take_bit_int_eq_self)

lemma to_int32_small [simp]: "0 \<le> n \<Longrightarrow> n < 4096 \<Longrightarrow> to_int32 n = n"
  by (simp add: to_int32_id)

text \<open>
  A product of \<open>long\<close>s keeps its low 64 bits, one of \<open>int\<close>s its low 32 bits, and an \<open>unsigned long\<close>
  that a signed product is stored in takes its value modulo \<open>2 ^ 64\<close>: what the compiled code computes,
  where a signed product that does not fit is undefined in C.
\<close>

definition to_int64 :: "int \<Rightarrow> int" where
  "to_int64 n = signed_take_bit 63 n"

definition to_uint64 :: "int \<Rightarrow> nat" where
  "to_uint64 n = nat (take_bit 64 n)"

lemma to_int64_id: "- (2 ^ 63) \<le> n \<Longrightarrow> n < 2 ^ 63 \<Longrightarrow> to_int64 n = n"
  by (simp add: to_int64_def signed_take_bit_int_eq_self)

lemma to_uint64_id: "0 \<le> n \<Longrightarrow> n < 2 ^ 64 \<Longrightarrow> to_uint64 n = nat n"
  by (simp add: to_uint64_def take_bit_int_eq_self)

section \<open>Invariants of runs\<close>

text \<open>
  A component with a step function that may refuse an event, and an invariant that every
  admissible event either keeps or refuses as not enabled: then every run keeps it, and no run
  ends in any other fault.
\<close>

fun run_events :: "('e \<Rightarrow> 's \<Rightarrow> 's res) \<Rightarrow> 'e list \<Rightarrow> 's \<Rightarrow> 's res" where
  "run_events step [] s = Inr s"
| "run_events step (e # es) s = bind_res (step e s) (run_events step es)"

lemma run_events_append:
  "run_events step (es @ fs) s = bind_res (run_events step es s) (run_events step fs)"
  by (induction es arbitrary: s) (auto simp: bind_res_assoc bind_res_def split: sum.splits)

locale step_guarded =
  fixes step :: "'e \<Rightarrow> 's \<Rightarrow> 's res"
    and inv :: "'s \<Rightarrow> bool"
    and ok :: "'e \<Rightarrow> bool"
  assumes step_refuses: "inv s \<Longrightarrow> ok e \<Longrightarrow> step e s = Inl f \<Longrightarrow> f = NotEnabled"
    and step_keeps: "inv s \<Longrightarrow> ok e \<Longrightarrow> step e s = Inr t \<Longrightarrow> inv t"
begin

lemma run_keeps: "inv s \<Longrightarrow> list_all ok es \<Longrightarrow> run_events step es s = Inr t \<Longrightarrow> inv t"
proof (induction es arbitrary: s)
  case Nil
  then show ?case by simp
next
  case (Cons e es)
  then show ?case by (auto simp: bind_res_Inr_iff intro: step_keeps)
qed

lemma run_refuses:
  "inv s \<Longrightarrow> list_all ok es \<Longrightarrow> run_events step es s = Inl f \<Longrightarrow> f = NotEnabled"
proof (induction es arbitrary: s)
  case Nil
  then show ?case by simp
next
  case (Cons e es)
  then show ?case by (auto simp: bind_res_Inl_iff intro: step_refuses step_keeps)
qed

end

text \<open>One that may also stop in other ways, but only in those given.\<close>

locale step_within =
  fixes step :: "'e \<Rightarrow> 's \<Rightarrow> 's res"
    and inv :: "'s \<Rightarrow> bool"
    and ok :: "'e \<Rightarrow> bool"
    and stops :: "'e \<Rightarrow> 's \<Rightarrow> fault \<Rightarrow> bool"
  assumes step_stops: "inv s \<Longrightarrow> ok e \<Longrightarrow> step e s = Inl f \<Longrightarrow> stops e s f"
    and step_stays: "inv s \<Longrightarrow> ok e \<Longrightarrow> step e s = Inr t \<Longrightarrow> inv t"
begin

lemma run_stays: "inv s \<Longrightarrow> list_all ok es \<Longrightarrow> run_events step es s = Inr t \<Longrightarrow> inv t"
  by (induction es arbitrary: s) (auto simp: bind_res_Inr_iff intro: step_stays)

lemma run_stops:
  "inv s \<Longrightarrow> list_all ok es \<Longrightarrow> run_events step es s = Inl f \<Longrightarrow>
   \<exists>us e vs t. es = us @ e # vs \<and> run_events step us s = Inr t \<and> inv t \<and> step e t = Inl f \<and> stops e t f"
proof (induction es arbitrary: s)
  case (Cons e es)
  show ?case
  proof (cases "step e s")
    case (Inl g)
    then have "e # es = [] @ e # es \<and> run_events step [] s = Inr s \<and> inv s \<and> step e s = Inl f \<and> stops e s f"
      using Cons.prems by (auto intro: step_stops)
    then show ?thesis by blast
  next
    case (Inr t)
    then obtain us e' vs u where "es = us @ e' # vs" "run_events step us t = Inr u" "inv u"
      "step e' u = Inl f" "stops e' u f"
      using Cons.IH [of t] Cons.prems step_stays by auto
    then have "e # es = (e # us) @ e' # vs \<and> run_events step (e # us) s = Inr u \<and> inv u \<and>
        step e' u = Inl f \<and> stops e' u f"
      using Inr by simp
    then show ?thesis by blast
  qed
qed simp

end

text \<open>The same for a component whose admissible events never fault: runs always return.\<close>

locale step_total =
  fixes step :: "'e \<Rightarrow> 's \<Rightarrow> 's res"
    and inv :: "'s \<Rightarrow> bool"
    and ok :: "'e \<Rightarrow> bool"
  assumes step_returns: "inv s \<Longrightarrow> ok e \<Longrightarrow> \<exists>t. step e s = Inr t \<and> inv t"
begin

lemma run_returns: "inv s \<Longrightarrow> list_all ok es \<Longrightarrow> \<exists>t. run_events step es s = Inr t \<and> inv t"
proof (induction es arbitrary: s)
  case Nil
  then show ?case by simp
next
  case (Cons e es)
  then obtain t where "step e s = Inr t" and "inv t"
    using step_returns by fastforce
  then show ?case using Cons by auto
qed

end

text \<open>
  And for one that also follows an abstract specification: a run computes what the
  specification computes on the abstraction of the state.
\<close>

locale step_refines = step_total step inv ok
  for step :: "'e \<Rightarrow> 's \<Rightarrow> 's res" and inv :: "'s \<Rightarrow> bool" and ok :: "'e \<Rightarrow> bool" +
  fixes abs :: "'s \<Rightarrow> 'a"
    and spec :: "'e \<Rightarrow> 'a \<Rightarrow> 'a"
  assumes step_abs: "inv s \<Longrightarrow> ok e \<Longrightarrow> step e s = Inr t \<Longrightarrow> abs t = spec e (abs s)"
begin

lemma run_refines:
  "inv s \<Longrightarrow> list_all ok es \<Longrightarrow>
   \<exists>t. run_events step es s = Inr t \<and> inv t \<and> abs t = fold spec es (abs s)"
proof (induction es arbitrary: s)
  case Nil
  then show ?case by simp
next
  case (Cons e es)
  then obtain t where t: "step e s = Inr t" and "inv t"
    using step_returns by fastforce
  then obtain u where "run_events step es t = Inr u" "inv u" "abs u = fold spec es (abs t)"
    using Cons by auto
  then show ?case using t step_abs [of s e t] Cons.prems by auto
qed

end

text \<open>
  A component that may refuse or fault, beside a specification that does so in the same cases:
  results are related by \<open>rel_sum (=) R\<close>, equal faults or related states, step by step.
\<close>

lemma rel_res_bind:
  assumes "rel_sum (=) R r r'" and "\<And>x y. R x y \<Longrightarrow> rel_sum (=) Q (f x) (g y)"
  shows "rel_sum (=) Q (bind_res r f) (bind_res r' g)"
  using assms by (cases r; cases r') auto

locale step_simulates =
  fixes step :: "'e \<Rightarrow> 's \<Rightarrow> 's res"
    and spec :: "'e \<Rightarrow> 'a \<Rightarrow> 'a res"
    and R :: "'s \<Rightarrow> 'a \<Rightarrow> bool"
    and ok :: "'e \<Rightarrow> bool"
  assumes step_sim: "R s a \<Longrightarrow> ok e \<Longrightarrow> rel_sum (=) R (step e s) (spec e a)"
begin

lemma run_sim: "R s a \<Longrightarrow> list_all ok es \<Longrightarrow> rel_sum (=) R (run_events step es s) (run_events spec es a)"
proof (induction es arbitrary: s a)
  case Nil
  then show ?case by simp
next
  case (Cons e es)
  then show ?case by (auto intro: rel_res_bind [OF step_sim])
qed

end

text \<open>Admissible events that always return are a special case.\<close>

sublocale step_total \<subseteq> guarded: step_guarded step inv ok
  by unfold_locales (use step_returns in fastforce)+

end
