(* ===== verification/Msi_Machine.thy ===== *)
theory Msi_Machine
  imports Prelude
begin

text \<open>
  One machine of the two-machine page-sharing program \<open>Project_3_new/part4/part4.c\<close>: the
  process state (\<open>temp_data\<close>, \<open>list_MSI\<close>, the mapping at \<open>addr\<close>), the menu thread
  (\<open>menu\<close>: read, write and view commands, for one page or for all), the server thread's loop
  body (\<open>server_handle\<close>, the MSI transitions on a received \<open>proc_info\<close>) and the
  initialisation that each side performs. A step of the model is the code between two blocking
  points, so the \<open>for\<close> loops over all pages advance one page per step.
\<close>

section \<open>Data\<close>

definition MAX_SIZE :: int where
  "MAX_SIZE = 4096"

record MSIList =
  M :: bool
  S :: bool
  I :: bool

text \<open>
  The arrays of \<open>proc_info\<close> have \<open>MAX_SIZE\<close> elements; every access below checks the index
  first, so a function on \<open>nat\<close> holds their contents. The field \<open>flush\<close> is never used by the
  code and the pointer \<open>addr\<close> is sent but only passed to \<open>mmap\<close> as a hint.
\<close>

record proc_info =
  page_num :: int
  page_count :: int
  read_signal :: "nat \<Rightarrow> int"
  pagefault_signal :: "nat \<Rightarrow> int"
  BusRdx :: "nat \<Rightarrow> int"
  invalidate_signal :: "nat \<Rightarrow> int"
  BusUpgr :: "nat \<Rightarrow> int"
  access_page :: int

text \<open>
  Where the menu thread is: at the prompt, at the head of one of its two loops over all pages
  with the given \<open>count\<close>, blocked in \<open>read(client_fd, recv_message, ...)\<close> for a page (and
  where it goes on afterwards), or gone.
\<close>

datatype menu_pc =
    Prompt
  | ReadLoop nat
  | WriteLoop nat
  | Await nat menu_pc
  | Exited

record machine =
  page_size :: nat
  temp_data :: proc_info
  list_MSI :: "nat \<Rightarrow> MSIList"
  mapping :: "char list"
  recv_message :: "char list"
  message :: string
  menu_at :: menu_pc

datatype command =
    Read int
  | Write int string
  | View int
  | Quit
  | OtherKey

datatype console =
    ReadingPage string
  | WritingPage string
  | ViewingPage nat MSIList

text \<open>What a menu step gives: the lines printed, the message sent (if one is) and the machine.\<close>

type_synonym menu_result = "(console list \<times> proc_info option \<times> machine) res"

definition idx_ok :: "int \<Rightarrow> bool" where
  "idx_ok n \<longleftrightarrow> 0 \<le> n \<and> n < MAX_SIZE"

definition set_msi :: "nat \<Rightarrow> bool \<Rightarrow> bool \<Rightarrow> bool \<Rightarrow> machine \<Rightarrow> machine" where
  "set_msi i m s v mc = mc\<lparr>list_MSI := (list_MSI mc)(i := \<lparr>M = m, S = s, I = v\<rparr>)\<rparr>"

section \<open>The menu thread\<close>

text \<open>
  The body shared by the two read branches. \<open>offset\<close> is the page's offset as the branch computes
  it, \<open>nxt\<close> is where the thread goes on. An Invalid
  page is cleared, marked Shared and requested from the other machine; a Shared or Modified
  page is printed from the local mapping; a page with no state does nothing.
\<close>

definition menu_read_page :: "int \<Rightarrow> int \<Rightarrow> menu_pc \<Rightarrow> machine \<Rightarrow> menu_result" where
  "menu_read_page offset index nxt mc0 =
     (let td = (temp_data mc0)\<lparr>access_page := offset\<rparr>;
          mc = mc0\<lparr>temp_data := td, menu_at := nxt\<rparr>;
          i = nat index
      in if \<not> idx_ok index then Inl OutOfBounds
         else if I (list_MSI mc i) then
           bind_res (memset_at (mapping mc) (access_page td) NUL (page_size mc)) (\<lambda>mem.
             if \<not> idx_ok (page_num td) then Inl OutOfBounds else
             let td' = td\<lparr>read_signal := (read_signal td)(i := 1),
                          pagefault_signal := (pagefault_signal td)(i := 1),
                          invalidate_signal := (invalidate_signal td)(i := 0)\<rparr>;
                 mc' = mc\<lparr>mapping := mem, temp_data := td', menu_at := Await i nxt\<rparr>;
                 mc'' = (if read_signal td' i = 1
                         then set_msi (nat (page_num td')) False True False mc' else mc')
             in Inr ([], Some td', mc''))
         else if S (list_MSI mc i) \<or> M (list_MSI mc i) then
           bind_res (cstr_at (mapping mc) (access_page td)) (\<lambda>s. Inr ([ReadingPage s], None, mc))
         else Inr ([], None, mc))"

text \<open>
  One page, by its number: \<open>temp_data.page_num * page_size\<close> is a product of \<open>long\<close>s. All pages:
  \<open>count * page_size\<close> is one of \<open>int\<close>s.
\<close>

definition menu_read :: "int \<Rightarrow> machine \<Rightarrow> menu_result" where
  "menu_read n mc0 =
     (let mc = mc0\<lparr>temp_data := (temp_data mc0)\<lparr>page_num := n\<rparr>\<rparr>;
          index = to_int32 n
      in if index = -1 then Inr ([], None, mc\<lparr>menu_at := ReadLoop 0\<rparr>)
         else menu_read_page (to_int64 (n * int (page_size mc0))) index Prompt mc)"

definition menu_read_all_iter :: "nat \<Rightarrow> machine \<Rightarrow> menu_result" where
  "menu_read_all_iter count mc =
     (if int count < page_count (temp_data mc)
      then menu_read_page (to_int32 (int count * int (page_size mc))) (int count) (ReadLoop (Suc count))
             (mc\<lparr>temp_data := (temp_data mc)\<lparr>page_num := int count\<rparr>\<rparr>)
      else Inr ([], None, mc\<lparr>menu_at := Prompt\<rparr>))"

text \<open>
  The reply arrives: \<open>read\<close> overwrites the first bytes of \<open>recv_message\<close> and leaves the rest,
  and the whole C string in the buffer is printed.
\<close>

definition menu_reply :: "char list \<Rightarrow> machine \<Rightarrow> (console list \<times> machine) res" where
  "menu_reply bytes mc =
     (case menu_at mc of
        Await i nxt \<Rightarrow>
          if length (recv_message mc) < length bytes then Inl OutOfBounds
          else
            let buf = overlay (recv_message mc) 0 bytes;
                td = temp_data mc;
                mc' = mc\<lparr>recv_message := buf, menu_at := nxt,
                         temp_data := td\<lparr>read_signal := (read_signal td)(i := 0)\<rparr>\<rparr>
            in bind_res (cstr buf) (\<lambda>s. Inr ([ReadingPage s], mc'))
      | _ \<Rightarrow> Inl NotEnabled)"

text \<open>
  \<open>scanf("%[^\n]s", message)\<close>: an empty line matches nothing and leaves the buffer as it was;
  a line that does not fit with its terminator overruns the buffer of \<open>page_size\<close> bytes.
\<close>

definition scan_message :: "string \<Rightarrow> machine \<Rightarrow> machine res" where
  "scan_message s mc =
     (if s = [] then Inr mc
      else if length s < page_size mc
           then Inr (mc\<lparr>message := takeWhile (\<lambda>c. c \<noteq> NUL) s\<rparr>)
           else Inl OutOfBounds)"

text \<open>The signals a write raises, by the page's state before it.\<close>

definition write_signals :: "nat \<Rightarrow> MSIList \<Rightarrow> proc_info \<Rightarrow> proc_info" where
  "write_signals i st td =
     (if I st then
        td\<lparr>pagefault_signal := (pagefault_signal td)(i := 1),
           BusRdx := (BusRdx td)(i := 1),
           invalidate_signal := (invalidate_signal td)(i := 1),
           read_signal := (read_signal td)(i := 0)\<rparr>
      else if S st then
        td\<lparr>BusUpgr := (BusUpgr td)(i := 1),
           invalidate_signal := (invalidate_signal td)(i := 1),
           read_signal := (read_signal td)(i := 0)\<rparr>
      else td)"

definition menu_write_page :: "int \<Rightarrow> string \<Rightarrow> machine \<Rightarrow> menu_result" where
  "menu_write_page n line mc0 =
     (let index = to_int32 n; i = nat index in
      if \<not> idx_ok index then Inl OutOfBounds
      else
        let td0 = write_signals i (list_MSI mc0 i) ((temp_data mc0)\<lparr>page_num := n\<rparr>);
            td = td0\<lparr>access_page := to_int64 (page_num td0 * int (page_size mc0))\<rparr>;
            mc = set_msi i True False False (mc0\<lparr>temp_data := td, menu_at := Prompt\<rparr>)
        in bind_res (scan_message line mc) (\<lambda>mc.
           bind_res (memcpy_at (mapping mc) (access_page td) (message mc)) (\<lambda>mem.
           bind_res (cstr_at mem (access_page td)) (\<lambda>s.
           Inr ([WritingPage s], Some td, mc\<lparr>mapping := mem\<rparr>)))))"

definition menu_write :: "int \<Rightarrow> string \<Rightarrow> machine \<Rightarrow> menu_result" where
  "menu_write n line mc =
     (if to_int32 n = -1
      then bind_res (scan_message line (mc\<lparr>temp_data := (temp_data mc)\<lparr>page_num := n\<rparr>\<rparr>))
             (\<lambda>mc. Inr ([], None, mc\<lparr>menu_at := WriteLoop 0\<rparr>))
      else menu_write_page n line mc)"

definition menu_write_all_iter :: "nat \<Rightarrow> machine \<Rightarrow> menu_result" where
  "menu_write_all_iter count mc0 =
     (if \<not> int count < page_count (temp_data mc0) then Inr ([], None, mc0\<lparr>menu_at := Prompt\<rparr>)
      else if \<not> idx_ok (int count) then Inl OutOfBounds
      else
        let td0 = write_signals count (list_MSI mc0 count)
                    ((temp_data mc0)\<lparr>page_num := int count\<rparr>);
            td = td0\<lparr>access_page := to_int64 (page_num td0 * int (page_size mc0))\<rparr>;
            mc = set_msi count True False False
                   (mc0\<lparr>temp_data := td, menu_at := WriteLoop (Suc count)\<rparr>)
        in bind_res (memcpy_at (mapping mc) (access_page td) (message mc)) (\<lambda>mem.
           Inr ([], Some td, mc\<lparr>mapping := mem\<rparr>)))"

definition menu_view :: "int \<Rightarrow> machine \<Rightarrow> menu_result" where
  "menu_view n mc0 =
     (let mc = mc0\<lparr>temp_data := (temp_data mc0)\<lparr>page_num := n\<rparr>\<rparr>;
          cnt = page_count (temp_data mc)
      in if to_int32 n \<noteq> -1 then Inr ([], None, mc)
         else if MAX_SIZE < cnt then Inl OutOfBounds
         else Inr (map (\<lambda>i. ViewingPage i (list_MSI mc i)) [0..<nat cnt], None, mc))"

text \<open>One pass of the menu's \<open>do ... while (commands != 'q')\<close>, from the prompt.\<close>

definition menu_command :: "command \<Rightarrow> machine \<Rightarrow> menu_result" where
  "menu_command c mc =
     (if menu_at mc \<noteq> Prompt then Inl NotEnabled
      else case c of
        Read n \<Rightarrow> menu_read n mc
      | Write n line \<Rightarrow> menu_write n line mc
      | View n \<Rightarrow> menu_view n mc
      | Quit \<Rightarrow> Inr ([], None, mc\<lparr>menu_at := Exited\<rparr>)
      | OtherKey \<Rightarrow> Inr ([], None, mc))"

definition menu_iter :: "machine \<Rightarrow> menu_result" where
  "menu_iter mc =
     (case menu_at mc of
        ReadLoop count \<Rightarrow> menu_read_all_iter count mc
      | WriteLoop count \<Rightarrow> menu_write_all_iter count mc
      | _ \<Rightarrow> Inl NotEnabled)"

section \<open>The server thread\<close>

text \<open>
  One pass of the server's \<open>for (;;)\<close>: the received record replaces \<open>temp_data\<close>, then the
  first matching branch changes the page's state; the bytes given are what \<open>send\<close> puts on
  the stream (none, for the branches that do not send and for an empty string).
\<close>

definition server_handle :: "proc_info \<Rightarrow> machine \<Rightarrow> (char list \<times> machine) res" where
  "server_handle recv_data mc0 =
     (let mc = mc0\<lparr>temp_data := recv_data\<rparr>;
          p = page_num recv_data;
          i = nat p;
          st = list_MSI mc i
      in if \<not> idx_ok p then Inl OutOfBounds
         else if M st \<and> read_signal recv_data i = 1 then
           bind_res (cstr_at (mapping mc) (access_page (temp_data mc))) (\<lambda>flush.
             Inr (flush, set_msi i False True False mc))
         else if S st \<and> (BusUpgr recv_data i = 1 \<or> BusRdx recv_data i = 1) then
           Inr ([], set_msi i False False True mc)
         else if I st \<and> read_signal recv_data i = 1 then
           Inr ('' '', set_msi i False True False mc)
         else if (M st \<or> S st) \<and> (read_signal recv_data i = 0 \<or> invalidate_signal recv_data i = 1)
         then Inr ([], set_msi i False False True mc)
         else Inr ([], mc))"

section \<open>Initialisation\<close>

definition init_list_MSI :: "int \<Rightarrow> nat \<Rightarrow> MSIList" where
  "init_list_MSI n i = \<lparr>M = False, S = False, I = (int i < n)\<rparr>"

text \<open>
  Machine 1 (\<open>client_socket\<close>, \<open>mch_num == 1\<close>): reads the page count, maps the pages and fills
  \<open>list_MSI\<close>, of which only \<open>MAX_SIZE\<close> entries exist. What it sends is the local
  \<open>send_data\<close>, of which only \<open>page_count\<close> (and \<open>addr\<close>) were assigned: the rest is
  \<open>garbage\<close>. Its own \<open>temp_data\<close> is a zeroed global.
\<close>

definition zero_info :: proc_info where
  "zero_info = \<lparr>page_num = 0, page_count = 0, read_signal = (\<lambda>_. 0),
     pagefault_signal = (\<lambda>_. 0), BusRdx = (\<lambda>_. 0), invalidate_signal = (\<lambda>_. 0),
     BusUpgr = (\<lambda>_. 0), access_page = 0\<rparr>"

text \<open>
  The mapping has \<open>page_count * page_size\<close> bytes, as an \<open>unsigned long\<close>; \<open>mmap\<close> fails on an
  empty range and when the kernel does not grant it, and the address it then gives is not that of
  any memory.
\<close>

definition mmap_len :: "nat \<Rightarrow> int \<Rightarrow> nat" where
  "mmap_len ps n = to_uint64 (n * int ps)"

definition mmap_fails :: "bool \<Rightarrow> nat \<Rightarrow> bool" where
  "mmap_fails granted len \<longleftrightarrow> \<not> granted \<or> len = 0"

definition fresh_machine :: "bool \<Rightarrow> nat \<Rightarrow> proc_info \<Rightarrow> char list \<Rightarrow> string \<Rightarrow> machine res" where
  "fresh_machine granted ps td recvbuf msgbuf =
     (let len = mmap_len ps (page_count td);
          mem = (if mmap_fails granted len then [] else replicate len NUL)
      in if MAX_SIZE < page_count td then Inl OutOfBounds
         else Inr \<lparr>page_size = ps, temp_data = td, list_MSI = init_list_MSI (page_count td),
                mapping = mem, recv_message = recvbuf, message = msgbuf, menu_at = Prompt\<rparr>)"

text \<open>Machine 1 exits when \<open>mmap\<close> fails.\<close>

definition client_init_mch1 ::
  "bool \<Rightarrow> nat \<Rightarrow> int \<Rightarrow> proc_info \<Rightarrow> char list \<Rightarrow> string \<Rightarrow> (proc_info \<times> machine) res" where
  "client_init_mch1 granted ps n garbage recvbuf msgbuf =
     (if mmap_fails granted (mmap_len ps n) then Inl (Exit ''mmap'')
      else bind_res (fresh_machine granted ps (zero_info\<lparr>page_count := n\<rparr>) recvbuf msgbuf) (\<lambda>mc.
        Inr (garbage\<lparr>page_count := n\<rparr>, mc)))"

text \<open>
  Machine 2 (\<open>server_socket\<close>, \<open>mch_num == 2\<close>): the first record received sets it up; it does not look
  at what \<open>mmap\<close> returns.
\<close>

definition server_init_mch2 :: "bool \<Rightarrow> nat \<Rightarrow> proc_info \<Rightarrow> char list \<Rightarrow> string \<Rightarrow> machine res" where
  "server_init_mch2 granted ps recv_data recvbuf msgbuf = fresh_machine granted ps recv_data recvbuf msgbuf"

lemma mmap_len_pages:
  assumes "0 < n" and "n \<le> MAX_SIZE" and "1 < ps" and "ps \<le> 2 ^ 18"
  shows "mmap_len ps n = nat n * ps" and "\<not> mmap_fails True (mmap_len ps n)"
proof -
  have "n * int ps \<le> 4096 * 2 ^ 18"
    using assms by (intro mult_mono) (auto simp: MAX_SIZE_def)
  then show "mmap_len ps n = nat n * ps"
    using assms by (simp add: mmap_len_def to_uint64_id nat_mult_distrib)
  then show "\<not> mmap_fails True (mmap_len ps n)" using assms by (simp add: mmap_fails_def)
qed

end
