(* ===== verification/Msi_System.thy ===== *)
theory Msi_System
  imports Msi_Machine
begin

text \<open>
  The two machines of \<open>Project_3_new/part4/part4.c\<close> connected by their two sockets: each
  process runs a menu thread and a server thread (\<open>main\<close>), a menu's request waits at the
  other machine's server, a server's answer waits at the other machine's menu. An event is one
  step of one thread, so a list of events is an interleaving. \<open>drive\<close> is the schedule in
  which a command and everything it causes is finished before the next key is pressed.
  A \<open>send\<close> of one record is received by one \<open>read\<close>; reads that return less are in theory
  \<open>Msi_Stream\<close>. A key is a command with all that is typed for it; theory \<open>Msi_Typing\<close> splits the
  write command at its wait for the message.
\<close>

section \<open>The system and its events\<close>

datatype side = One | Two

fun peer :: "side \<Rightarrow> side" where
  "peer One = Two"
| "peer Two = One"

lemma peer_peer [simp]: "peer (peer w) = w"
  by (cases w) auto

lemma peer_neq [simp]: "peer w \<noteq> w" "w \<noteq> peer w"
  by (cases w; simp)+

lemma side_eq: "v = w \<or> v = peer w"
  by (cases v; cases w) auto

lemma all_side: "(\<forall>v. P v) \<longleftrightarrow> P w \<and> P (peer w)"
  by (metis side_eq)

record sys =
  mach :: "side \<Rightarrow> machine"
  requests :: "side \<Rightarrow> proc_info list"
  replies :: "side \<Rightarrow> char list list"
  printed :: "side \<Rightarrow> console list"

datatype event =
    Key side command
  | Iter side
  | Serve side
  | Reply side
  | Hangup side
  | Eof side

definition after_menu :: "side \<Rightarrow> sys \<Rightarrow> menu_result \<Rightarrow> sys res" where
  "after_menu w s r =
     bind_res r (\<lambda>(out, req, mc).
       Inr (s\<lparr>mach := (mach s)(w := mc),
              printed := (printed s)(w := printed s w @ out),
              requests := (case req of None \<Rightarrow> requests s
                | Some td \<Rightarrow> (requests s)(peer w := requests s (peer w) @ [td]))\<rparr>))"

text \<open>
  \<open>Hangup\<close>: the server's \<open>read\<close> returns 0 because the other process is gone, and it exits. \<open>Eof\<close>: the
  same end of the connection (0 or an error) wakes a menu that waits for an answer; the code does not look at what
  \<open>read\<close> returned, prints its buffer as it is and goes on.
\<close>

fun sys_step :: "event \<Rightarrow> sys \<Rightarrow> sys res" where
  "sys_step (Key w c) s = after_menu w s (menu_command c (mach s w))"
| "sys_step (Iter w) s = after_menu w s (menu_iter (mach s w))"
| "sys_step (Serve w) s =
     (if menu_at (mach s w) = Exited then Inl NotEnabled
      else case requests s w of
        [] \<Rightarrow> Inl NotEnabled
      | td # rest \<Rightarrow>
          bind_res (server_handle td (mach s w)) (\<lambda>(bytes, mc).
            Inr (s\<lparr>mach := (mach s)(w := mc), requests := (requests s)(w := rest),
                   replies := (if bytes = [] then replies s
                     else (replies s)(peer w := replies s (peer w) @ [bytes]))\<rparr>)))"
| "sys_step (Reply w) s =
     (case replies s w of
        [] \<Rightarrow> Inl NotEnabled
      | bytes # rest \<Rightarrow>
          bind_res (menu_reply bytes (mach s w)) (\<lambda>(out, mc).
            Inr (s\<lparr>mach := (mach s)(w := mc), replies := (replies s)(w := rest),
                   printed := (printed s)(w := printed s w @ out)\<rparr>)))"
| "sys_step (Hangup w) s =
     (if menu_at (mach s w) \<noteq> Exited \<and> menu_at (mach s (peer w)) = Exited \<and> requests s w = []
      then Inr (s\<lparr>mach := (mach s)(w := (mach s w)\<lparr>menu_at := Exited\<rparr>)\<rparr>)
      else Inl NotEnabled)"
| "sys_step (Eof w) s =
     (if menu_at (mach s (peer w)) = Exited \<and> concat (replies s w) = []
      then bind_res (menu_reply [] (mach s w)) (\<lambda>(out, mc).
        Inr (s\<lparr>mach := (mach s)(w := mc), printed := (printed s)(w := printed s w @ out)\<rparr>))
      else Inl NotEnabled)"

text \<open>
  The start: machine 1 has read the page count and machine 2 has received its record, and the kernel
  grants what they ask for; theory \<open>Msi_Boot\<close> has the calls that fail.
\<close>

definition init_sys :: "nat \<Rightarrow> int \<Rightarrow> proc_info \<Rightarrow> (side \<Rightarrow> char list) \<Rightarrow> (side \<Rightarrow> string) \<Rightarrow> sys res" where
  "init_sys ps n garbage recvbuf msgbuf =
     bind_res (client_init_mch1 True ps n garbage (recvbuf One) (msgbuf One)) (\<lambda>(td, m1).
     bind_res (server_init_mch2 True ps td (recvbuf Two) (msgbuf Two)) (\<lambda>m2.
       Inr \<lparr>mach = (\<lambda>w. case w of One \<Rightarrow> m1 | Two \<Rightarrow> m2), requests = (\<lambda>_. []),
            replies = (\<lambda>_. []), printed = (\<lambda>_. [])\<rparr>))"

definition calm :: "sys \<Rightarrow> bool" where
  "calm s \<longleftrightarrow> (\<forall>w. requests s w = [] \<and> replies s w = [])"

section \<open>One command at a time\<close>

definition next_event :: "side \<Rightarrow> sys \<Rightarrow> event option" where
  "next_event w s =
     (if requests s (peer w) \<noteq> [] then Some (Serve (peer w))
      else if replies s w \<noteq> [] then Some (Reply w)
      else case menu_at (mach s w) of
        ReadLoop _ \<Rightarrow> Some (Iter w)
      | WriteLoop _ \<Rightarrow> Some (Iter w)
      | _ \<Rightarrow> None)"

fun drive :: "nat \<Rightarrow> side \<Rightarrow> sys \<Rightarrow> sys res" where
  "drive 0 w s = Inr s"
| "drive (Suc n) w s =
     (case next_event w s of None \<Rightarrow> Inr s | Some e \<Rightarrow> bind_res (sys_step e s) (drive n w))"

text \<open>
  A command over \<open>N\<close> pages needs at most three events per page and two more; \<open>sync_cmd\<close> gives
  it that many. That they are enough is part of \<open>sync_cmd_coherent\<close> in theory
  \<open>Msi_Coherence\<close>: the menu is back at its prompt.
\<close>

definition sync_cmd :: "side \<times> command \<Rightarrow> sys \<Rightarrow> sys res" where
  "sync_cmd wc s =
     bind_res (sys_step (Key (fst wc) (snd wc)) s)
       (drive (3 * nat (page_count (temp_data (mach s (fst wc)))) + 3) (fst wc))"

end
