(* ===== verification/Msi_Coherence.thy ===== *)
theory Msi_Coherence
  imports Msi_System
begin

text \<open>
  Commands issued one at a time keep the two machines coherent: for every page both are
  Invalid, both are Shared, or one is Modified and the other Invalid; every command returns to
  the prompt with nothing left in the sockets; and the page states follow the abstract
  protocol \<open>spec_cmd\<close>. The invariant \<open>coh\<close> is about the pair of machines, symmetric in the
  two, with what the stale signal arrays must satisfy.
\<close>

section \<open>Page states\<close>

datatype msi = Inv | Shd | Mod

fun flags :: "msi \<Rightarrow> MSIList" where
  "flags Inv = \<lparr>M = False, S = False, I = True\<rparr>"
| "flags Shd = \<lparr>M = False, S = True, I = False\<rparr>"
| "flags Mod = \<lparr>M = True, S = False, I = False\<rparr>"

lemma flags_sel [simp]:
  "M (flags x) = (x = Mod)" "S (flags x) = (x = Shd)" "I (flags x) = (x = Inv)"
  by (cases x; simp)+

lemma flags_inj [simp]: "flags x = flags y \<longleftrightarrow> x = y"
  by (cases x; cases y) auto

lemma set_msi_flags:
  "set_msi i True False False mc = mc\<lparr>list_MSI := (list_MSI mc)(i := flags Mod)\<rparr>"
  "set_msi i False True False mc = mc\<lparr>list_MSI := (list_MSI mc)(i := flags Shd)\<rparr>"
  "set_msi i False False True mc = mc\<lparr>list_MSI := (list_MSI mc)(i := flags Inv)\<rparr>"
  by (simp_all add: set_msi_def)

lemmas flags_unfold = flags.simps

declare flags.simps [simp del]

text \<open>More access is more: the order of the page states.\<close>

instantiation msi :: linorder
begin

fun access_level :: "msi \<Rightarrow> nat" where
  "access_level Inv = 0"
| "access_level Shd = 1"
| "access_level Mod = 2"

definition less_eq_msi :: "msi \<Rightarrow> msi \<Rightarrow> bool" where
  "x \<le> y \<longleftrightarrow> access_level x \<le> access_level y"

definition less_msi :: "msi \<Rightarrow> msi \<Rightarrow> bool" where
  "x < y \<longleftrightarrow> access_level x < access_level y"

instance
proof
  fix x y z :: msi
  show "x < y \<longleftrightarrow> x \<le> y \<and> \<not> y \<le> x" by (auto simp: less_msi_def less_eq_msi_def)
  show "x \<le> x" by (simp add: less_eq_msi_def)
  show "x \<le> y \<Longrightarrow> y \<le> z \<Longrightarrow> x \<le> z" by (simp add: less_eq_msi_def)
  show "x \<le> y \<Longrightarrow> y \<le> x \<Longrightarrow> x = y" by (cases x; cases y) (auto simp: less_eq_msi_def)
  show "x \<le> y \<or> y \<le> x" by (auto simp: less_eq_msi_def)
qed

end

definition state_of :: "MSIList \<Rightarrow> msi" where
  "state_of st = (if M st then Mod else if S st then Shd else Inv)"

lemma state_of_flags [simp]: "state_of (flags x) = x"
  by (cases x) (auto simp: state_of_def)

section \<open>The bytes of a page\<close>

definition page_byte :: "machine \<Rightarrow> nat \<Rightarrow> nat \<Rightarrow> char" where
  "page_byte mc i k = mapping mc ! (i * page_size mc + k)"

lemma page_byte_frame [simp]:
  "page_byte (mc\<lparr>temp_data := td\<rparr>) = page_byte mc"
  "page_byte (mc\<lparr>list_MSI := l\<rparr>) = page_byte mc"
  "page_byte (mc\<lparr>recv_message := r\<rparr>) = page_byte mc"
  "page_byte (mc\<lparr>message := m\<rparr>) = page_byte mc"
  "page_byte (mc\<lparr>menu_at := pc\<rparr>) = page_byte mc"
  by (simp_all add: fun_eq_iff page_byte_def)

lemma page_index_bound:
  "i < N \<Longrightarrow> k < ps \<Longrightarrow> i * ps + k < N * (ps::nat)"
proof -
  assume "i < N" and k: "k < ps"
  then have "Suc i * ps \<le> N * ps" by (intro mult_le_mono1) simp
  with k show ?thesis by simp
qed

lemma page_region_disjoint:
  assumes "k < (ps::nat)" and "i \<noteq> j"
  shows "\<not> (i * ps \<le> j * ps + k \<and> j * ps + k < i * ps + ps)"
proof
  assume "i * ps \<le> j * ps + k \<and> j * ps + k < i * ps + ps"
  then obtain d where "j * ps + k = i * ps + d" and "d < ps"
    by (metis le_iff_add nat_add_left_cancel_less)
  then have "(j * ps + k) div ps = (i * ps + d) div ps" by simp
  with \<open>k < ps\<close> \<open>d < ps\<close> have "j = i" by simp
  with \<open>i \<noteq> j\<close> show False by simp
qed

lemma overlay_page_byte:
  assumes "length bs \<le> ps" and "i < N" and "j < N" and "k < ps" and "length mem = N * ps"
  shows "overlay mem (i * ps) bs ! (j * ps + k) =
    (if j = i \<and> k < length bs then bs ! k else mem ! (j * ps + k))"
proof -
  have off: "i * ps + length bs \<le> length mem"
    using page_index_bound [of i N "ps - 1" ps] assms by (cases ps) auto
  have idx: "j * ps + k < length mem"
    using assms by (simp add: page_index_bound)
  show ?thesis
  proof (cases "j = i")
    case True
    then show ?thesis using off idx by (auto simp: nth_overlay)
  next
    case False
    then have "\<not> (i * ps \<le> j * ps + k \<and> j * ps + k < i * ps + ps)"
      using page_region_disjoint [of k ps i j] assms by simp
    then show ?thesis using False off idx assms by (auto simp: nth_overlay)
  qed
qed

section \<open>The invariant\<close>

definition machine_ok :: "nat \<Rightarrow> machine \<Rightarrow> bool" where
  "machine_ok N mc \<longleftrightarrow>
     int N \<le> MAX_SIZE \<and> 1 < page_size mc \<and> page_size mc \<le> 2 ^ 18 \<and> page_count (temp_data mc) = int N \<and>
     length (mapping mc) = N * page_size mc \<and>
     length (recv_message mc) = page_size mc \<and> last (recv_message mc) = NUL \<and>
     (\<forall>i < N. page_byte mc i (page_size mc - 1) = NUL)"

text \<open>The offsets of the pages fit both a \<open>long\<close> and an \<open>int\<close>.\<close>

lemma page_offset [simp]:
  assumes "machine_ok N mc" and "i < N"
  shows "to_int64 (int i * int (page_size mc)) = int i * int (page_size mc)"
    and "to_int32 (int i * int (page_size mc)) = int i * int (page_size mc)"
proof -
  have "int i * int (page_size mc) \<le> 4095 * 2 ^ 18"
    using assms by (intro mult_mono) (auto simp: machine_ok_def MAX_SIZE_def)
  then have up: "int i * int (page_size mc) < 2 ^ 31" by simp
  have "- (2 ^ 31) \<le> (0 :: int)" by simp
  also have "0 \<le> int i * int (page_size mc)" by simp
  finally show "to_int32 (int i * int (page_size mc)) = int i * int (page_size mc)"
    using up by (rule to_int32_id)
  show "to_int64 (int i * int (page_size mc)) = int i * int (page_size mc)"
    using up by (intro to_int64_id order_trans [OF _ \<open>0 \<le> _\<close>]) simp_all
qed

definition pair_ok :: "machine \<Rightarrow> machine \<Rightarrow> nat \<Rightarrow> bool" where
  "pair_ok a b i \<longleftrightarrow>
     (list_MSI a i = flags Inv \<and> list_MSI b i = flags Inv) \<or>
     (list_MSI a i = flags Shd \<and> list_MSI b i = flags Shd) \<or>
     (list_MSI a i = flags Mod \<and> list_MSI b i = flags Inv \<and> page_byte a i 0 \<noteq> NUL \<and>
        read_signal (temp_data a) i = 0 \<and> read_signal (temp_data b) i = 0) \<or>
     (list_MSI a i = flags Inv \<and> list_MSI b i = flags Mod \<and> page_byte b i 0 \<noteq> NUL \<and>
        read_signal (temp_data a) i = 0 \<and> read_signal (temp_data b) i = 0)"

definition coh :: "nat \<Rightarrow> machine \<Rightarrow> machine \<Rightarrow> bool" where
  "coh N a b \<longleftrightarrow> machine_ok N a \<and> machine_ok N b \<and> page_size a = page_size b \<and>
     (\<forall>i < N. pair_ok a b i)"

lemma pair_ok_sym: "pair_ok a b i \<Longrightarrow> pair_ok b a i"
  by (auto simp: pair_ok_def)

lemma coh_sym: "coh N a b \<Longrightarrow> coh N b a"
  by (auto simp: coh_def intro: pair_ok_sym)

lemma machine_ok_menu_at [simp]: "machine_ok N (mc\<lparr>menu_at := pc\<rparr>) = machine_ok N mc"
  by (simp add: machine_ok_def)

lemma coh_menu_at [simp]: "coh N (a\<lparr>menu_at := pc\<rparr>) b = coh N a b"
  by (simp add: coh_def pair_ok_def machine_ok_def)


section \<open>What the pages and buffers hold\<close>

definition page_string :: "machine \<Rightarrow> nat \<Rightarrow> string" where
  "page_string mc i = takeWhile (\<lambda>c. c \<noteq> NUL) (drop (i * page_size mc) (mapping mc))"

lemma page_start_bound: "machine_ok N mc \<Longrightarrow> i < N \<Longrightarrow> i * page_size mc < length (mapping mc)"
  using page_index_bound [of i N 0 "page_size mc"] by (simp add: machine_ok_def)

lemma page_room: "machine_ok N mc \<Longrightarrow> i < N \<Longrightarrow>
  i * page_size mc + page_size mc \<le> length (mapping mc)"
  using page_index_bound [of i N "page_size mc - 1" "page_size mc"] by (simp add: machine_ok_def)

lemma cstr_at_page:
  assumes "machine_ok N mc" and "i < N"
  shows "cstr_at (mapping mc) (int i * int (page_size mc)) = Inr (page_string mc i)"
    and "length (page_string mc i) < page_size mc"
    and "page_string mc i = [] \<longleftrightarrow> page_byte mc i 0 = NUL"
    and "NUL \<notin> set (page_string mc i)"
proof -
  let ?ps = "page_size mc" and ?off = "int i * int (page_size mc)"
  have nat_off: "nat ?off = i * ?ps"
    by (simp flip: of_nat_mult)
  have last: "mapping mc ! (i * ?ps + (?ps - 1)) = NUL" and ps: "0 < ?ps"
    using assms by (auto simp: machine_ok_def page_byte_def)
  have "\<exists>s. cstr_at (mapping mc) ?off = Inr s \<and> length s \<le> i * ?ps + (?ps - 1) - nat ?off"
    using nat_off last page_room [OF assms] ps by (intro cstr_at_bounded) auto
  then obtain s where s: "cstr_at (mapping mc) ?off = Inr s" and len: "length s \<le> ?ps - 1"
    using nat_off by auto
  then have eq: "s = page_string mc i"
    by (auto simp: cstr_at_def cstr_def page_string_def nat_off split: if_splits)
  show "cstr_at (mapping mc) ?off = Inr (page_string mc i)" using s eq by simp
  show "length (page_string mc i) < ?ps" using len ps eq by auto
  have "drop (i * ?ps) (mapping mc) =
      page_byte mc i 0 # drop (Suc (i * ?ps)) (mapping mc)"
    using page_start_bound [OF assms] by (simp add: Cons_nth_drop_Suc page_byte_def)
  then show "page_string mc i = [] \<longleftrightarrow> page_byte mc i 0 = NUL"
    by (simp add: page_string_def)
  show "NUL \<notin> set (page_string mc i)"
    by (auto simp: page_string_def dest: set_takeWhileD)
qed

lemma memcpy_page:
  assumes "machine_ok N mc" and "i < N" and "length bs \<le> page_size mc"
  shows "memcpy_at (mapping mc) (int i * int (page_size mc)) bs =
    Inr (overlay (mapping mc) (i * page_size mc) bs)"
proof -
  have "nat (int i * int (page_size mc)) = i * page_size mc"
    by (simp flip: of_nat_mult)
  then show ?thesis
    using page_room [OF assms(1,2)] assms(3) by (simp add: memcpy_at_def)
qed

lemma page_byte_overlay:
  assumes "machine_ok N mc" and "i < N" and "j < N" and "length bs \<le> page_size mc"
    and "k < page_size mc"
  shows "overlay (mapping mc) (i * page_size mc) bs ! (j * page_size mc + k) =
    (if j = i \<and> k < length bs then bs ! k else page_byte mc j k)"
  using overlay_page_byte [of bs "page_size mc" i N j k "mapping mc"] assms
  by (simp add: page_byte_def machine_ok_def)

text \<open>Replacing bytes of one page keeps a machine well formed when its last byte stays NUL.\<close>

lemma machine_ok_overlay:
  assumes ok: "machine_ok N mc" and "i < N" and "length bs \<le> page_size mc"
    and last: "length bs = page_size mc \<Longrightarrow> last bs = NUL"
  shows "machine_ok N (mc\<lparr>mapping := overlay (mapping mc) (i * page_size mc) bs\<rparr>)"
proof -
  have ps: "0 < page_size mc" using ok by (simp add: machine_ok_def)
  have room: "i * page_size mc + length bs \<le> length (mapping mc)"
    using page_room [OF ok \<open>i < N\<close>] assms(3) by linarith
  have "overlay (mapping mc) (i * page_size mc) bs ! (j * page_size mc + (page_size mc - 1)) = NUL"
    if "j < N" for j
    using page_byte_overlay [OF ok \<open>i < N\<close> that assms(3), of "page_size mc - 1"] ps that ok
      last assms(3)
    by (cases "bs = []") (auto simp: machine_ok_def last_conv_nth)
  then show ?thesis
    using ok room by (auto simp: machine_ok_def page_byte_def)
qed

lemma recv_overlay:
  assumes ok: "machine_ok N mc" and len: "length bs < page_size mc"
  shows "machine_ok N (mc\<lparr>recv_message := overlay (recv_message mc) 0 bs\<rparr>)"
    and "cstr (overlay (recv_message mc) 0 bs) =
      Inr (takeWhile (\<lambda>c. c \<noteq> NUL) (overlay (recv_message mc) 0 bs))"
proof -
  let ?b = "overlay (recv_message mc) 0 bs"
  have l: "length (recv_message mc) = page_size mc" and la: "last (recv_message mc) = NUL"
    using ok by (auto simp: machine_ok_def)
  have lb: "length ?b = page_size mc" using l len by simp
  then have ne: "?b \<noteq> []" using len by auto
  have "last ?b = ?b ! (page_size mc - 1)" using ne lb by (simp add: last_conv_nth)
  also have "\<dots> = recv_message mc ! (page_size mc - 1)" using l len by (subst nth_overlay) auto
  also have "\<dots> = last (recv_message mc)" using l len by (subst last_conv_nth) auto
  also have "\<dots> = NUL" by (rule la)
  finally have lastb: "last ?b = NUL" .
  then have "NUL \<in> set ?b" using ne last_in_set by metis
  then show "cstr ?b = Inr (takeWhile (\<lambda>c. c \<noteq> NUL) ?b)" by (simp add: cstr_def)
  show "machine_ok N (mc\<lparr>recv_message := ?b\<rparr>)"
    using ok lb lastb by (simp add: machine_ok_def)
qed


section \<open>Reading one page\<close>

lemma menu_read_number:
  assumes "machine_ok N mc" and "i < N"
  shows "menu_read (int i) mc = menu_read_page (int i * int (page_size mc)) (int i) Prompt
    (mc\<lparr>temp_data := (temp_data mc)\<lparr>page_num := int i\<rparr>\<rparr>)"
proof -
  have "to_int32 (int i) = int i" using assms by (simp add: machine_ok_def MAX_SIZE_def)
  then show ?thesis using page_offset(1) [OF assms] by (simp add: menu_read_def Let_def)
qed

text \<open>The record sent for a page that is read while Invalid.\<close>

definition read_request :: "nat \<Rightarrow> machine \<Rightarrow> proc_info" where
  "read_request i mc = (temp_data mc)\<lparr>
     access_page := int i * int (page_size mc),
     read_signal := (read_signal (temp_data mc))(i := 1),
     pagefault_signal := (pagefault_signal (temp_data mc))(i := 1),
     invalidate_signal := (invalidate_signal (temp_data mc))(i := 0)\<rparr>"

definition clear_page :: "nat \<Rightarrow> machine \<Rightarrow> machine" where
  "clear_page i mc =
     mc\<lparr>mapping := overlay (mapping mc) (i * page_size mc) (replicate (page_size mc) NUL)\<rparr>"

lemma idx_ok_page [simp]: "machine_ok N mc \<Longrightarrow> i < N \<Longrightarrow> idx_ok (int i)"
  by (simp add: idx_ok_def machine_ok_def)

lemma machine_ok_clear_page: "machine_ok N mc \<Longrightarrow> i < N \<Longrightarrow> machine_ok N (clear_page i mc)"
  unfolding clear_page_def by (rule machine_ok_overlay) (auto simp: machine_ok_def)

lemma page_byte_clear:
  assumes "machine_ok N mc" and "i < N" and "j < N" and "k < page_size mc"
  shows "page_byte (clear_page i mc) j k = (if j = i then NUL else page_byte mc j k)"
  using page_byte_overlay [OF assms(1-3), of "replicate (page_size mc) NUL" k] assms(4)
  by (simp add: clear_page_def page_byte_def)

lemma clear_page_frame [simp]:
  "page_size (clear_page i mc) = page_size mc"
  "temp_data (clear_page i mc) = temp_data mc"
  "list_MSI (clear_page i mc) = list_MSI mc"
  "recv_message (clear_page i mc) = recv_message mc"
  "message (clear_page i mc) = message mc"
  by (simp_all add: clear_page_def)

lemma menu_read_page_Inv:
  assumes "machine_ok N a" and "i < N" and "list_MSI a i = flags Inv"
    and "page_num (temp_data a) = int i"
  shows "menu_read_page (int i * int (page_size a)) (int i) nxt a =
    Inr ([], Some (read_request i a),
      (clear_page i a)\<lparr>temp_data := read_request i a,
        list_MSI := (list_MSI a)(i := flags Shd), menu_at := Await i nxt\<rparr>)"
  using assms memcpy_page [of N a i "replicate (page_size a) NUL"]
  by (simp add: menu_read_page_def Let_def memset_at_def set_msi_flags read_request_def
      clear_page_def)

lemma menu_read_page_local:
  assumes "machine_ok N a" and "i < N" and "list_MSI a i = flags x" and "x \<noteq> Inv"
    and "page_num (temp_data a) = int i"
  shows "menu_read_page (int i * int (page_size a)) (int i) nxt a =
    Inr ([ReadingPage (page_string a i)], None,
      a\<lparr>temp_data := (temp_data a)\<lparr>access_page := int i * int (page_size a)\<rparr>, menu_at := nxt\<rparr>)"
  using assms cstr_at_page(1) [of N a i] by (cases x) (simp_all add: menu_read_page_def Let_def)

lemma read_request_sel [simp]:
  "page_num (read_request i a) = page_num (temp_data a)"
  "page_count (read_request i a) = page_count (temp_data a)"
  "access_page (read_request i a) = int i * int (page_size a)"
  "read_signal (read_request i a) = (read_signal (temp_data a))(i := 1)"
  "invalidate_signal (read_request i a) = (invalidate_signal (temp_data a))(i := 0)"
  "BusRdx (read_request i a) = BusRdx (temp_data a)"
  "BusUpgr (read_request i a) = BusUpgr (temp_data a)"
  by (simp_all add: read_request_def)

text \<open>What the other machine answers when coherent: its page if Modified, a blank if Invalid.\<close>

definition answer :: "nat \<Rightarrow> machine \<Rightarrow> char list" where
  "answer i b = (if list_MSI b i = flags Mod then page_string b i else '' '')"

lemma server_handle_read:
  assumes ok: "machine_ok N b" and i: "i < N" and num: "page_num td = int i"
    and acc: "access_page td = int i * int (page_size b)" and rd: "read_signal td i = 1"
    and st: "list_MSI b i = flags x" "x \<noteq> Shd"
  shows "server_handle td b =
    Inr (answer i b, b\<lparr>temp_data := td, list_MSI := (list_MSI b)(i := flags Shd)\<rparr>)"
proof (cases x)
  case Mod
  then show ?thesis
    using assms cstr_at_page(1) [OF ok i]
    by (simp add: server_handle_def Let_def set_msi_flags answer_def)
next
  case Inv
  then show ?thesis
    using assms by (simp add: server_handle_def Let_def set_msi_flags answer_def)
qed (use st in simp)

lemma answer_ok:
  assumes "coh N a b" and "i < N"
  shows "answer i b \<noteq> []" and "length (answer i b) < page_size b"
  using assms cstr_at_page(2,3) [of N b i]
  by (auto simp: answer_def coh_def pair_ok_def machine_ok_def)

definition read_text :: "nat \<Rightarrow> machine \<Rightarrow> machine \<Rightarrow> string" where
  "read_text i a b = takeWhile (\<lambda>c. c \<noteq> NUL) (overlay (recv_message a) 0 (answer i b))"

text \<open>The reader when the answer has arrived.\<close>

definition reader_after :: "nat \<Rightarrow> menu_pc \<Rightarrow> machine \<Rightarrow> machine \<Rightarrow> machine" where
  "reader_after i nxt a b =
     (let td = read_request i a in
      (clear_page i a)\<lparr>temp_data := td\<lparr>read_signal := (read_signal td)(i := 0)\<rparr>,
        list_MSI := (list_MSI a)(i := flags Shd), menu_at := nxt,
        recv_message := overlay (recv_message a) 0 (answer i b)\<rparr>)"

lemma menu_reply_read:
  assumes "coh N a b" and "i < N"
  shows "menu_reply (answer i b)
      ((clear_page i a)\<lparr>temp_data := read_request i a,
        list_MSI := (list_MSI a)(i := flags Shd), menu_at := Await i nxt\<rparr>) =
    Inr ([ReadingPage (read_text i a b)], reader_after i nxt a b)"
proof -
  have len: "length (answer i b) < page_size a" and ok: "machine_ok N a"
    using answer_ok(2) [OF assms] assms(1) by (auto simp: coh_def)
  show ?thesis
    using recv_overlay(2) [OF ok len] len ok
    by (simp add: menu_reply_def Let_def read_text_def reader_after_def machine_ok_def
       )
qed

lemma coh_after_read:
  assumes c: "coh N a b" and i: "i < N" and inv: "list_MSI a i = flags Inv"
    and num: "page_num (temp_data a) = int i"
  shows "coh N (reader_after i nxt a b)
    (b\<lparr>temp_data := read_request i a, list_MSI := (list_MSI b)(i := flags Shd)\<rparr>)"
proof -
  let ?a = "reader_after i nxt a b"
  let ?b = "b\<lparr>temp_data := read_request i a, list_MSI := (list_MSI b)(i := flags Shd)\<rparr>"
  have ok: "machine_ok N a" "machine_ok N b" and eq: "page_size a = page_size b"
    using c by (auto simp: coh_def)
  have "machine_ok N ?a"
    using recv_overlay(1) [OF machine_ok_clear_page [OF ok(1) i], of "answer i b"]
      answer_ok(2) [OF c i] eq
    by (simp add: machine_ok_def reader_after_def Let_def)
  moreover have "machine_ok N ?b" using ok by (simp add: machine_ok_def)
  moreover have "pair_ok ?a ?b j" if "j < N" for j
  proof (cases "j = i")
    case True
    then show ?thesis by (simp add: pair_ok_def reader_after_def Let_def)
  next
    case False
    have "pair_ok a b j" using c that by (simp add: coh_def)
    then show ?thesis
      using False page_byte_clear [OF ok(1) i that] ok(1)
      by (auto simp: pair_ok_def reader_after_def Let_def machine_ok_def)
  qed
  ultimately show ?thesis
    using eq by (simp add: coh_def reader_after_def Let_def)
qed


section \<open>Writing one page\<close>

definition line_ok :: "nat \<Rightarrow> string \<Rightarrow> bool" where
  "line_ok ps line \<longleftrightarrow> line \<noteq> [] \<and> length line < ps \<and> NUL \<notin> set line"

lemma takeWhile_line [simp]: "line_ok ps line \<Longrightarrow> takeWhile (\<lambda>c. c \<noteq> NUL) line = line"
  by (auto simp: line_ok_def takeWhile_eq_all_conv)

definition write_request :: "nat \<Rightarrow> machine \<Rightarrow> proc_info" where
  "write_request i mc =
     (write_signals i (list_MSI mc i) ((temp_data mc)\<lparr>page_num := int i\<rparr>))
       \<lparr>access_page := int i * int (page_size mc)\<rparr>"

definition writer_after :: "nat \<Rightarrow> string \<Rightarrow> menu_pc \<Rightarrow> machine \<Rightarrow> machine" where
  "writer_after i line pc mc =
     mc\<lparr>mapping := overlay (mapping mc) (i * page_size mc) line,
        temp_data := write_request i mc, list_MSI := (list_MSI mc)(i := flags Mod),
        message := line, menu_at := pc\<rparr>"

lemma write_request_sel [simp]:
  "page_num (write_request i a) = int i"
  "page_count (write_request i a) = page_count (temp_data a)"
  "access_page (write_request i a) = int i * int (page_size a)"
  "j \<noteq> i \<Longrightarrow> read_signal (write_request i a) j = read_signal (temp_data a) j"
  by (simp_all add: write_request_def write_signals_def)

lemma write_request_signals:
  "list_MSI a i = flags Inv \<Longrightarrow>
     read_signal (write_request i a) i = 0 \<and> BusRdx (write_request i a) i = 1"
  "list_MSI a i = flags Shd \<Longrightarrow>
     read_signal (write_request i a) i = 0 \<and> BusUpgr (write_request i a) i = 1"
  "list_MSI a i = flags Mod \<Longrightarrow>
     read_signal (write_request i a) i = read_signal (temp_data a) i"
  by (simp_all add: write_request_def write_signals_def)

lemma writer_ok:
  assumes ok: "machine_ok N a" and i: "i < N" and line: "line_ok (page_size a) line"
  shows "machine_ok N (writer_after i line pc a)"
    and "j < N \<Longrightarrow> k < page_size a \<Longrightarrow> page_byte (writer_after i line pc a) j k =
      (if j = i \<and> k < length line then line ! k else page_byte a j k)"
proof -
  have len: "length line \<le> page_size a" "length line \<noteq> page_size a"
    using line by (auto simp: line_ok_def)
  show "machine_ok N (writer_after i line pc a)"
    using machine_ok_overlay [OF ok i len(1)] len(2)
    by (simp add: machine_ok_def writer_after_def)
  show "j < N \<Longrightarrow> k < page_size a \<Longrightarrow> page_byte (writer_after i line pc a) j k =
      (if j = i \<and> k < length line then line ! k else page_byte a j k)"
    using page_byte_overlay [OF ok i _ len(1), of j k]
    by (simp add: page_byte_def writer_after_def)
qed

lemma page_string_writer:
  assumes "machine_ok N a" and "i < N" and "line_ok (page_size a) line"
  shows "cstr_at (overlay (mapping a) (i * page_size a) line) (int i * int (page_size a)) =
    Inr (page_string (writer_after i line pc a) i)"
  using cstr_at_page(1) [OF writer_ok(1) [OF assms] assms(2)] by (simp add: writer_after_def)

lemma menu_write_page_ok:
  assumes ok: "machine_ok N a" and i: "i < N" and line: "line_ok (page_size a) line"
  shows "menu_write_page (int i) line a =
    Inr ([WritingPage (page_string (writer_after i line Prompt a) i)], Some (write_request i a),
      writer_after i line Prompt a)"
proof -
  have i32: "to_int32 (int i) = int i" using ok i by (simp add: machine_ok_def MAX_SIZE_def)
  have "line \<noteq> []" "length line < page_size a" using line by (auto simp: line_ok_def)
  moreover have "cstr_at (overlay (mapping a) (i * page_size a) line)
      (int i * int (page_size a)) = Inr (page_string (writer_after i line Prompt a) i)"
    by (rule page_string_writer [OF ok i line])
  ultimately show ?thesis
    using ok i line memcpy_page [OF ok i, of line] i32
    by (simp add: menu_write_page_def Let_def set_msi_flags scan_message_def
        write_request_def writer_after_def write_signals_def)
qed

lemma menu_write_all_iter_ok:
  assumes ok: "machine_ok N a" and i: "i < N" and line: "line_ok (page_size a) (message a)"
  shows "menu_write_all_iter i a =
    Inr ([], Some (write_request i a), writer_after i (message a) (WriteLoop (Suc i)) a)"
proof -
  have "length (message a) \<le> page_size a" using line by (auto simp: line_ok_def)
  then show ?thesis
    using ok i line memcpy_page [OF ok i, of "message a"]
    by (auto simp: menu_write_all_iter_def Let_def set_msi_flags machine_ok_def idx_ok_def
        write_request_def writer_after_def write_signals_def)
qed

lemma server_handle_write_pair:
  assumes ok: "machine_ok N a" and p: "pair_ok a b i" and i: "i < N"
  shows "server_handle (write_request i a) b =
    Inr ([], b\<lparr>temp_data := write_request i a, list_MSI := (list_MSI b)(i := flags Inv)\<rparr>)"
proof -
  have idx: "idx_ok (int i)" using ok i by simp
  from p consider (II) "list_MSI a i = flags Inv" "list_MSI b i = flags Inv"
    | (SS) "list_MSI a i = flags Shd" "list_MSI b i = flags Shd"
    | (MI) "list_MSI a i = flags Mod" "list_MSI b i = flags Inv" "read_signal (temp_data a) i = 0"
    | (IM) "list_MSI a i = flags Inv" "list_MSI b i = flags Mod"
    unfolding pair_ok_def by blast
  then show ?thesis
  proof cases
    case II
    then have "(list_MSI b)(i := flags Inv) = list_MSI b" by (auto simp: fun_eq_iff)
    with II idx write_request_signals(1) [OF II(1)] show ?thesis
      by (simp add: server_handle_def Let_def set_msi_flags)
  next
    case SS
    with idx write_request_signals(2) [OF SS(1)] show ?thesis
      by (simp add: server_handle_def Let_def set_msi_flags)
  next
    case MI
    then have "(list_MSI b)(i := flags Inv) = list_MSI b" by (auto simp: fun_eq_iff)
    with MI idx write_request_signals(3) [OF MI(1)] show ?thesis
      by (simp add: server_handle_def Let_def set_msi_flags)
  next
    case IM
    with idx write_request_signals(1) [OF IM(1)] show ?thesis
      by (simp add: server_handle_def Let_def set_msi_flags)
  qed
qed

lemma server_handle_write:
  "coh N a b \<Longrightarrow> i < N \<Longrightarrow> server_handle (write_request i a) b =
    Inr ([], b\<lparr>temp_data := write_request i a, list_MSI := (list_MSI b)(i := flags Inv)\<rparr>)"
  by (rule server_handle_write_pair) (auto simp: coh_def)

lemma coh_after_write:
  assumes c: "coh N a b" and i: "i < N" and line: "line_ok (page_size a) line"
  shows "coh N (writer_after i line pc a)
    (b\<lparr>temp_data := write_request i a, list_MSI := (list_MSI b)(i := flags Inv)\<rparr>)"
proof -
  let ?a = "writer_after i line pc a"
  let ?b = "b\<lparr>temp_data := write_request i a, list_MSI := (list_MSI b)(i := flags Inv)\<rparr>"
  have ok: "machine_ok N a" "machine_ok N b" and eq: "page_size a = page_size b"
    using c by (auto simp: coh_def)
  have ps: "0 < page_size a" using ok by (simp add: machine_ok_def)
  have "line ! 0 \<in> set line" using line by (intro nth_mem) (auto simp: line_ok_def)
  then have l0: "line \<noteq> []" "line ! 0 \<noteq> NUL" using line unfolding line_ok_def by metis+
  have "machine_ok N ?a" by (rule writer_ok(1) [OF ok(1) i line])
  moreover have "machine_ok N ?b" using ok by (simp add: machine_ok_def)
  moreover have "pair_ok ?a ?b j" if j: "j < N" for j
  proof (cases "j = i")
    case True
    have "pair_ok a b i" using c i by (simp add: coh_def)
    then have "read_signal (write_request i a) i = 0"
      using write_request_signals [of a i] by (auto simp: pair_ok_def)
    then show ?thesis
      using True l0 writer_ok(2) [OF ok(1) i line j ps]
      by (simp add: pair_ok_def writer_after_def)
  next
    case False
    have "pair_ok a b j" using c j by (simp add: coh_def)
    then show ?thesis
      using False writer_ok(2) [OF ok(1) i line j ps, of pc]
      by (auto simp: pair_ok_def writer_after_def)
  qed
  ultimately show ?thesis
    using eq by (simp add: coh_def writer_after_def)
qed


section \<open>Exchanges of the system\<close>

text \<open>A system whose two machines are coherent, whichever side is named first.\<close>

definition coherent :: "nat \<Rightarrow> sys \<Rightarrow> bool" where
  "coherent N s \<longleftrightarrow> coh N (mach s One) (mach s Two)"

lemma coherent_side: "coherent N s \<longleftrightarrow> coh N (mach s w) (mach s (peer w))"
  by (cases w) (auto simp: coherent_def intro: coh_sym)

definition page_states :: "sys \<Rightarrow> side \<Rightarrow> nat \<Rightarrow> msi" where
  "page_states s w i = state_of (list_MSI (mach s w) i)"

text \<open>The abstract protocol: what one command does to the states of the pages.\<close>

definition spec_read :: "side \<Rightarrow> nat \<Rightarrow> (side \<Rightarrow> nat \<Rightarrow> msi) \<Rightarrow> (side \<Rightarrow> nat \<Rightarrow> msi)" where
  "spec_read w i st = (if st w i = Inv then (\<lambda>v. (st v)(i := Shd)) else st)"

definition spec_write :: "side \<Rightarrow> nat \<Rightarrow> (side \<Rightarrow> nat \<Rightarrow> msi) \<Rightarrow> (side \<Rightarrow> nat \<Rightarrow> msi)" where
  "spec_write w i st = (\<lambda>v. (st v)(i := (if v = w then Mod else Inv)))"

fun spec_cmd :: "nat \<Rightarrow> side \<times> command \<Rightarrow> (side \<Rightarrow> nat \<Rightarrow> msi) \<Rightarrow> (side \<Rightarrow> nat \<Rightarrow> msi)" where
  "spec_cmd N (w, Read n) st =
     (if n = -1 then fold (spec_read w) [0..<N] st else spec_read w (nat n) st)"
| "spec_cmd N (w, Write n line) st =
     (if n = -1 then fold (spec_write w) [0..<N] st else spec_write w (nat n) st)"
| "spec_cmd N (w, _) st = st"

text \<open>
  What an exchange over page \<open>i\<close> by side \<open>w\<close> leaves: within two further events the sockets are
  empty, the machines coherent, the other menu untouched, the states changed by \<open>f\<close> and the
  lines \<open>out\<close> printed.
\<close>

definition settles ::
  "nat \<Rightarrow> side \<Rightarrow> menu_pc \<Rightarrow> ((side \<Rightarrow> nat \<Rightarrow> msi) \<Rightarrow> (side \<Rightarrow> nat \<Rightarrow> msi)) \<Rightarrow> sys \<Rightarrow> sys res \<Rightarrow> sys \<Rightarrow> bool"
  where
  "settles N w pc f s r t \<longleftrightarrow>
     (\<exists>s1 k. r = Inr s1 \<and> k \<le> 2 \<and> (\<forall>n. drive (k + n) w s1 = drive n w t)) \<and>
     calm t \<and> coherent N t \<and> menu_at (mach t w) = pc \<and>
     menu_at (mach t (peer w)) = menu_at (mach s (peer w)) \<and>
     message (mach t w) = message (mach s w) \<and>
     page_size (mach t w) = page_size (mach s w) \<and>
     page_states t = f (page_states s)"

lemma coherent_states:
  assumes "coherent N s" and "i < N"
  shows "list_MSI (mach s w) i = flags (page_states s w i)"
proof -
  have "pair_ok (mach s w) (mach s (peer w)) i"
    using assms by (simp add: coherent_side [of N s w] coh_def)
  then show ?thesis
    by (auto simp: pair_ok_def page_states_def)
qed

lemma page_states_update:
  "list_MSI (mach t w) = (list_MSI (mach s w))(i := flags x) \<Longrightarrow>
   list_MSI (mach t (peer w)) = (list_MSI (mach s (peer w)))(i := flags y) \<Longrightarrow>
   page_states t = (\<lambda>v. (page_states s v)(i := (if v = w then x else y)))"
proof (intro ext)
  fix v j
  assume w: "list_MSI (mach t w) = (list_MSI (mach s w))(i := flags x)"
    and p: "list_MSI (mach t (peer w)) = (list_MSI (mach s (peer w)))(i := flags y)"
  consider "v = w" | "v = peer w" using side_eq by blast
  then show "page_states t v j = ((page_states s v)(i := (if v = w then x else y))) j"
    by cases (simp_all add: page_states_def w p)
qed

text \<open>A request without an answer, and one with an answer, run to the end.\<close>

lemma drive_serve_silent:
  assumes calm: "calm s" and peer: "menu_at (mach s (peer w)) \<noteq> Exited"
    and r: "r = Inr (out, Some td, a)"
    and h: "server_handle td (mach s (peer w)) = Inr ([], b)"
  defines "t \<equiv> s\<lparr>mach := (mach s)(w := a, peer w := b),
    printed := (printed s)(w := printed s w @ out), requests := (\<lambda>_. []), replies := (\<lambda>_. [])\<rparr>"
  shows "\<exists>s1 k. after_menu w s r = Inr s1 \<and> k \<le> 2 \<and> (\<forall>n. drive (k + n) w s1 = drive n w t)"
    and "calm t"
proof -
  have emp: "requests s = (\<lambda>_. [])" "replies s = (\<lambda>_. [])"
    using calm by (auto simp: calm_def)
  show "calm t" using emp by (simp add: t_def calm_def)
  have "\<exists>s1. after_menu w s r = Inr s1 \<and> (\<forall>n. drive (1 + n) w s1 = drive n w t)"
    using emp peer h by (cases s) (simp add: r after_menu_def next_event_def t_def fun_upd_idem)
  then show "\<exists>s1 k. after_menu w s r = Inr s1 \<and> k \<le> 2 \<and> (\<forall>n. drive (k + n) w s1 = drive n w t)"
    by (metis one_le_numeral)
qed

lemma drive_serve_reply:
  assumes calm: "calm s" and peer: "menu_at (mach s (peer w)) \<noteq> Exited"
    and r: "r = Inr (out, Some td, a)"
    and h: "server_handle td (mach s (peer w)) = Inr (bytes, b)" and ne: "bytes \<noteq> []"
    and m: "menu_reply bytes a = Inr (out', a')"
  defines "t \<equiv> s\<lparr>mach := (mach s)(w := a', peer w := b),
    printed := (printed s)(w := printed s w @ out @ out'),
    requests := (\<lambda>_. []), replies := (\<lambda>_. [])\<rparr>"
  shows "\<exists>s1 k. after_menu w s r = Inr s1 \<and> k \<le> 2 \<and> (\<forall>n. drive (k + n) w s1 = drive n w t)"
    and "calm t"
proof -
  have emp: "requests s = (\<lambda>_. [])" "replies s = (\<lambda>_. [])"
    using calm by (auto simp: calm_def)
  have sw: "(mach s)(w := a, peer w := b, w := a') = (mach s)(w := a', peer w := b)"
    by (simp add: fun_upd_twist)
  show "calm t" using emp by (simp add: t_def calm_def)
  have "\<exists>s1. after_menu w s r = Inr s1 \<and> (\<forall>n. drive (2 + n) w s1 = drive n w t)"
    using emp peer h ne m sw
    by (cases s) (simp add: r after_menu_def next_event_def t_def fun_upd_idem numeral_2_eq_2)
  then show "\<exists>s1 k. after_menu w s r = Inr s1 \<and> k \<le> 2 \<and> (\<forall>n. drive (k + n) w s1 = drive n w t)"
    by blast
qed


lemma spec_read_local: "st w i \<noteq> Inv \<Longrightarrow> spec_read w i st = st"
  by (simp add: spec_read_def)

lemma settles_read:
  fixes w
  assumes c: "coherent N s" and calm: "calm s" and i: "i < N"
    and peer: "menu_at (mach s (peer w)) \<noteq> Exited"
  defines "mc \<equiv> (mach s w)\<lparr>temp_data := (temp_data (mach s w))\<lparr>page_num := int i\<rparr>\<rparr>"
  shows "\<exists>t. settles N w pc (spec_read w i) s (after_menu w s (menu_read_page (int i * int (page_size mc)) (int i) pc mc)) t"
proof -
  let ?b = "mach s (peer w)"
  have cm: "coh N mc ?b" and num: "page_num (temp_data mc) = int i"
    using c by (auto simp: coherent_side [of N s w] coh_def mc_def machine_ok_def pair_ok_def)
  then have ok: "machine_ok N mc" by (simp add: coh_def)
  show ?thesis
  proof (cases "page_states s w i = Inv")
    case True
    have inv: "list_MSI mc i = flags Inv"
      using coherent_states [OF c i, of w] True by (simp add: mc_def)
    have "pair_ok mc ?b i" using cm i by (simp add: coh_def)
    then obtain x where x: "list_MSI ?b i = flags x" "x \<noteq> Shd"
      using inv by (auto simp: pair_ok_def)
    let ?td = "read_request i mc"
    let ?b' = "?b\<lparr>temp_data := ?td, list_MSI := (list_MSI ?b)(i := flags Shd)\<rparr>"
    have h: "server_handle ?td ?b = Inr (answer i ?b, ?b')"
      using server_handle_read [of N ?b i ?td x] cm i num x by (simp add: coh_def)
    note ex = drive_serve_reply [OF calm peer menu_read_page_Inv [OF ok i inv num] h
        answer_ok(1) [OF cm i] menu_reply_read [OF cm i, of pc]]
    let ?a = "reader_after i pc mc ?b"
    let ?t = "s\<lparr>mach := (mach s)(w := ?a, peer w := ?b'),
      printed := (printed s)(w := printed s w @ [] @ [ReadingPage (read_text i mc ?b)]),
      requests := (\<lambda>_. []), replies := (\<lambda>_. [])\<rparr>"
    have "coherent N ?t"
      using coh_after_read [OF cm i inv num, of pc] by (simp add: coherent_side [of N _ w])
    moreover have "page_states ?t = (\<lambda>v. (page_states s v)(i := (if v = w then Shd else Shd)))"
      by (rule page_states_update) (simp_all add: reader_after_def Let_def mc_def)
    then have "page_states ?t = spec_read w i (page_states s)"
      using True by (simp add: spec_read_def)
    ultimately have "settles N w pc (spec_read w i) s
        (after_menu w s (menu_read_page (int i * int (page_size mc)) (int i) pc mc)) ?t"
      unfolding settles_def using ex by (simp add: reader_after_def Let_def mc_def)
    then show ?thesis by blast
  next
    case False
    have st: "list_MSI mc i = flags (page_states s w i)"
      using coherent_states [OF c i, of w] by (simp add: mc_def)
    note r = menu_read_page_local [OF ok i st False num, of pc]
    let ?a = "mc\<lparr>temp_data := (temp_data mc)\<lparr>access_page := int i * int (page_size mc)\<rparr>, menu_at := pc\<rparr>"
    let ?t = "s\<lparr>mach := (mach s)(w := ?a),
      printed := (printed s)(w := printed s w @ [ReadingPage (page_string mc i)])\<rparr>"
    have "after_menu w s (menu_read_page (int i * int (page_size mc)) (int i) pc mc) = Inr ?t"
      by (simp add: r after_menu_def)
    moreover have "coherent N ?t"
      using cm by (auto simp: coherent_side [of N _ w] coh_def machine_ok_def pair_ok_def)
    moreover have "calm ?t" using calm by (simp add: calm_def)
    moreover have "page_states ?t = page_states s"
      by (intro ext) (simp add: page_states_def mc_def)
    ultimately have "settles N w pc (spec_read w i) s
        (after_menu w s (menu_read_page (int i * int (page_size mc)) (int i) pc mc)) ?t"
      unfolding settles_def using False
      by (auto simp: spec_read_local mc_def intro: exI [of _ 0])
    then show ?thesis by blast
  qed
qed

lemma settles_write:
  fixes w
  assumes c: "coherent N s" and calm: "calm s" and i: "i < N"
    and peer: "menu_at (mach s (peer w)) \<noteq> Exited"
    and line: "line_ok (page_size (mach s w)) line"
    and r: "r = Inr (out, Some (write_request i (mach s w)), writer_after i line pc (mach s w))"
  shows "\<exists>t. settles N w pc (spec_write w i) (s\<lparr>mach := (mach s)(w := (mach s w)\<lparr>message := line\<rparr>)\<rparr>)
    (after_menu w s r) t"
proof -
  let ?a = "mach s w" and ?b = "mach s (peer w)"
  have cm: "coh N ?a ?b" using c by (simp add: coherent_side [of N s w])
  let ?b' = "?b\<lparr>temp_data := write_request i ?a, list_MSI := (list_MSI ?b)(i := flags Inv)\<rparr>"
  note ex = drive_serve_silent [OF calm peer r server_handle_write [OF cm i]]
  let ?t = "s\<lparr>mach := (mach s)(w := writer_after i line pc ?a, peer w := ?b'),
    printed := (printed s)(w := printed s w @ out), requests := (\<lambda>_. []), replies := (\<lambda>_. [])\<rparr>"
  have "coherent N ?t"
    using coh_after_write [OF cm i line, of pc] by (simp add: coherent_side [of N _ w])
  moreover have "page_states ?t = (\<lambda>v. (page_states s v)(i := (if v = w then Mod else Inv)))"
    by (rule page_states_update) (simp_all add: writer_after_def)
  moreover have "page_states (s\<lparr>mach := (mach s)(w := ?a\<lparr>message := line\<rparr>)\<rparr>) = page_states s"
    by (intro ext) (simp add: page_states_def)
  ultimately have "settles N w pc (spec_write w i)
      (s\<lparr>mach := (mach s)(w := ?a\<lparr>message := line\<rparr>)\<rparr>) (after_menu w s r) ?t"
    unfolding settles_def using ex by (simp add: writer_after_def spec_write_def)
  then show ?thesis by blast
qed


section \<open>A whole command\<close>

definition good :: "nat \<Rightarrow> nat \<Rightarrow> sys \<Rightarrow> bool" where
  "good N ps s \<longleftrightarrow> coherent N s \<and> calm s \<and>
     (\<forall>w. menu_at (mach s w) = Prompt \<and> page_size (mach s w) = ps)"

definition cmd_ok :: "nat \<Rightarrow> nat \<Rightarrow> command \<Rightarrow> bool" where
  "cmd_ok N ps c =
     (case c of
        Read n \<Rightarrow> n = -1 \<or> (0 \<le> n \<and> n < int N)
      | Write n line \<Rightarrow> (n = -1 \<or> (0 \<le> n \<and> n < int N)) \<and> line_ok ps line
      | View n \<Rightarrow> True
      | Quit \<Rightarrow> False
      | OtherKey \<Rightarrow> True)"

lemma goodI:
  assumes "coherent N t" and "calm t" and "menu_at (mach t w) = Prompt"
    and "menu_at (mach t (peer w)) = Prompt" and "page_size (mach t w) = ps"
  shows "good N ps t"
proof -
  have "page_size (mach t (peer w)) = ps"
    using assms by (simp add: coherent_side [of N t w] coh_def)
  then show ?thesis
    using assms by (simp add: good_def all_side [where w = w])
qed

lemma drive_prompt: "calm t \<Longrightarrow> menu_at (mach t w) = Prompt \<Longrightarrow> drive n w t = Inr t"
  by (cases n) (auto simp: next_event_def calm_def)

lemma drive_loop_head:
  assumes "calm s" and "menu_at (mach s w) = ReadLoop k \<or> menu_at (mach s w) = WriteLoop k"
  shows "drive (Suc n) w s =
    bind_res (after_menu w s (menu_iter (mach s w))) (drive n w)"
  using assms by (auto simp: next_event_def calm_def)

text \<open>An exchange from the loop head, then whatever the rest of the fuel does.\<close>

lemma drive_exchange:
  assumes "settles N w pc f s' r t" and "3 + m \<le> fuel"
    and "\<And>n. m \<le> n \<Longrightarrow> drive n w t = Inr u"
    and head: "\<And>n. drive (Suc n) w s = bind_res r (drive n w)"
  shows "drive fuel w s = Inr u"
proof -
  obtain s1 k where r: "r = Inr s1" and k: "k \<le> 2"
    and d: "\<And>n. drive (k + n) w s1 = drive n w t"
    using assms(1) unfolding settles_def by blast
  have "fuel = Suc (k + (fuel - Suc k))" and "m \<le> fuel - Suc k"
    using assms(2) k by auto
  then show ?thesis using head [of "k + (fuel - Suc k)"] r d assms(3) by (metis bind_res_simps(2))
qed

lemma drive_loop_end:
  assumes c: "coherent N s" and calm: "calm s"
    and head: "menu_at (mach s w) = ReadLoop k \<or> menu_at (mach s w) = WriteLoop k"
    and peer: "menu_at (mach s (peer w)) = Prompt"
    and iter: "menu_iter (mach s w) = Inr ([], None, (mach s w)\<lparr>menu_at := Prompt\<rparr>)"
  shows "\<exists>t. (\<forall>n \<ge> 1. drive n w s = Inr t) \<and> good N (page_size (mach s w)) t \<and>
    page_states t = page_states s"
proof -
  let ?t = "s\<lparr>mach := (mach s)(w := (mach s w)\<lparr>menu_at := Prompt\<rparr>),
    printed := (printed s)(w := printed s w @ [])\<rparr>"
  have step: "after_menu w s (menu_iter (mach s w)) = Inr ?t"
    by (simp add: iter after_menu_def)
  have calm': "calm ?t" using calm by (simp add: calm_def)
  have "drive n w s = Inr ?t" if n: "1 \<le> n" for n
    using drive_loop_head [OF calm head, of "n - 1"] step drive_prompt [OF calm', of w "n - 1"] n
    by simp
  moreover have "coherent N ?t"
    using c by (simp add: coherent_side [of N _ w])
  then have "good N (page_size (mach s w)) ?t"
    using peer calm' by (intro goodI [of _ _ w]) auto
  moreover have "page_states ?t = page_states s"
    by (auto simp: page_states_def fun_eq_iff)
  ultimately show ?thesis by blast
qed

lemma coherent_page_count: "coherent N s \<Longrightarrow> page_count (temp_data (mach s w)) = int N"
  by (simp add: coherent_side [of N s w] coh_def machine_ok_def)

lemma drive_read_loop:
  assumes "coherent N s" and "calm s" and "menu_at (mach s w) = ReadLoop k" and "k \<le> N"
    and "menu_at (mach s (peer w)) = Prompt"
  shows "\<exists>t. (\<forall>n \<ge> 3 * (N - k) + 1. drive n w s = Inr t) \<and> good N (page_size (mach s w)) t \<and>
    page_states t = fold (spec_read w) [k..<N] (page_states s)"
  using assms
proof (induction "N - k" arbitrary: k s)
  case 0
  then have "k = N" and "menu_iter (mach s w) = Inr ([], None, (mach s w)\<lparr>menu_at := Prompt\<rparr>)"
    using coherent_page_count [of N s w] by (auto simp: menu_iter_def menu_read_all_iter_def)
  then show ?case using drive_loop_end [of N s w k] "0.prems" by simp
next
  case (Suc d)
  then have k: "k < N" and cnt: "page_count (temp_data (mach s w)) = int N"
    by (auto intro: coherent_page_count)
  have ok: "machine_ok N (mach s w)" using Suc.prems(1) by (simp add: coherent_side [of N _ w] coh_def)
  obtain t where t: "settles N w (ReadLoop (Suc k)) (spec_read w k) s
      (after_menu w s (menu_iter (mach s w))) t"
    using settles_read [OF Suc.prems(1,2) k, of w "ReadLoop (Suc k)"] Suc.prems(3,5) k cnt page_offset(2) [OF ok k]
    by (auto simp: menu_iter_def menu_read_all_iter_def)
  then have tt: "coherent N t" "calm t" "menu_at (mach t w) = ReadLoop (Suc k)"
    "menu_at (mach t (peer w)) = Prompt" "page_size (mach t w) = page_size (mach s w)"
    "page_states t = spec_read w k (page_states s)"
    using Suc.prems(5) by (auto simp: settles_def)
  have "d = N - Suc k" using Suc.hyps(2) by simp
  then obtain u where u: "\<And>n. 3 * (N - Suc k) + 1 \<le> n \<Longrightarrow> drive n w t = Inr u"
    and g: "good N (page_size (mach s w)) u"
    and st: "page_states u = fold (spec_read w) [Suc k..<N] (page_states t)"
    using Suc.hyps(1) [OF _ tt(1-3) _ tt(4)] k tt(5) by auto
  have "drive n w s = Inr u" if "3 * (N - k) + 1 \<le> n" for n
    using that k
    by (intro drive_exchange [OF t _ u drive_loop_head [OF Suc.prems(2) disjI1 [OF Suc.prems(3)]]]) auto
  moreover have "page_states u = fold (spec_read w) [k..<N] (page_states s)"
    using st tt(6) k by (simp add: upt_conv_Cons)
  ultimately show ?case using g by blast
qed

lemma drive_write_loop:
  assumes "coherent N s" and "calm s" and "menu_at (mach s w) = WriteLoop k" and "k \<le> N"
    and "menu_at (mach s (peer w)) = Prompt" and "line_ok (page_size (mach s w)) (message (mach s w))"
  shows "\<exists>t. (\<forall>n \<ge> 3 * (N - k) + 1. drive n w s = Inr t) \<and> good N (page_size (mach s w)) t \<and>
    page_states t = fold (spec_write w) [k..<N] (page_states s)"
  using assms
proof (induction "N - k" arbitrary: k s)
  case 0
  then have "k = N" and "menu_iter (mach s w) = Inr ([], None, (mach s w)\<lparr>menu_at := Prompt\<rparr>)"
    using coherent_page_count [of N s w] by (auto simp: menu_iter_def menu_write_all_iter_def)
  then show ?case using drive_loop_end [of N s w k] "0.prems" by simp
next
  case (Suc d)
  let ?mc = "mach s w"
  have k: "k < N" using Suc.hyps(2) by simp
  have ok: "machine_ok N ?mc" using Suc.prems(1) by (simp add: coherent_side [of N s w] coh_def)
  have r: "menu_iter ?mc = Inr ([], Some (write_request k ?mc),
      writer_after k (message ?mc) (WriteLoop (Suc k)) ?mc)"
    using menu_write_all_iter_ok [OF ok k Suc.prems(6)] Suc.prems(3) by (simp add: menu_iter_def)
  have "s\<lparr>mach := (mach s)(w := ?mc\<lparr>message := message ?mc\<rparr>)\<rparr> = s" by simp
  then obtain t where t: "settles N w (WriteLoop (Suc k)) (spec_write w k) s
      (after_menu w s (menu_iter ?mc)) t"
    using settles_write [OF Suc.prems(1,2) k _ Suc.prems(6) r] Suc.prems(5) by auto
  then have tt: "coherent N t" "calm t" "menu_at (mach t w) = WriteLoop (Suc k)"
    "menu_at (mach t (peer w)) = Prompt" "page_size (mach t w) = page_size ?mc"
    "message (mach t w) = message ?mc" "page_states t = spec_write w k (page_states s)"
    using Suc.prems(5) by (auto simp: settles_def)
  have "d = N - Suc k" using Suc.hyps(2) by simp
  then obtain u where u: "\<And>n. 3 * (N - Suc k) + 1 \<le> n \<Longrightarrow> drive n w t = Inr u"
    and g: "good N (page_size ?mc) u"
    and st: "page_states u = fold (spec_write w) [Suc k..<N] (page_states t)"
    using Suc.hyps(1) [OF _ tt(1-3) _ tt(4)] k tt(5,6) Suc.prems(6) by auto
  have "drive n w s = Inr u" if "3 * (N - k) + 1 \<le> n" for n
    using that k
    by (intro drive_exchange [OF t _ u drive_loop_head [OF Suc.prems(2) disjI2 [OF Suc.prems(3)]]]) auto
  moreover have "page_states u = fold (spec_write w) [k..<N] (page_states s)"
    using st tt(7) k by (simp add: upt_conv_Cons)
  ultimately show ?case using g by blast
qed


lemma menu_command_at_prompt [simp]:
  "menu_at mc = Prompt \<Longrightarrow> menu_command (Read n) mc = menu_read n mc"
  "menu_at mc = Prompt \<Longrightarrow> menu_command (Write n l) mc = menu_write n l mc"
  "menu_at mc = Prompt \<Longrightarrow> menu_command (View n) mc = menu_view n mc"
  by (simp_all add: menu_command_def)

text \<open>One exchange started from the prompt.\<close>

lemma exchange_from_prompt:
  assumes t: "settles N w Prompt f s' r t" and peer: "menu_at (mach s' (peer w)) = Prompt"
    and fuel: "2 \<le> fuel"
  shows "bind_res r (drive fuel w) = Inr t \<and> good N (page_size (mach s' w)) t \<and>
    page_states t = f (page_states s')"
proof -
  obtain s1 k where r: "r = Inr s1" and k: "k \<le> 2"
    and d: "\<And>n. drive (k + n) w s1 = drive n w t"
    using t unfolding settles_def by blast
  have calm: "calm t" and pr: "menu_at (mach t w) = Prompt"
    using t by (auto simp: settles_def)
  have "drive fuel w s1 = drive (fuel - k) w t"
    using d [of "fuel - k"] k fuel by simp
  then have "drive fuel w s1 = Inr t" using drive_prompt [OF calm pr] by simp
  moreover have "good N (page_size (mach s' w)) t"
    using t peer by (intro goodI [of _ _ w]) (auto simp: settles_def)
  ultimately show ?thesis using r t by (simp add: settles_def)
qed

lemma sync_read:
  assumes g: "good N ps s" and ok: "cmd_ok N ps (Read n)"
  shows "\<exists>t. sync_cmd (w, Read n) s = Inr t \<and> good N ps t \<and>
    page_states t = spec_cmd N (w, Read n) (page_states s)"
proof -
  let ?mc = "(mach s w)\<lparr>temp_data := (temp_data (mach s w))\<lparr>page_num := n\<rparr>\<rparr>"
  have c: "coherent N s" and calm: "calm s" and pr: "\<And>v. menu_at (mach s v) = Prompt"
    and ps: "\<And>v. page_size (mach s v) = ps"
    using g by (auto simp: good_def)
  note cnt = coherent_page_count [OF c, of w]
  show ?thesis
  proof (cases "n = -1")
    case True
    let ?s = "s\<lparr>mach := (mach s)(w := ?mc\<lparr>menu_at := ReadLoop 0\<rparr>),
      printed := (printed s)(w := printed s w @ [])\<rparr>"
    have key: "sys_step (Key w (Read n)) s = Inr ?s"
      using pr True by (simp add: menu_read_def after_menu_def to_int32_def)
    have "coherent N ?s" "calm ?s" "page_states ?s = page_states s"
      using c calm
      by (auto simp: coherent_side [of N _ w] coh_def machine_ok_def pair_ok_def calm_def
          page_states_def fun_eq_iff)
    then show ?thesis
      using drive_read_loop [of N ?s w 0] key True pr ps cnt by (auto simp: sync_cmd_def)
  next
    case False
    then have i: "0 \<le> n" "nat n < N" "int (nat n) = n" "n < int N"
      using ok by (auto simp: cmd_ok_def)
    have "N \<le> 4096"
      using c by (auto simp: coherent_def coh_def machine_ok_def MAX_SIZE_def)
    then have "to_int32 n = n" using i(1,4) by simp
    moreover have ok: "machine_ok N (mach s w)" using c by (simp add: coherent_side [of N _ w] coh_def)
    ultimately have key: "sys_step (Key w (Read n)) s = after_menu w s (menu_read_page (n * int (page_size ?mc)) n Prompt ?mc)"
      using pr False page_offset(1) [OF ok i(2)] unfolding i(3) by (simp add: menu_read_def Let_def)
    obtain t where t: "settles N w Prompt (spec_read w (nat n)) s
        (after_menu w s (menu_read_page (n * int (page_size ?mc)) n Prompt ?mc)) t"
      using settles_read [OF c calm i(2), of w Prompt] pr i(3) by auto
    show ?thesis
      using exchange_from_prompt [OF t] key pr ps cnt False by (auto simp: sync_cmd_def)
  qed
qed

lemma sync_write:
  assumes g: "good N ps s" and ok: "cmd_ok N ps (Write n line)"
  shows "\<exists>t. sync_cmd (w, Write n line) s = Inr t \<and> good N ps t \<and>
    page_states t = spec_cmd N (w, Write n line) (page_states s)"
proof -
  have c: "coherent N s" and calm: "calm s" and pr: "\<And>v. menu_at (mach s v) = Prompt"
    and ps: "\<And>v. page_size (mach s v) = ps"
    using g by (auto simp: good_def)
  note cnt = coherent_page_count [OF c, of w]
  have line: "line_ok ps line" using ok by (simp add: cmd_ok_def)
  show ?thesis
  proof (cases "n = -1")
    case True
    let ?s = "s\<lparr>mach := (mach s)(w := (mach s w)\<lparr>temp_data := (temp_data (mach s w))\<lparr>page_num := n\<rparr>,
        message := line, menu_at := WriteLoop 0\<rparr>),
      printed := (printed s)(w := printed s w @ [])\<rparr>"
    have key: "sys_step (Key w (Write n line)) s = Inr ?s"
      using pr True line ps
      by (simp add: menu_write_def after_menu_def to_int32_def scan_message_def)
        (simp add: line_ok_def)
    have "coherent N ?s" "calm ?s" "page_states ?s = page_states s"
      using c calm
      by (auto simp: coherent_side [of N _ w] coh_def machine_ok_def pair_ok_def calm_def
          page_states_def fun_eq_iff)
    then show ?thesis
      using drive_write_loop [of N ?s w 0] key True pr ps cnt line by (auto simp: sync_cmd_def)
  next
    case False
    then have i: "0 \<le> n" "nat n < N" "int (nat n) = n" "n < int N"
      using ok by (auto simp: cmd_ok_def)
    have m: "machine_ok N (mach s w)" using c by (simp add: coherent_side [of N s w] coh_def)
    then have "N \<le> 4096" by (simp add: machine_ok_def MAX_SIZE_def)
    then have "to_int32 n = n" using i(1,4) by simp
    then have key: "sys_step (Key w (Write n line)) s = after_menu w s (menu_write_page n line (mach s w))"
      using pr False by (simp add: menu_write_def)
    have r: "menu_write_page n line (mach s w) =
        Inr ([WritingPage (page_string (writer_after (nat n) line Prompt (mach s w)) (nat n))],
          Some (write_request (nat n) (mach s w)), writer_after (nat n) line Prompt (mach s w))"
      using menu_write_page_ok [OF m i(2), of line] line ps i(3) by simp
    obtain t where t: "settles N w Prompt (spec_write w (nat n))
        (s\<lparr>mach := (mach s)(w := (mach s w)\<lparr>message := line\<rparr>)\<rparr>)
        (after_menu w s (menu_write_page n line (mach s w))) t"
      using settles_write [OF c calm i(2) _ _ r] pr line ps by auto
    have "page_states (s\<lparr>mach := (mach s)(w := (mach s w)\<lparr>message := line\<rparr>)\<rparr>) = page_states s"
      by (auto simp: page_states_def fun_eq_iff)
    then show ?thesis
      using exchange_from_prompt [OF t] key pr ps cnt False by (auto simp: sync_cmd_def)
  qed
qed

lemma sync_cmd_returns:
  assumes g: "good N ps s" and ok: "cmd_ok N ps c"
  shows "\<exists>t. sync_cmd (w, c) s = Inr t \<and> good N ps t \<and>
    page_states t = spec_cmd N (w, c) (page_states s)"
proof (cases c)
  case (View n)
  have pr: "\<And>v. menu_at (mach s v) = Prompt" and cm: "coherent N s" and calm: "calm s"
    using g by (auto simp: good_def)
  have cnt: "page_count (temp_data (mach s w)) \<le> MAX_SIZE"
    using cm by (simp add: coherent_side [of N s w] coh_def machine_ok_def)
  then have "\<exists>out. menu_view n (mach s w) =
      Inr (out, None, (mach s w)\<lparr>temp_data := (temp_data (mach s w))\<lparr>page_num := n\<rparr>\<rparr>)"
    by (auto simp: menu_view_def Let_def)
  then obtain out where "menu_view n (mach s w) =
      Inr (out, None, (mach s w)\<lparr>temp_data := (temp_data (mach s w))\<lparr>page_num := n\<rparr>\<rparr>)"
    by blast
  then have key: "sys_step (Key w c) s = Inr (s\<lparr>mach := (mach s)(w :=
      (mach s w)\<lparr>temp_data := (temp_data (mach s w))\<lparr>page_num := n\<rparr>\<rparr>),
      printed := (printed s)(w := printed s w @ out)\<rparr>)" (is "_ = Inr ?t")
    using View pr by (simp add: after_menu_def)
  have "good N ps ?t"
    using g by (intro goodI [of _ _ w])
      (auto simp: coherent_side [of N _ w] coh_def machine_ok_def pair_ok_def calm_def good_def)
  moreover have "page_states ?t = page_states s"
    by (auto simp: page_states_def fun_eq_iff)
  moreover have "drive n w ?t = Inr ?t" for n
    using pr calm by (intro drive_prompt) (auto simp: calm_def)
  ultimately show ?thesis
    using key View by (simp add: sync_cmd_def)
next
  case OtherKey
  have pr: "\<And>v. menu_at (mach s v) = Prompt" and calm: "calm s" using g by (auto simp: good_def)
  have key: "sys_step (Key w c) s = Inr (s\<lparr>printed := (printed s)(w := printed s w @ [])\<rparr>)"
    (is "_ = Inr ?t")
    using OtherKey pr by (simp add: menu_command_def after_menu_def)
  moreover have "good N ps ?t" using g by (auto simp: good_def coherent_def calm_def)
  moreover have "drive n w ?t = Inr ?t" for n
    using pr calm by (intro drive_prompt) (auto simp: calm_def)
  moreover have "page_states ?t = page_states s"
    by (auto simp: page_states_def fun_eq_iff)
  ultimately show ?thesis
    using OtherKey by (simp add: sync_cmd_def)
qed (use assms sync_read sync_write in \<open>auto simp: cmd_ok_def\<close>)

end
