(* ===== verification/Msi_Sync.thy ===== *)
theory Msi_Sync
  imports Msi_Coherence
begin

text \<open>
  The properties of \<open>Project_3_new/part4/part4.c\<close> when commands are issued one at a time, each
  finished before the next: every admissible sequence of commands from the start returns with
  the pages coherent, the page states follow the protocol \<open>spec_cmd\<close>, a page read remotely
  is the one its owner wrote, and what the reader's own copy holds afterwards.
\<close>

section \<open>The start is good\<close>

definition buffers_ok :: "nat \<Rightarrow> (side \<Rightarrow> char list) \<Rightarrow> bool" where
  "buffers_ok ps recvbuf \<longleftrightarrow>
     (\<forall>b \<in> {recvbuf One, recvbuf Two}. length b = ps \<and> last b = NUL)"

lemma fresh_machine_ok:
  assumes "ps \<in> {1<..2 ^ 18}" and "N \<in> {1..4096}" and "page_count td = int N"
    and "length buf = ps" and "last buf = NUL"
  shows "\<exists>mc. fresh_machine True ps td buf msg = Inr mc \<and> machine_ok N mc \<and> page_size mc = ps \<and>
    menu_at mc = Prompt \<and> list_MSI mc = init_list_MSI (int N) \<and> recv_message mc = buf"
proof -
  have "replicate (N * ps) NUL ! (i * ps + (ps - 1)) = NUL" if "i < N" for i
    using page_index_bound [OF that, of "ps - 1" ps] assms(1) by (intro nth_replicate) simp
  moreover have "mmap_len ps (int N) = N * ps" "\<not> mmap_fails True (mmap_len ps (int N))"
    using mmap_len_pages [of "int N" ps] assms(1,2) by (auto simp: MAX_SIZE_def)
  ultimately show ?thesis
    using assms by (auto simp: fresh_machine_def machine_ok_def page_byte_def MAX_SIZE_def Let_def)
qed

lemma init_flags: "i < N \<Longrightarrow> init_list_MSI (int N) i = flags Inv"
  by (simp add: init_list_MSI_def flags_unfold)

lemma state_of_init [simp]: "state_of (init_list_MSI n i) = Inv"
  by (simp add: state_of_def init_list_MSI_def)

lemma init_good:
  assumes "ps \<in> {1<..2 ^ 18}" and "N \<in> {1..4096}" and "buffers_ok ps recvbuf"
  shows "\<exists>s. init_sys ps (int N) garbage recvbuf msgbuf = Inr s \<and> good N ps s \<and>
    page_states s = (\<lambda>_ _. Inv)"
proof -
  have len: "\<not> mmap_fails True (mmap_len ps (int N))"
    using mmap_len_pages [of "int N" ps] assms(1,2) by (auto simp: MAX_SIZE_def)
  obtain a where a: "fresh_machine True ps (zero_info\<lparr>page_count := int N\<rparr>) (recvbuf One) (msgbuf One) = Inr a"
    "machine_ok N a" "page_size a = ps" "menu_at a = Prompt" "list_MSI a = init_list_MSI (int N)"
    using fresh_machine_ok [OF assms(1,2), of "zero_info\<lparr>page_count := int N\<rparr>"] assms(3)
    by (fastforce simp: buffers_ok_def)
  obtain b where b: "fresh_machine True ps (garbage\<lparr>page_count := int N\<rparr>) (recvbuf Two) (msgbuf Two) = Inr b"
    "machine_ok N b" "page_size b = ps" "menu_at b = Prompt" "list_MSI b = init_list_MSI (int N)"
    using fresh_machine_ok [OF assms(1,2), of "garbage\<lparr>page_count := int N\<rparr>"] assms(3)
    by (fastforce simp: buffers_ok_def)
  have "coh N a b"
    using a b by (simp add: coh_def pair_ok_def init_flags)
  then show ?thesis
    using a b len by (auto simp: init_sys_def client_init_mch1_def server_init_mch2_def good_def
        coherent_def calm_def page_states_def fun_eq_iff split: side.split)
qed

lemma init_memory:
  assumes "init_sys ps (int N) garbage recvbuf msgbuf = Inr s" and "ps \<in> {1<..2 ^ 18}" and "N \<in> {1..4096}"
  shows "mapping (mach s w) = replicate (N * ps) NUL" "recv_message (mach s w) = recvbuf w"
    "message (mach s w) = msgbuf w" "page_size (mach s w) = ps"
proof -
  have len: "mmap_len ps (int N) = N * ps" "\<not> mmap_fails True (N * ps)"
    using mmap_len_pages [of "int N" ps] assms(2,3) by (auto simp: MAX_SIZE_def)
  then show "mapping (mach s w) = replicate (N * ps) NUL" "recv_message (mach s w) = recvbuf w"
    "message (mach s w) = msgbuf w" "page_size (mach s w) = ps"
    using assms(1) by (cases w; auto simp: init_sys_def client_init_mch1_def server_init_mch2_def
        fresh_machine_def Let_def split: if_splits)+
qed

section \<open>Runs of commands\<close>

interpretation msi_run: step_refines sync_cmd "good N ps" "\<lambda>(w, c). cmd_ok N ps c" page_states
  "spec_cmd N" for N ps
proof unfold_locales
  fix s :: sys and e :: "side \<times> command" and t :: sys
  assume g: "good N ps s" and e: "case e of (w, c) \<Rightarrow> cmd_ok N ps c"
  obtain w c where wc: "e = (w, c)" by (cases e)
  with g e obtain u where u: "sync_cmd e s = Inr u" "good N ps u"
      "page_states u = spec_cmd N e (page_states s)"
    using sync_cmd_returns [of N ps s c w] by auto
  then show "\<exists>t. sync_cmd e s = Inr t \<and> good N ps t" by blast
  assume "sync_cmd e s = Inr t"
  with u show "page_states t = spec_cmd N e (page_states s)" by simp
qed

lemma good_swmr:
  assumes "good N ps s" and "i < N"
  shows "page_states s One i = Inv \<and> page_states s Two i = Inv \<or>
    page_states s One i = Shd \<and> page_states s Two i = Shd \<or>
    page_states s One i = Mod \<and> page_states s Two i = Inv \<or>
    page_states s One i = Inv \<and> page_states s Two i = Mod"
proof -
  have "pair_ok (mach s One) (mach s Two) i"
    using assms by (simp add: good_def coherent_def coh_def)
  then show ?thesis by (auto simp: pair_ok_def page_states_def)
qed

lemma good_onehot:
  assumes "good N ps s" and "i < N"
  shows "list_MSI (mach s w) i = flags (page_states s w i)"
  using assms coherent_states by (auto simp: good_def)

text \<open>The part of a state that the properties below speak of.\<close>

definition finished :: "sys \<Rightarrow> bool" where
  "finished s \<longleftrightarrow> (\<forall>w \<in> {One, Two}. menu_at (mach s w) = Prompt \<and> requests s w = [] \<and> replies s w = [])"

lemma good_finished: "good N ps s \<Longrightarrow> finished s"
  by (simp add: good_def calm_def finished_def)

text \<open>
  C1. Start the two machines with any page count from 1 to \<open>MAX_SIZE\<close>, whatever the
  uninitialised bytes of the first record are, and issue, on either side and each when the one before has
  been served, any commands that read or write existing pages or all of them, view, or are no command, the
  lines written being not empty, without NUL and shorter than a page: every command returns (no fault, no
  blocked menu, nothing left in the sockets), and afterwards every page has exactly one flag set on
  each machine and is Invalid on both, Shared on both, or Modified on one and Invalid on the other.
  (With empty lines, missing pages or commands issued together this fails: see \<open>Msi_Crossed\<close>, \<open>Msi_Bounds\<close>
  and \<open>Msi_Async\<close>.)
\<close>

theorem msi_commands_return_coherent:
  assumes "ps \<in> {1<..2 ^ 18}" and "N \<in> {1..4096}" and "buffers_ok ps recvbuf"
    and "list_all (\<lambda>(w, c). cmd_ok N ps c) cs"
  shows "\<exists>s t. init_sys ps (int N) garbage recvbuf msgbuf = Inr s \<and>
    run_events sync_cmd cs s = Inr t \<and> finished t \<and>
    (\<forall>i < N. (list_MSI (mach t One) i, list_MSI (mach t Two) i) \<in>
      {(flags Inv, flags Inv), (flags Shd, flags Shd), (flags Mod, flags Inv), (flags Inv, flags Mod)})"
proof -
  obtain s where s: "init_sys ps (int N) garbage recvbuf msgbuf = Inr s" and g: "good N ps s"
    using init_good [OF assms(1-3)] by blast
  obtain t where t: "run_events sync_cmd cs s = Inr t" and gt: "good N ps t"
    using msi_run.run_returns [OF g assms(4)] by blast
  have "(list_MSI (mach t One) i, list_MSI (mach t Two) i) \<in>
      {(flags Inv, flags Inv), (flags Shd, flags Shd), (flags Mod, flags Inv), (flags Inv, flags Mod)}"
    if "i < N" for i
    using good_swmr [OF gt that] good_onehot [OF gt that] by auto
  then show ?thesis using s t good_finished [OF gt] by blast
qed

definition blank_buffers :: "nat \<Rightarrow> side \<Rightarrow> char list" where
  "blank_buffers ps w = replicate ps NUL"

lemma blank_buffers_ok: "0 < ps \<Longrightarrow> buffers_ok ps (blank_buffers ps)"
  by (simp add: buffers_ok_def blank_buffers_def)

definition sample_cmds :: "(side \<times> command) list" where
  "sample_cmds = [(One, Write 1 ''abc''), (Two, Read 1), (Two, Write (-1) ''x''), (One, Read (-1))]"

lemma sample_cmds_ok: "list_all (\<lambda>(w, c). cmd_ok 3 8 c) sample_cmds"
  by (simp add: sample_cmds_def cmd_ok_def line_ok_def)

theorem msi_commands_return_coherent_witness:
  "\<exists>s t. init_sys 8 (int 3) zero_info (blank_buffers 8) (\<lambda>_. []) = Inr s \<and>
    run_events sync_cmd sample_cmds s = Inr t \<and> finished t \<and>
    (\<forall>i < 3. (list_MSI (mach t One) i, list_MSI (mach t Two) i) \<in>
      {(flags Inv, flags Inv), (flags Shd, flags Shd), (flags Mod, flags Inv), (flags Inv, flags Mod)})"
  by (rule msi_commands_return_coherent [OF _ _ blank_buffers_ok sample_cmds_ok]) simp_all

text \<open>
  C2. The page states of such a run are those of the abstract protocol: a read of an Invalid
  page makes it Shared on both sides, a write makes it Modified on the writer's side and
  Invalid on the other, \<open>-1\<close> does so for every page, and nothing else changes a state.
\<close>

theorem msi_commands_refine_protocol:
  assumes "ps \<in> {1<..2 ^ 18}" and "N \<in> {1..4096}" and "buffers_ok ps recvbuf"
    and "list_all (\<lambda>(w, c). cmd_ok N ps c) cs"
  shows "\<exists>s t. init_sys ps (int N) garbage recvbuf msgbuf = Inr s \<and>
    run_events sync_cmd cs s = Inr t \<and>
    page_states t = fold (spec_cmd N) cs (\<lambda>_ _. Inv)"
proof -
  obtain s where s: "init_sys ps (int N) garbage recvbuf msgbuf = Inr s" and g: "good N ps s"
    and st: "page_states s = (\<lambda>_ _. Inv)"
    using init_good [OF assms(1-3)] by blast
  then show ?thesis using msi_run.run_refines [OF g assms(4)] by metis
qed

theorem msi_commands_refine_protocol_witness:
  "\<exists>s t. init_sys 8 (int 3) zero_info (blank_buffers 8) (\<lambda>_. []) = Inr s \<and>
    run_events sync_cmd sample_cmds s = Inr t \<and>
    page_states t = fold (spec_cmd 3) sample_cmds (\<lambda>_ _. Inv)"
  by (rule msi_commands_refine_protocol [OF _ _ blank_buffers_ok sample_cmds_ok]) simp_all

section \<open>What is read\<close>

text \<open>The exact outcome of one command over one page.\<close>

lemma exchange_ends:
  assumes "\<exists>s1 k. after_menu w s r = Inr s1 \<and> k \<le> 2 \<and> (\<forall>n. drive (k + n) w s1 = drive n w t)"
    and "calm t" and "menu_at (mach t w) = Prompt" and "2 \<le> fuel"
  shows "bind_res (after_menu w s r) (drive fuel w) = Inr t"
proof -
  obtain s1 k where "after_menu w s r = Inr s1" "k \<le> 2" "drive (k + (fuel - k)) w s1 = drive (fuel - k) w t"
    using assms(1) by blast
  then show ?thesis using drive_prompt [OF assms(2,3)] assms(4) by simp
qed

lemma good_parts:
  assumes "good N ps s"
  shows "coh N (mach s w) (mach s (peer w))" "machine_ok N (mach s w)"
    "menu_at (mach s w) = Prompt" "page_size (mach s w) = ps"
    "page_count (temp_data (mach s w)) = int N"
  using assms by (auto simp: good_def coherent_side [of N s w] coh_def machine_ok_def)

lemma good_calm: "good N ps s \<Longrightarrow> calm s"
  by (simp add: good_def)

lemma page_to_int32: "good N ps s \<Longrightarrow> i < N \<Longrightarrow> to_int32 (int i) = int i"
  using good_parts(2) [of N ps s One] by (simp add: machine_ok_def MAX_SIZE_def)

definition wrote :: "side \<Rightarrow> nat \<Rightarrow> string \<Rightarrow> sys \<Rightarrow> sys" where
  "wrote w i line s =
     (let a = writer_after i line Prompt (mach s w); b = mach s (peer w) in
      s\<lparr>mach := (mach s)(w := a,
          peer w := b\<lparr>temp_data := write_request i (mach s w), list_MSI := (list_MSI b)(i := flags Inv)\<rparr>),
        printed := (printed s)(w := printed s w @ [WritingPage (page_string a i)]),
        requests := (\<lambda>_. []), replies := (\<lambda>_. [])\<rparr>)"

lemma sync_write_exact:
  assumes g: "good N ps s" and i: "i < N" and line: "line_ok ps line"
  shows "sync_cmd (w, Write (int i) line) s = Inr (wrote w i line s)"
proof -
  note p = good_parts [OF g, of w]
  note r = menu_write_page_ok [OF p(2) i, of line]
  have peer: "menu_at (mach s (peer w)) \<noteq> Exited" using g by (simp add: good_def)
  have key: "sys_step (Key w (Write (int i) line)) s =
      after_menu w s (menu_write_page (int i) line (mach s w))"
    using p page_to_int32 [OF g i] by (simp add: menu_write_def)
  have "bind_res (after_menu w s (menu_write_page (int i) line (mach s w))) (drive (3 * N + 3) w) =
      Inr (wrote w i line s)"
    using drive_serve_silent [OF good_calm [OF g] peer r server_handle_write [OF p(1) i]] line p(4)
    by (intro exchange_ends) (simp_all add: wrote_def Let_def writer_after_def)
  then show ?thesis using key p(5) by (simp add: sync_cmd_def)
qed

definition numbered :: "nat \<Rightarrow> machine \<Rightarrow> machine" where
  "numbered i mc = mc\<lparr>temp_data := (temp_data mc)\<lparr>page_num := int i\<rparr>\<rparr>"

lemma numbered_frame [simp]:
  "page_size (numbered i mc) = page_size mc" "list_MSI (numbered i mc) = list_MSI mc"
  "mapping (numbered i mc) = mapping mc" "recv_message (numbered i mc) = recv_message mc"
  "message (numbered i mc) = message mc" "page_num (temp_data (numbered i mc)) = int i"
  "page_string (numbered i mc) = page_string mc" "machine_ok N (numbered i mc) = machine_ok N mc"
  "coh N (numbered i mc) b = coh N mc b"
  by (auto simp: numbered_def machine_ok_def coh_def pair_ok_def page_string_def fun_eq_iff)

definition fetched :: "side \<Rightarrow> nat \<Rightarrow> sys \<Rightarrow> sys" where
  "fetched w i s =
     (let a = numbered i (mach s w); b = mach s (peer w) in
      s\<lparr>mach := (mach s)(w := reader_after i Prompt a b,
          peer w := b\<lparr>temp_data := read_request i a, list_MSI := (list_MSI b)(i := flags Shd)\<rparr>),
        printed := (printed s)(w := printed s w @ [ReadingPage (read_text i a b)]),
        requests := (\<lambda>_. []), replies := (\<lambda>_. [])\<rparr>)"

lemma key_read_page:
  assumes "good N ps s" and "i < N"
  shows "sys_step (Key w (Read (int i))) s =
    after_menu w s (menu_read_page (int i * int (page_size (numbered i (mach s w)))) (int i) Prompt (numbered i (mach s w)))"
  using assms page_to_int32 [OF assms] page_offset(1) [OF good_parts(2) [OF assms(1)] assms(2), of w]
  by (simp add: menu_read_def numbered_def good_def Let_def)

lemma sync_read_remote:
  assumes g: "good N ps s" and i: "i < N" and inv: "page_states s w i = Inv"
  shows "sync_cmd (w, Read (int i)) s = Inr (fetched w i s)"
proof -
  let ?a = "numbered i (mach s w)" and ?b = "mach s (peer w)"
  note p = good_parts [OF g, of w]
  have cm: "coh N ?a ?b" and ok: "machine_ok N ?a" using p by simp_all
  have inv': "list_MSI ?a i = flags Inv" using good_onehot [OF g i, of w] inv by simp
  have "pair_ok ?a ?b i" using cm i by (simp add: coh_def)
  then obtain x where x: "list_MSI ?b i = flags x" "x \<noteq> Shd"
    using inv' by (auto simp: pair_ok_def)
  have h: "server_handle (read_request i ?a) ?b = Inr (answer i ?b,
      ?b\<lparr>temp_data := read_request i ?a, list_MSI := (list_MSI ?b)(i := flags Shd)\<rparr>)"
    using server_handle_read [of N ?b i "read_request i ?a" x] cm i x by (simp add: coh_def)
  have peer: "menu_at ?b \<noteq> Exited" using g by (simp add: good_def)
  have "bind_res (after_menu w s (menu_read_page (int i * int (page_size ?a)) (int i) Prompt ?a)) (drive (3 * N + 3) w) =
      Inr (fetched w i s)"
    using drive_serve_reply [OF good_calm [OF g] peer menu_read_page_Inv [OF ok i inv'] h
        answer_ok(1) [OF cm i] menu_reply_read [OF cm i, of Prompt]]
    by (intro exchange_ends) (simp_all add: fetched_def Let_def reader_after_def)
  then show ?thesis using key_read_page [OF g i] p(5) by (simp add: sync_cmd_def)
qed

lemma sync_read_local:
  assumes g: "good N ps s" and i: "i < N" and st: "page_states s w i \<noteq> Inv"
  shows "\<exists>t. sync_cmd (w, Read (int i)) s = Inr t \<and>
    printed t w = printed s w @ [ReadingPage (page_string (mach s w) i)] \<and>
    mapping (mach t w) = mapping (mach s w)"
proof -
  let ?a = "numbered i (mach s w)"
  note p = good_parts [OF g, of w]
  have ok: "machine_ok N ?a" using p by simp
  have st': "list_MSI ?a i = flags (page_states s w i)" using good_onehot [OF g i, of w] by simp
  note r = menu_read_page_local [OF ok i st' st, of Prompt]
  then obtain t where "after_menu w s (menu_read_page (int i * int (page_size ?a)) (int i) Prompt ?a) = Inr t" and t:
    "t = s\<lparr>mach := (mach s)(w := ?a\<lparr>temp_data := (temp_data ?a)\<lparr>access_page := int i * int (page_size ?a)\<rparr>,
       menu_at := Prompt\<rparr>), printed := (printed s)(w := printed s w @ [ReadingPage (page_string ?a i)])\<rparr>"
    by (simp add: after_menu_def)
  moreover have "drive n w t = Inr t" for n
    using p(3) good_calm [OF g] t by (intro drive_prompt) (auto simp: calm_def)
  ultimately show ?thesis
    using key_read_page [OF g i] by (simp add: sync_cmd_def)
qed

lemma page_string_writer_after:
  assumes "machine_ok N a" and "i < N" and "line_ok (page_size a) line" and "page_byte a i (length line) = NUL"
  shows "page_string (writer_after i line pc a) i = line"
proof -
  have len: "length line < page_size a" and nul: "NUL \<notin> set line"
    using assms(3) by (auto simp: line_ok_def)
  have room: "i * page_size a + length line < length (mapping a)"
    using page_room [OF assms(1,2)] len by linarith
  have "drop (i * page_size a) (overlay (mapping a) (i * page_size a) line) =
      line @ drop (i * page_size a + length line) (mapping a)"
    using room by (simp add: drop_overlay_same)
  also have "\<dots> = line @ NUL # drop (Suc (i * page_size a + length line)) (mapping a)"
    using room assms(4) by (simp add: page_byte_def Cons_nth_drop_Suc [symmetric])
  finally show ?thesis
    using nul by (simp add: page_string_def writer_after_def takeWhile_append)
qed

lemma read_text_of_answer:
  assumes "length (answer i b) < length (recv_message a)" and "NUL \<notin> set (answer i b)"
    and "recv_message a ! length (answer i b) = NUL"
  shows "read_text i a b = answer i b"
proof -
  have "overlay (recv_message a) 0 (answer i b) =
      answer i b @ NUL # drop (Suc (length (answer i b))) (recv_message a)"
    using assms(1,3) by (simp add: overlay_def Cons_nth_drop_Suc [symmetric])
  then show ?thesis using assms(2) by (simp add: read_text_def takeWhile_append)
qed

lemma takeWhile_overlay:
  assumes "NUL \<notin> set q" and "length q \<le> length buf"
  shows "takeWhile (\<lambda>c. c \<noteq> NUL) (overlay buf 0 q) =
    q @ takeWhile (\<lambda>c. c \<noteq> NUL) (drop (length q) buf)"
  using assms by (auto simp: overlay_def takeWhile_append)

lemma read_text_remote:
  assumes "good N ps s" and "i < N" and "page_states s (peer w) i = Mod"
  defines "q \<equiv> page_string (mach s (peer w)) i"
  shows "read_text i (numbered i (mach s w)) (mach s (peer w)) =
    q @ takeWhile (\<lambda>c. c \<noteq> NUL) (drop (length q) (recv_message (mach s w)))"
proof -
  note p = good_parts [OF assms(1), of w] and p' = good_parts [OF assms(1), of "peer w"]
  have "answer i (mach s (peer w)) = q"
    using good_onehot [OF assms(1,2), of "peer w"] assms(3) by (simp add: answer_def q_def)
  moreover have "length q < length (recv_message (mach s w))" "NUL \<notin> set q"
    using cstr_at_page(2,4) [OF p'(2) assms(2)] p p' by (auto simp: q_def machine_ok_def)
  ultimately show ?thesis by (simp add: read_text_def takeWhile_overlay)
qed

lemma read_text_blank:
  assumes "good N ps s" and "i < N" and "page_states s (peer w) i = Inv"
  shows "read_text i (numbered i (mach s w)) (mach s (peer w)) =
    '' '' @ takeWhile (\<lambda>c. c \<noteq> NUL) (drop 1 (recv_message (mach s w)))"
proof -
  note p = good_parts [OF assms(1), of w]
  have "answer i (mach s (peer w)) = '' ''"
    using good_onehot [OF assms(1,2), of "peer w"] assms(3) by (simp add: answer_def)
  moreover have "1 \<le> length (recv_message (mach s w))"
    using p by (auto simp: machine_ok_def)
  ultimately show ?thesis by (simp add: read_text_def takeWhile_overlay)
qed

lemma read_text_nonempty:
  assumes "good N ps s" and "i < N"
  shows "read_text i (numbered i (mach s w)) (mach s (peer w)) \<noteq> []"
proof -
  note p = good_parts [OF assms(1), of w] and p' = good_parts [OF assms(1), of "peer w"]
  let ?q = "answer i (mach s (peer w))"
  have "?q \<noteq> []" "length ?q < length (recv_message (mach s w))"
    using answer_ok [OF p(1) assms(2)] p p' by (auto simp: machine_ok_def)
  moreover have "NUL \<notin> set ?q"
    using cstr_at_page(4) [OF p'(2) assms(2)] by (simp add: answer_def)
  ultimately show ?thesis by (simp add: read_text_def takeWhile_overlay)
qed

lemma wrote_states:
  assumes "good N ps s" and "i < N" and "line_ok ps line"
  shows "good N ps (wrote w i line s)"
    and "page_states (wrote w i line s) = spec_write w i (page_states s)"
proof -
  have ok: "cmd_ok N ps (Write (int i) line)" using assms by (simp add: cmd_ok_def)
  show "good N ps (wrote w i line s)"
    "page_states (wrote w i line s) = spec_write w i (page_states s)"
    using sync_cmd_returns [OF assms(1) ok, of w] sync_write_exact [OF assms, of w] by auto
qed

text \<open>
  C3. In a coherent state, an existing page written on one side and then read on the other is shown as
  it was written and is then Shared on both, when the writer's page and the reader's \<open>recv_message\<close> hold a
  NUL at the length of the line, as they do when nothing longer was there before; the general case, with
  the tails of earlier lines, is treated below.
\<close>

theorem msi_read_after_write:
  assumes "good N ps s" and "i < N" and "line_ok ps line"
    and "page_byte (mach s w) i (length line) = NUL"
    and "recv_message (mach s (peer w)) ! length line = NUL"
  shows "\<exists>t. run_events sync_cmd [(w, Write (int i) line), (peer w, Read (int i))] s = Inr t \<and>
    printed t (peer w) = printed s (peer w) @ [ReadingPage line] \<and>
    page_states t w i = Shd \<and> page_states t (peer w) i = Shd"
proof -
  let ?s = "wrote w i line s"
  note g = wrote_states [OF assms(1-3), of w]
  note p = good_parts [OF assms(1), of w] and p' = good_parts [OF assms(1), of "peer w"]
  have st: "page_states ?s (peer w) i = Inv" "page_states ?s w i = Mod"
    by (simp_all add: g(2) spec_write_def)
  have q: "page_string (mach ?s w) i = line"
    using page_string_writer_after [OF p(2) assms(2) _ assms(4)] assms(3) p(4)
    by (simp add: wrote_def Let_def)
  have "recv_message (mach ?s (peer w)) = recv_message (mach s (peer w))"
    by (simp add: wrote_def Let_def)
  moreover have "length line < length (recv_message (mach s (peer w)))"
    using assms(3) p' by (simp add: line_ok_def machine_ok_def)
  ultimately have "read_text i (numbered i (mach ?s (peer w))) (mach ?s w) = line"
    using read_text_remote [OF g(1) assms(2), of "peer w"] st q assms(5)
    by (simp add: Cons_nth_drop_Suc [symmetric])
  then have "printed (fetched (peer w) i ?s) (peer w) = printed s (peer w) @ [ReadingPage line]"
    by (simp add: fetched_def Let_def wrote_def)
  moreover have "page_states (fetched (peer w) i ?s) w i = Shd"
    "page_states (fetched (peer w) i ?s) (peer w) i = Shd"
    by (simp_all add: page_states_def fetched_def Let_def reader_after_def)
  ultimately show ?thesis
    using sync_write_exact [OF assms(1-3), of w] sync_read_remote [OF g(1) assms(2) st(1)] by simp
qed

lemma sample_start:
  "\<exists>s. init_sys 8 (int 3) zero_info (blank_buffers 8) (\<lambda>_. []) = Inr s \<and> good 3 8 s \<and>
    page_states s = (\<lambda>_ _. Inv)"
  by (intro init_good blank_buffers_ok) simp_all

theorem msi_read_after_write_witness:
  "\<exists>s t. init_sys 8 (int 3) zero_info (blank_buffers 8) (\<lambda>_. []) = Inr s \<and>
    run_events sync_cmd [(One, Write (int 1) ''abc''), (Two, Read (int 1))] s = Inr t \<and>
    printed t Two = printed s Two @ [ReadingPage ''abc''] \<and>
    page_states t One 1 = Shd \<and> page_states t Two 1 = Shd"
proof -
  obtain s where s: "init_sys 8 (int 3) zero_info (blank_buffers 8) (\<lambda>_. []) = Inr s" "good 3 8 s"
    using sample_start by blast
  have "page_byte (mach s One) 1 3 = NUL" "recv_message (mach s Two) ! 3 = NUL"
    using init_memory [OF s(1)] by (simp_all add: page_byte_def blank_buffers_def)
  then have b: "page_byte (mach s One) 1 (length ''abc'') = NUL"
    "recv_message (mach s (peer One)) ! length ''abc'' = NUL"
    by (simp_all add: numeral_3_eq_3)
  then show ?thesis
    using msi_read_after_write [OF s(2) _ _ b] s(1) by (simp add: line_ok_def)
qed

text \<open>
  C4. What a remote read prints in general: the bytes the owner sent, followed by whatever an
  earlier, longer page left in the reader's buffer (\<open>recv_message\<close> is never cleared).
\<close>

theorem msi_remote_read_text:
  assumes "good N ps s" and "i < N"
    and "page_states s w i = Inv" and "page_states s (peer w) i = Mod"
  shows "\<exists>t. sync_cmd (w, Read (int i)) s = Inr t \<and>
    printed t w = printed s w @
      [ReadingPage (page_string (mach s (peer w)) i @
         takeWhile (\<lambda>c. c \<noteq> NUL)
           (drop (length (page_string (mach s (peer w)) i)) (recv_message (mach s w))))]"
  using sync_read_remote [OF assms(1-3)] read_text_remote [OF assms(1,2,4)]
  by (simp add: fetched_def Let_def)

theorem msi_remote_read_text_witness:
  "\<exists>s u t. init_sys 8 (int 3) zero_info (blank_buffers 8) (\<lambda>_. []) = Inr s \<and>
    sync_cmd (One, Write (int 1) ''abc'') s = Inr u \<and>
    sync_cmd (Two, Read (int 1)) u = Inr t \<and>
    printed t Two = printed u Two @
      [ReadingPage (page_string (mach u One) 1 @
         takeWhile (\<lambda>c. c \<noteq> NUL) (drop (length (page_string (mach u One) 1)) (recv_message (mach u Two))))]"
proof -
  obtain s where s: "init_sys 8 (int 3) zero_info (blank_buffers 8) (\<lambda>_. []) = Inr s" "good 3 8 s"
    using sample_start by blast
  have l: "line_ok 8 ''abc''" by (simp add: line_ok_def)
  let ?u = "wrote One 1 ''abc'' s"
  have u: "sync_cmd (One, Write (int 1) ''abc'') s = Inr ?u" "good 3 8 ?u"
    "page_states ?u = spec_write One 1 (page_states s)"
    using sync_write_exact [OF s(2) _ l, of 1 One] wrote_states [OF s(2) _ l, of 1 One] by simp_all
  then show ?thesis
    using msi_remote_read_text [OF u(2), of 1 Two] s(1) by (auto simp: spec_write_def)
qed

text \<open>
  The reader of a remote page is left in the Shared state with a local copy that is all
  NUL: the page is cleared before the request and the received bytes are only printed. Reading
  the same page again prints an empty page.
\<close>

theorem msi_reread_prints_nothing:
  assumes "good N ps s" and "i < N" and "page_states s w i = Inv"
  shows "\<exists>t text. run_events sync_cmd [(w, Read (int i)), (w, Read (int i))] s = Inr t \<and>
    printed t w = printed s w @ [ReadingPage text, ReadingPage []] \<and> text \<noteq> [] \<and>
    list_MSI (mach t w) i = flags Shd"
proof -
  let ?t = "fetched w i s" and ?a = "numbered i (mach s w)" and ?b = "mach s (peer w)"
  have ok: "cmd_ok N ps (Read (int i))" using assms(2) by (simp add: cmd_ok_def)
  have run: "sync_cmd (w, Read (int i)) s = Inr ?t" by (rule sync_read_remote [OF assms])
  then have g: "good N ps ?t" and st: "page_states ?t w i = Shd"
    using sync_cmd_returns [OF assms(1) ok, of w] assms(3) by (auto simp: spec_read_def)
  obtain u where u: "sync_cmd (w, Read (int i)) ?t = Inr u" "printed u w = printed ?t w @
      [ReadingPage (page_string (mach ?t w) i)]"
    using sync_read_local [OF g assms(2), of w] st by auto
  have gu: "good N ps u" and su: "page_states u w i = Shd"
    using sync_cmd_returns [OF g ok, of w] u(1) st by (auto simp: spec_read_def)
  have "machine_ok N ?a" using good_parts(2) [OF assms(1), of w] by simp
  then have "page_byte (clear_page i ?a) i 0 = NUL"
    using page_byte_clear [of N ?a i i 0] assms(2) by (simp add: machine_ok_def)
  then have "page_byte (mach ?t w) i 0 = NUL"
    by (simp add: fetched_def Let_def reader_after_def)
  then have "page_string (mach ?t w) i = []"
    using cstr_at_page(3) [OF good_parts(2) [OF g, of w] assms(2)] by simp
  moreover have "read_text i ?a ?b \<noteq> []"
    by (rule read_text_nonempty [OF assms(1,2)])
  ultimately show ?thesis
    using run u good_onehot [OF gu assms(2), of w] su
    by (auto simp: fetched_def Let_def)
qed

theorem msi_reread_prints_nothing_witness:
  "\<exists>s t text. init_sys 8 (int 3) zero_info (blank_buffers 8) (\<lambda>_. []) = Inr s \<and>
    run_events sync_cmd [(Two, Read (int 1)), (Two, Read (int 1))] s = Inr t \<and>
    printed t Two = printed s Two @ [ReadingPage text, ReadingPage []] \<and> text \<noteq> [] \<and>
    list_MSI (mach t Two) 1 = flags Shd"
proof -
  obtain s where s: "init_sys 8 (int 3) zero_info (blank_buffers 8) (\<lambda>_. []) = Inr s" "good 3 8 s"
    "page_states s = (\<lambda>_ _. Inv)"
    using sample_start by blast
  then show ?thesis using msi_reread_prints_nothing [OF s(2), of 1 Two] by auto
qed

end
