(* ===== verification/Msi_Async.thy ===== *)
theory Msi_Async
  imports Msi_Sync
begin

text \<open>
  \<open>Project_3_new/part4/part4.c\<close> under every interleaving of its threads. What holds of all of
  them: no access leaves its buffer and every page keeps exactly one flag on each machine.
  What does not survive two commands in flight: two reads of the same Invalid page block both
  menus for ever, and two writes to the same page invalidate each other.
\<close>

section \<open>The invariant of all interleavings\<close>

definition loop_ok :: "nat \<Rightarrow> menu_pc \<Rightarrow> bool" where
  "loop_ok N pc = (case pc of Prompt \<Rightarrow> True | ReadLoop k \<Rightarrow> k \<le> N | _ \<Rightarrow> False)"

definition pc_ok :: "nat \<Rightarrow> machine \<Rightarrow> bool" where
  "pc_ok N mc =
     (case menu_at mc of
        Await i nxt \<Rightarrow> i < N \<and> loop_ok N nxt
      | WriteLoop k \<Rightarrow> k \<le> N \<and> line_ok (page_size mc) (message mc)
      | Exited \<Rightarrow> True
      | pc \<Rightarrow> loop_ok N pc)"

definition onehot :: "nat \<Rightarrow> machine \<Rightarrow> bool" where
  "onehot N mc \<longleftrightarrow> (\<forall>i < N. \<exists>x. list_MSI mc i = flags x)"

definition safe_machine :: "nat \<Rightarrow> nat \<Rightarrow> machine \<Rightarrow> bool" where
  "safe_machine N ps mc \<longleftrightarrow> machine_ok N mc \<and> page_size mc = ps \<and> pc_ok N mc \<and> onehot N mc"

definition request_ok :: "nat \<Rightarrow> nat \<Rightarrow> proc_info \<Rightarrow> bool" where
  "request_ok N ps td \<longleftrightarrow> page_count td = int N \<and>
     (\<exists>p < N. page_num td = int p \<and> access_page td = int p * int ps)"

definition safe :: "nat \<Rightarrow> nat \<Rightarrow> sys \<Rightarrow> bool" where
  "safe N ps s \<longleftrightarrow> (\<forall>w. safe_machine N ps (mach s w) \<and>
     (\<forall>td \<in> set (requests s w). request_ok N ps td) \<and>
     (\<forall>b \<in> set (replies s w). length b < ps))"

definition event_ok :: "nat \<Rightarrow> nat \<Rightarrow> event \<Rightarrow> bool" where
  "event_ok N ps e = (case e of Key w c \<Rightarrow> c = Quit \<or> cmd_ok N ps c | _ \<Rightarrow> True)"

text \<open>What every menu step gives from a safe machine.\<close>

definition menu_safe :: "nat \<Rightarrow> nat \<Rightarrow> menu_result \<Rightarrow> bool" where
  "menu_safe N ps r = (case r of Inl f \<Rightarrow> f = NotEnabled
     | Inr (out, req, mc) \<Rightarrow> safe_machine N ps mc \<and>
         (case req of None \<Rightarrow> True | Some td \<Rightarrow> request_ok N ps td))"

lemma loop_ok_simps [simp]:
  "loop_ok N Prompt" "loop_ok N (ReadLoop k) = (k \<le> N)" "\<not> loop_ok N (WriteLoop k)"
  "\<not> loop_ok N (Await i nxt)" "\<not> loop_ok N Exited"
  by (simp_all add: loop_ok_def)

lemma pc_ok_loop: "loop_ok N pc \<Longrightarrow> menu_at mc = pc \<Longrightarrow> pc_ok N mc"
  by (cases pc) (simp_all add: pc_ok_def)

lemma pc_ok_frame [simp]:
  "pc_ok N (mc\<lparr>temp_data := td\<rparr>) = pc_ok N mc"
  "pc_ok N (mc\<lparr>list_MSI := l\<rparr>) = pc_ok N mc"
  by (simp_all add: pc_ok_def split: menu_pc.split)

lemma onehot_update [simp]: "onehot N mc \<Longrightarrow> onehot N (mc\<lparr>list_MSI := (list_MSI mc)(i := flags x)\<rparr>)"
  by (auto simp: onehot_def)

lemma onehot_frame [simp]:
  "onehot N (mc\<lparr>temp_data := td\<rparr>) = onehot N mc" "onehot N (mc\<lparr>menu_at := pc\<rparr>) = onehot N mc"
  "onehot N (mc\<lparr>mapping := m\<rparr>) = onehot N mc" "onehot N (mc\<lparr>recv_message := r\<rparr>) = onehot N mc"
  "onehot N (mc\<lparr>message := l\<rparr>) = onehot N mc" "onehot N (numbered i mc) = onehot N mc"
  by (simp_all add: onehot_def numbered_def)

lemma onehotE: "onehot N mc \<Longrightarrow> i < N \<Longrightarrow> (\<And>x. list_MSI mc i = flags x \<Longrightarrow> P) \<Longrightarrow> P"
  unfolding onehot_def by blast

lemma machine_ok_count: "machine_ok N mc \<Longrightarrow> page_count (temp_data mc) = int N"
  by (simp add: machine_ok_def)

lemma page_argument:
  "n \<noteq> -1 \<Longrightarrow> n = -1 \<or> (0 \<le> n \<and> n < int N) \<Longrightarrow> \<exists>i < N. n = int i"
  by (intro exI [of _ "nat n"]) auto

lemma menu_safe_read_page:
  assumes ok: "machine_ok N mc" and one: "onehot N mc" and i: "i < N" and l: "loop_ok N nxt"
    and num: "page_num (temp_data mc) = int i"
  shows "menu_safe N (page_size mc) (menu_read_page (int i * int (page_size mc)) (int i) nxt mc)"
proof -
  obtain x where x: "list_MSI mc i = flags x" using one i by (rule onehotE)
  show ?thesis
  proof (cases "x = Inv")
    case True
    have "machine_ok N ((clear_page i mc)\<lparr>temp_data := read_request i mc,
        list_MSI := (list_MSI mc)(i := flags Shd), menu_at := Await i nxt\<rparr>)"
      using machine_ok_clear_page [OF ok i] machine_ok_count [OF ok] by (simp add: machine_ok_def)
    then show ?thesis
      using menu_read_page_Inv [OF ok i _ num, of nxt] x True one i l num machine_ok_count [OF ok]
      by (auto simp: menu_safe_def safe_machine_def pc_ok_def onehot_def request_ok_def)
  next
    case False
    then show ?thesis
      using menu_read_page_local [OF ok i x False num, of nxt] ok one l
      by (auto simp: menu_safe_def safe_machine_def machine_ok_def intro: pc_ok_loop)
  qed
qed

lemma to_int32_page: "machine_ok N mc \<Longrightarrow> i < N \<Longrightarrow> to_int32 (int i) = int i"
  by (simp add: machine_ok_def MAX_SIZE_def)

lemma machine_ok_numbered: "machine_ok N mc \<Longrightarrow>
  machine_ok N (mc\<lparr>temp_data := (temp_data mc)\<lparr>page_num := n\<rparr>\<rparr>)"
  by (simp add: machine_ok_def)

lemma menu_safe_read:
  assumes ok: "machine_ok N mc" and one: "onehot N mc" and "n = -1 \<or> (0 \<le> n \<and> n < int N)"
  shows "menu_safe N (page_size mc) (menu_read n mc)"
proof (cases "n = -1")
  case True
  then show ?thesis
    using machine_ok_numbered [OF ok, of n] one
    by (simp add: menu_read_def Let_def to_int32_def menu_safe_def safe_machine_def pc_ok_def)
next
  case False
  then obtain i where n: "n = int i" and i: "i < N" using page_argument [OF _ assms(3)] by blast
  let ?mc = "mc\<lparr>temp_data := (temp_data mc)\<lparr>page_num := int i\<rparr>\<rparr>"
  have "menu_safe N (page_size ?mc) (menu_read_page (int i * int (page_size ?mc)) (int i) Prompt ?mc)"
    by (rule menu_safe_read_page [OF machine_ok_numbered [OF ok] _ i]) (simp_all add: one)
  then show ?thesis using menu_read_number [OF ok i] by (simp add: n)
qed

lemma menu_safe_read_iter:
  assumes ok: "machine_ok N mc" and one: "onehot N mc" and "k \<le> N"
  shows "menu_safe N (page_size mc) (menu_read_all_iter k mc)"
proof (cases "k < N")
  case True
  let ?mc = "mc\<lparr>temp_data := (temp_data mc)\<lparr>page_num := int k\<rparr>\<rparr>"
  have "menu_safe N (page_size ?mc) (menu_read_page (int k * int (page_size ?mc)) (int k) (ReadLoop (Suc k)) ?mc)"
    using True by (intro menu_safe_read_page [OF machine_ok_numbered [OF ok] _ True]) (simp_all add: one)
  then show ?thesis
    using True machine_ok_count [OF ok] page_offset(2) [OF ok True] by (simp add: menu_read_all_iter_def)
next
  case False
  then show ?thesis
    using machine_ok_count [OF ok] ok one
    by (simp add: menu_read_all_iter_def menu_safe_def safe_machine_def pc_ok_def)
qed

lemma request_ok_write:
  "machine_ok N mc \<Longrightarrow> i < N \<Longrightarrow> request_ok N (page_size mc) (write_request i mc)"
  by (auto simp: request_ok_def machine_ok_count)

lemma onehot_writer: "onehot N mc \<Longrightarrow> onehot N (writer_after i line pc mc)"
  by (auto simp: onehot_def writer_after_def)

lemma menu_safe_write:
  assumes ok: "machine_ok N mc" and one: "onehot N mc" and n: "n = -1 \<or> (0 \<le> n \<and> n < int N)"
    and line: "line_ok (page_size mc) line"
  shows "menu_safe N (page_size mc) (menu_write n line mc)"
proof (cases "n = -1")
  case True
  have "line \<noteq> []" "length line < page_size mc" using line by (auto simp: line_ok_def)
  moreover have "machine_ok N (mc\<lparr>temp_data := (temp_data mc)\<lparr>page_num := -1\<rparr>, message := line,
      menu_at := WriteLoop 0\<rparr>)"
    using ok by (simp add: machine_ok_def)
  ultimately show ?thesis
    using True line one
    by (simp add: menu_write_def Let_def to_int32_def menu_safe_def safe_machine_def pc_ok_def
        scan_message_def)
next
  case False
  then obtain i where ni: "n = int i" and i: "i < N" using page_argument [OF _ n] by blast
  have "pc_ok N (writer_after i line Prompt mc)" by (simp add: pc_ok_def writer_after_def)
  moreover have "page_size (writer_after i line Prompt mc) = page_size mc"
    by (simp add: writer_after_def)
  ultimately show ?thesis
    using menu_write_page_ok [OF ok i line] writer_ok(1) [OF ok i line] onehot_writer [OF one]
      request_ok_write [OF ok i] to_int32_page [OF ok i]
    by (simp add: ni menu_write_def menu_safe_def safe_machine_def)
qed

lemma menu_safe_write_iter:
  assumes ok: "machine_ok N mc" and one: "onehot N mc" and k: "k \<le> N"
    and line: "line_ok (page_size mc) (message mc)"
  shows "menu_safe N (page_size mc) (menu_write_all_iter k mc)"
proof (cases "k < N")
  case True
  let ?a = "writer_after k (message mc) (WriteLoop (Suc k)) mc"
  have "pc_ok N ?a" "page_size ?a = page_size mc"
    using line True by (simp_all add: pc_ok_def writer_after_def)
  then show ?thesis
    using menu_write_all_iter_ok [OF ok True line] writer_ok(1) [OF ok True line]
      onehot_writer [OF one] request_ok_write [OF ok True]
    by (simp add: menu_safe_def safe_machine_def)
next
  case False
  then show ?thesis
    using machine_ok_count [OF ok] ok one
    by (simp add: menu_write_all_iter_def menu_safe_def safe_machine_def pc_ok_def)
qed

lemma menu_safe_command:
  assumes safe: "safe_machine N ps mc" and ok: "c = Quit \<or> cmd_ok N ps c"
  shows "menu_safe N ps (menu_command c mc)"
proof (cases "menu_at mc = Prompt")
  case True
  note sm = safe [unfolded safe_machine_def]
  show ?thesis
  proof (cases c)
    case (Read n)
    then show ?thesis using menu_safe_read [of N mc n] True sm ok by (auto simp: cmd_ok_def)
  next
    case (Write n line)
    then show ?thesis using menu_safe_write [of N mc n line] True sm ok by (auto simp: cmd_ok_def)
  next
    case (View n)
    have "pc_ok N (mc\<lparr>temp_data := (temp_data mc)\<lparr>page_num := n\<rparr>\<rparr>)"
      using True by (simp add: pc_ok_def)
    then have "menu_safe N ps (Inr (out, None, mc\<lparr>temp_data := (temp_data mc)\<lparr>page_num := n\<rparr>\<rparr>))" for out
      using sm machine_ok_numbered [of N mc n] by (simp add: menu_safe_def safe_machine_def)
    moreover have "int N \<le> MAX_SIZE" using sm by (simp add: machine_ok_def)
    ultimately show ?thesis
      using View True machine_ok_count [of N mc] sm by (simp add: menu_view_def Let_def)
  next
    case Quit
    then show ?thesis
      using True sm by (simp add: menu_command_def menu_safe_def safe_machine_def pc_ok_def)
  next
    case OtherKey
    then show ?thesis using True safe by (simp add: menu_command_def menu_safe_def)
  qed
qed (simp add: menu_command_def menu_safe_def)

lemma menu_safe_iter:
  assumes "safe_machine N ps mc"
  shows "menu_safe N ps (menu_iter mc)"
proof (cases "menu_at mc")
  case (ReadLoop k)
  then show ?thesis
    using assms menu_safe_read_iter [of N mc k] by (auto simp: menu_iter_def safe_machine_def pc_ok_def)
next
  case (WriteLoop k)
  then show ?thesis
    using assms menu_safe_write_iter [of N mc k] by (auto simp: menu_iter_def safe_machine_def pc_ok_def)
qed (simp_all add: menu_iter_def menu_safe_def)

text \<open>The server and the reply.\<close>

lemma safe_machine_data:
  assumes "safe_machine N ps mc" and "page_count td = int N"
  shows "safe_machine N ps (mc\<lparr>temp_data := td\<rparr>)"
  using assms by (auto simp: safe_machine_def machine_ok_def)

lemma safe_machine_flags:
  assumes "safe_machine N ps mc"
  shows "safe_machine N ps (mc\<lparr>list_MSI := (list_MSI mc)(i := flags x)\<rparr>)"
  using assms by (auto simp: safe_machine_def machine_ok_def)

lemma server_handle_safe:
  assumes s: "safe_machine N ps mc" and r: "request_ok N ps td"
  shows "\<exists>bytes mc'. server_handle td mc = Inr (bytes, mc') \<and> length bytes < ps \<and>
    safe_machine N ps mc' \<and> menu_at mc' = menu_at mc"
proof -
  obtain p where p: "p < N" "page_num td = int p" "access_page td = int p * int ps"
    and cnt: "page_count td = int N" using r by (auto simp: request_ok_def)
  have ok: "machine_ok N mc" and ps: "page_size mc = ps" "1 < ps"
    using s by (auto simp: safe_machine_def machine_ok_def)
  let ?mc = "mc\<lparr>temp_data := td\<rparr>"
  have sd: "safe_machine N ps ?mc" by (rule safe_machine_data [OF s cnt])
  have cs: "cstr_at (mapping mc) (int p * int ps) = Inr (page_string mc p)"
    "length (page_string mc p) < ps"
    using cstr_at_page(1,2) [OF ok p(1)] ps by simp_all
  have idx: "idx_ok (int p)" using ok p(1) by simp
  have upd: "safe_machine N ps (set_msi p True False False ?mc)"
    "safe_machine N ps (set_msi p False True False ?mc)"
    "safe_machine N ps (set_msi p False False True ?mc)"
    using safe_machine_flags [OF sd] by (simp_all only: set_msi_flags)
  show ?thesis
    using idx cs upd sd ps(2) p
    by (auto simp: server_handle_def Let_def set_msi_def)
qed

lemma menu_reply_safe:
  assumes s: "safe_machine N ps mc" and b: "length bytes < ps"
  shows "menu_reply bytes mc = Inl NotEnabled \<or>
    (\<exists>out mc'. menu_reply bytes mc = Inr (out, mc') \<and> safe_machine N ps mc')"
proof (cases "menu_at mc")
  case (Await i nxt)
  have ok: "machine_ok N mc" "page_size mc = ps" "loop_ok N nxt" "onehot N mc"
    using s Await by (auto simp: safe_machine_def pc_ok_def)
  have len: "length bytes < page_size mc" using b ok by simp
  let ?mc = "mc\<lparr>recv_message := overlay (recv_message mc) 0 bytes, menu_at := nxt,
      temp_data := (temp_data mc)\<lparr>read_signal := (read_signal (temp_data mc))(i := 0)\<rparr>\<rparr>"
  have "machine_ok N ?mc"
    using recv_overlay(1) [OF ok(1) len] by (simp add: machine_ok_def)
  moreover have "pc_ok N ?mc" using ok(3) by (intro pc_ok_loop) simp_all
  ultimately have "safe_machine N ps ?mc" using ok by (simp add: safe_machine_def)
  moreover have "length bytes \<le> length (recv_message mc)"
    using ok(1) len by (simp add: machine_ok_def)
  ultimately show ?thesis
    using Await recv_overlay(2) [OF ok(1) len] by (simp add: menu_reply_def Let_def)
qed (simp_all add: menu_reply_def)

section \<open>All runs\<close>

lemma safe_update:
  assumes "safe N ps s" and "safe_machine N ps mc"
    and "\<And>v. \<forall>td \<in> set (rq v). request_ok N ps td" and "\<And>v. \<forall>b \<in> set (rp v). length b < ps"
  shows "safe N ps (s\<lparr>mach := (mach s)(w := mc), requests := rq, replies := rp, printed := pr\<rparr>)"
  using assms by (simp add: safe_def)

lemma safe_after_menu:
  assumes s: "safe N ps s" and m: "menu_safe N ps r"
  shows "case after_menu w s r of Inl f \<Rightarrow> f = NotEnabled | Inr t \<Rightarrow> safe N ps t"
  using assms
  by (auto simp: after_menu_def menu_safe_def safe_def bind_res_def split: sum.splits option.splits)

lemma safe_step:
  assumes s: "safe N ps s" and e: "event_ok N ps e"
  shows "case sys_step e s of Inl f \<Rightarrow> f = NotEnabled | Inr t \<Rightarrow> safe N ps t"
proof (cases e)
  case (Key w c)
  have "menu_safe N ps (menu_command c (mach s w))"
    using s e Key by (intro menu_safe_command) (auto simp: safe_def event_ok_def)
  then show ?thesis using safe_after_menu [OF s] Key by simp
next
  case (Iter w)
  have "menu_safe N ps (menu_iter (mach s w))"
    using s by (intro menu_safe_iter) (auto simp: safe_def)
  then show ?thesis using safe_after_menu [OF s] Iter by simp
next
  case (Serve w)
  show ?thesis
  proof (cases "requests s w")
    case (Cons td rest)
    have "safe_machine N ps (mach s w)" "request_ok N ps td"
      using s Cons unfolding safe_def by (metis list.set_intros(1))+
    then obtain bytes mc where h: "server_handle td (mach s w) = Inr (bytes, mc)"
      "length bytes < ps" "safe_machine N ps mc"
      using server_handle_safe by blast
    have rest: "\<forall>td \<in> set rest. request_ok N ps td"
      using s Cons unfolding safe_def by (metis list.set_intros(2))
    show ?thesis
      using s Serve Cons h rest by (auto simp: safe_def)
  qed (simp add: Serve)
next
  case (Reply w)
  show ?thesis
  proof (cases "replies s w")
    case (Cons b rest)
    have sm: "safe_machine N ps (mach s w)" "length b < ps" "\<forall>b \<in> set rest. length b < ps"
      using s Cons unfolding safe_def by (metis list.set_intros)+
    show ?thesis
      using menu_reply_safe [OF sm(1,2)] s Reply Cons sm(3) by (auto simp: safe_def)
  qed (simp add: Reply)
next
  case (Hangup w)
  have "safe_machine N ps ((mach s w)\<lparr>menu_at := Exited\<rparr>)"
    using s by (simp add: safe_def safe_machine_def pc_ok_def)
  then show ?thesis using s Hangup by (auto simp: safe_def)
next
  case (Eof w)
  have sm: "safe_machine N ps (mach s w)" using s by (simp add: safe_def)
  then have "length ([] :: char list) < ps" by (auto simp: safe_machine_def machine_ok_def)
  from menu_reply_safe [OF sm this] show ?thesis using s Eof by (auto simp: safe_def)
qed

interpretation msi_threads: step_guarded sys_step "safe N ps" "event_ok N ps" for N ps
proof unfold_locales
  fix s e t f
  assume a: "safe N ps s" "event_ok N ps e"
  note st = safe_step [OF a]
  show "sys_step e s = Inl f \<Longrightarrow> f = NotEnabled" using st by simp
  show "sys_step e s = Inr t \<Longrightarrow> safe N ps t" using st by simp
qed

lemma good_safe:
  assumes "good N ps s"
  shows "safe N ps s"
proof -
  have "onehot N (mach s w)" for w
    using good_onehot [OF assms] by (auto simp: onehot_def)
  then show ?thesis
    using good_parts [OF assms] good_calm [OF assms]
    by (simp add: safe_def calm_def safe_machine_def pc_ok_def)
qed

text \<open>
  From the start, whatever events happen in whatever order (keys of either user with
  admissible page numbers and lines, steps of the loops over all pages, server passes, replies,
  hang-ups, exits): no step reads or writes outside the mapping, the buffers or the arrays, and
  every page of each machine always has exactly one of its three flags set.
\<close>

theorem msi_interleavings_safe:
  assumes "ps \<in> {1<..2 ^ 18}" and "N \<in> {1..4096}" and "buffers_ok ps recvbuf" and "list_all (event_ok N ps) es"
  shows "\<exists>s. init_sys ps (int N) garbage recvbuf msgbuf = Inr s \<and>
    (case run_events sys_step es s of
       Inl f \<Rightarrow> f = NotEnabled
     | Inr t \<Rightarrow> \<forall>i < N. \<forall>w \<in> {One, Two}.
         list_MSI (mach t w) i \<in> {flags Mod, flags Shd, flags Inv})"
proof -
  obtain s where s: "init_sys ps (int N) garbage recvbuf msgbuf = Inr s" and "good N ps s"
    using init_good [OF assms(1-3)] by blast
  then have safe: "safe N ps s" by (intro good_safe)
  have "list_MSI (mach t w) i \<in> {flags Mod, flags Shd, flags Inv}"
    if "run_events sys_step es s = Inr t" and "i < N" for t w i
  proof -
    have "onehot N (mach t w)"
      using msi_threads.run_keeps [OF safe assms(4) that(1)] by (simp add: safe_def safe_machine_def)
    then obtain x where "list_MSI (mach t w) i = flags x" using \<open>i < N\<close> by (rule onehotE)
    then show ?thesis by (cases x) simp_all
  qed
  then show ?thesis
    using s msi_threads.run_refuses [OF safe assms(4)] by (auto split: sum.split)
qed

definition crossing_events :: "event list" where
  "crossing_events = [Key One (Read (-1)), Iter One, Key Two (Write 0 ''ab''), Serve Two, Serve One,
     Reply One, Iter One]"

theorem msi_interleavings_safe_witness:
  "\<exists>s. init_sys 8 (int 3) zero_info (blank_buffers 8) (\<lambda>_. []) = Inr s \<and>
    (case run_events sys_step crossing_events s of
       Inl f \<Rightarrow> f = NotEnabled
     | Inr t \<Rightarrow> \<forall>i < 3. \<forall>w \<in> {One, Two}.
         list_MSI (mach t w) i \<in> {flags Mod, flags Shd, flags Inv})"
  by (rule msi_interleavings_safe [OF _ _ blank_buffers_ok])
    (simp_all add: crossing_events_def event_ok_def cmd_ok_def line_ok_def)

section \<open>Two commands in flight\<close>

text \<open>A server that gets a read request for a page it has itself just marked Shared does not answer.\<close>

lemma server_handle_read_shared:
  assumes "machine_ok N b" and "i < N" and "page_num td = int i" and "read_signal td i = 1"
    and "list_MSI b i = flags Shd"
  shows "\<exists>mc. server_handle td b = Inr ([], mc) \<and> menu_at mc = menu_at b"
  using assms by (auto simp: server_handle_def Let_def set_msi_def)

lemma machine_ok_reading:
  "machine_ok N a \<Longrightarrow> i < N \<Longrightarrow> machine_ok N ((clear_page i a)\<lparr>temp_data := read_request i a,
    list_MSI := (list_MSI a)(i := flags Shd), menu_at := pc\<rparr>)"
  using machine_ok_clear_page [of N a i] machine_ok_count [of N a] by (simp add: machine_ok_def)

definition reading :: "nat \<Rightarrow> machine \<Rightarrow> machine" where
  "reading i a = (clear_page i a)\<lparr>temp_data := read_request i a,
     list_MSI := (list_MSI a)(i := flags Shd), menu_at := Await i Prompt\<rparr>"

lemma reading_facts [simp]:
  "menu_at (reading i a) = Await i Prompt" "list_MSI (reading i a) i = flags Shd"
  "machine_ok N a \<Longrightarrow> i < N \<Longrightarrow> machine_ok N (reading i a)"
  using machine_ok_reading [of N a i] by (auto simp: reading_def)

definition stuck :: "sys \<Rightarrow> bool" where
  "stuck s \<longleftrightarrow> (\<forall>w \<in> {One, Two}. (\<exists>i nxt. menu_at (mach s w) = Await i nxt) \<and>
     requests s w = [] \<and> replies s w = [])"

lemma stuck_side: "stuck s \<Longrightarrow>
  (\<exists>i nxt. menu_at (mach s w) = Await i nxt) \<and> requests s w = [] \<and> replies s w = []"
  by (cases w) (auto simp: stuck_def)

lemma stuck_no_step:
  assumes "stuck s"
  shows "sys_step e s = Inl NotEnabled"
proof (cases e)
  case (Hangup w)
  then show ?thesis using stuck_side [OF assms, of "peer w"] by auto
next
  case (Eof w)
  then show ?thesis using stuck_side [OF assms, of "peer w"] by auto
next
  case (Key w c)
  then show ?thesis using stuck_side [OF assms, of w] by (auto simp: menu_command_def after_menu_def)
next
  case (Iter w)
  then show ?thesis using stuck_side [OF assms, of w] by (auto simp: menu_iter_def after_menu_def)
next
  case (Serve w)
  then show ?thesis using stuck_side [OF assms, of w] by auto
next
  case (Reply w)
  then show ?thesis using stuck_side [OF assms, of w] by auto
qed

text \<open>
  If both users read the same Invalid page before either server has answered, each machine
  has marked its page Shared, each server finds the page Shared and sends nothing, and both
  menus wait in \<open>read\<close> with nothing in the sockets: no event is possible ever after.
\<close>

theorem msi_crossing_reads_deadlock:
  assumes "good N ps s" and "i < N" and "page_states s One i = Inv" and "page_states s Two i = Inv"
  shows "\<exists>t. run_events sys_step
      [Key One (Read (int i)), Key Two (Read (int i)), Serve One, Serve Two] s = Inr t \<and>
    stuck t \<and> (\<forall>e. sys_step e t = Inl NotEnabled)"
proof -
  let ?a = "numbered i (mach s One)" and ?b = "numbered i (mach s Two)"
  have ok: "machine_ok N ?a" "machine_ok N ?b" using good_parts(2) [OF assms(1)] by simp_all
  have inv: "list_MSI ?a i = flags Inv" "list_MSI ?b i = flags Inv"
    using good_onehot [OF assms(1,2)] assms(3,4) by simp_all
  have emp: "requests s = (\<lambda>_. [])" "replies s = (\<lambda>_. [])"
    using good_calm [OF assms(1)] by (auto simp: calm_def)
  have n: "menu_at (mach s w) = Prompt" for w using assms(1) by (simp add: good_def)
  have c1: "menu_command (Read (int i)) (mach s One) =
      Inr ([], Some (read_request i ?a), reading i ?a)"
    using menu_read_page_Inv [OF ok(1) assms(2) inv(1), of Prompt] n
      menu_read_number [OF good_parts(2) [OF assms(1)] assms(2), of One]
    by (simp add: reading_def numbered_def)
  have c2: "menu_command (Read (int i)) (mach s Two) =
      Inr ([], Some (read_request i ?b), reading i ?b)"
    using menu_read_page_Inv [OF ok(2) assms(2) inv(2), of Prompt] n
      menu_read_number [OF good_parts(2) [OF assms(1)] assms(2), of Two]
    by (simp add: reading_def numbered_def)
  obtain a' where a': "server_handle (read_request i ?b) (reading i ?a) = Inr ([], a')"
    "menu_at a' = Await i Prompt"
    using server_handle_read_shared [of N "reading i ?a" i "read_request i ?b"] ok assms(2) by auto
  obtain b' where b': "server_handle (read_request i ?a) (reading i ?b) = Inr ([], b')"
    "menu_at b' = Await i Prompt"
    using server_handle_read_shared [of N "reading i ?b" i "read_request i ?a"] ok assms(2) by auto
  have "\<exists>t. run_events sys_step
      [Key One (Read (int i)), Key Two (Read (int i)), Serve One, Serve Two] s = Inr t \<and> stuck t"
    using emp c1 c2 a' b' by (simp add: after_menu_def stuck_def)
  then show ?thesis using stuck_no_step by blast
qed

theorem msi_crossing_reads_deadlock_witness:
  "\<exists>s t. init_sys 8 (int 3) zero_info (blank_buffers 8) (\<lambda>_. []) = Inr s \<and>
    run_events sys_step
      [Key One (Read (int 1)), Key Two (Read (int 1)), Serve One, Serve Two] s = Inr t \<and>
    stuck t \<and> (\<forall>e. sys_step e t = Inl NotEnabled)"
proof -
  obtain s where s: "init_sys 8 (int 3) zero_info (blank_buffers 8) (\<lambda>_. []) = Inr s" "good 3 8 s"
    "page_states s = (\<lambda>_ _. Inv)"
    using sample_start by blast
  then show ?thesis using msi_crossing_reads_deadlock [OF s(2), of 1] by auto
qed

lemma writer_after_facts [simp]:
  "menu_at (writer_after i line pc a) = pc" "list_MSI (writer_after i line pc a) i = flags Mod"
  by (simp_all add: writer_after_def)

text \<open>
  C5. If both users write the same page before either server has run, the page is Modified on
  both machines at once, and then each server invalidates its own copy: both writes are lost,
  a read that follows gets the blank page.
\<close>

theorem msi_crossing_writes_lost:
  assumes "good N ps s" and "i < N" and "line_ok ps a" and "line_ok ps b"
    and "page_states s One i = page_states s Two i"
  shows "\<exists>t u. run_events sys_step [Key One (Write (int i) a), Key Two (Write (int i) b)] s = Inr t \<and>
    list_MSI (mach t One) i = flags Mod \<and> list_MSI (mach t Two) i = flags Mod \<and>
    run_events sys_step [Serve One, Serve Two] t = Inr u \<and>
    list_MSI (mach u One) i = flags Inv \<and> list_MSI (mach u Two) i = flags Inv \<and> finished u"
proof -
  note p1 = good_parts [OF assms(1), of One] and p2 = good_parts [OF assms(1), of Two]
  have l: "line_ok (page_size (mach s One)) a" "line_ok (page_size (mach s Two)) b"
    using assms(3,4) p1 p2 by simp_all
  let ?a = "writer_after i a Prompt (mach s One)" and ?b = "writer_after i b Prompt (mach s Two)"
  have st: "page_states s w i \<noteq> Mod" for w
    using good_swmr [OF assms(1,2)] assms(5) by (cases w) auto
  have sig: "read_signal (write_request i (mach s w)) i = 0" for w
    using good_onehot [OF assms(1,2), of w] st [of w] write_request_signals(1,2) [of "mach s w" i]
    by (cases "page_states s w i") auto
  have c: "menu_command (Write (int i) a) (mach s One) =
      Inr ([WritingPage (page_string ?a i)], Some (write_request i (mach s One)), ?a)"
    "menu_command (Write (int i) b) (mach s Two) =
      Inr ([WritingPage (page_string ?b i)], Some (write_request i (mach s Two)), ?b)"
    using menu_write_page_ok [OF p1(2) assms(2) l(1)] menu_write_page_ok [OF p2(2) assms(2) l(2)]
      p1 p2 page_to_int32 [OF assms(1,2)] by (simp_all add: menu_write_def)
  have h: "server_handle (write_request i (mach s v)) (writer_after i d Prompt (mach s w)) =
      Inr ([], (writer_after i d Prompt (mach s w))\<lparr>temp_data := write_request i (mach s v),
        list_MSI := (list_MSI (writer_after i d Prompt (mach s w)))(i := flags Inv)\<rparr>)" for v w d
    using sig [of v] good_parts(2) [OF assms(1), of v] assms(2)
    by (simp add: server_handle_def Let_def set_msi_flags writer_after_def)
  have emp: "requests s = (\<lambda>_. [])" "replies s = (\<lambda>_. [])"
    using good_calm [OF assms(1)] by (auto simp: calm_def)
  show ?thesis
    using emp c h p1 p2 by (simp add: after_menu_def finished_def)
qed

theorem msi_crossing_writes_lost_witness:
  "\<exists>s t u. init_sys 8 (int 3) zero_info (blank_buffers 8) (\<lambda>_. []) = Inr s \<and>
    run_events sys_step [Key One (Write (int 2) ''a''), Key Two (Write (int 2) ''b'')] s = Inr t \<and>
    list_MSI (mach t One) 2 = flags Mod \<and> list_MSI (mach t Two) 2 = flags Mod \<and>
    run_events sys_step [Serve One, Serve Two] t = Inr u \<and>
    list_MSI (mach u One) 2 = flags Inv \<and> list_MSI (mach u Two) 2 = flags Inv \<and> finished u"
proof -
  obtain s where s: "init_sys 8 (int 3) zero_info (blank_buffers 8) (\<lambda>_. []) = Inr s" "good 3 8 s"
    "page_states s = (\<lambda>_ _. Inv)"
    using sample_start by blast
  then show ?thesis
    using msi_crossing_writes_lost [OF s(2), of 2 "''a''" "''b''"] by (auto simp: line_ok_def)
qed

end
