(* ===== verification/Msi_Typing.thy ===== *)
theory Msi_Typing
  imports Msi_Async
begin

text \<open>
  The write command of \<open>Project_3_new/part4/part4.c\<close> in its two halves. The menu marks the page, sets
  the signals and the offset in \<open>temp_data\<close> when the page number has been entered, and then waits in
  \<open>scanf\<close> for the message; the server thread of the same process runs meanwhile and may replace
  \<open>temp_data\<close>. \<open>Msi_System\<close> takes the command in one step; here it is a step for the number and
  one for the line. When nothing comes between them the two models agree, the safety of all interleavings
  still holds, but a record handled in between misdirects the message.
\<close>

section \<open>The two halves\<close>

definition write_begin :: "int \<Rightarrow> machine \<Rightarrow> machine res" where
  "write_begin n mc =
     (let index = to_int32 n; i = nat index; td1 = (temp_data mc)\<lparr>page_num := n\<rparr>
      in if index = -1 then Inr (mc\<lparr>temp_data := td1\<rparr>)
         else if \<not> idx_ok index then Inl OutOfBounds
         else
           let td0 = write_signals i (list_MSI mc i) td1;
               td = td0\<lparr>access_page := to_int64 (page_num td0 * int (page_size mc))\<rparr>
           in Inr (set_msi i True False False (mc\<lparr>temp_data := td\<rparr>)))"

definition write_finish :: "int \<Rightarrow> string \<Rightarrow> machine \<Rightarrow> menu_result" where
  "write_finish index line mc0 =
     bind_res (scan_message line mc0) (\<lambda>mc.
       if index = -1 then Inr ([], None, mc\<lparr>menu_at := WriteLoop 0\<rparr>)
       else
         let td = temp_data mc
         in bind_res (memcpy_at (mapping mc) (access_page td) (message mc)) (\<lambda>mem.
            bind_res (cstr_at mem (access_page td)) (\<lambda>s.
            Inr ([WritingPage s], Some td, mc\<lparr>mapping := mem\<rparr>))))"

text \<open>\<open>typing\<close>: the index of the page whose message the user has yet to enter.\<close>

record typing_sys =
  base :: sys
  typing :: "side \<Rightarrow> int option"

datatype typing_event =
    Step event
  | Ask side int
  | Line side string

definition lift_sys :: "sys \<Rightarrow> typing_sys" where
  "lift_sys s = \<lparr>base = s, typing = (\<lambda>_. None)\<rparr>"

text \<open>Whose menu an event needs at its prompt.\<close>

fun key_of :: "event \<Rightarrow> side option" where
  "key_of (Key w c) = Some w"
| "key_of e = None"

fun is_write :: "event \<Rightarrow> bool" where
  "is_write (Key w (Write n line)) = True"
| "is_write e = False"

fun typing_step :: "typing_event \<Rightarrow> typing_sys \<Rightarrow> typing_sys res" where
  "typing_step (Step e) t =
     (if is_write e \<or> (case key_of e of None \<Rightarrow> False | Some w \<Rightarrow> typing t w \<noteq> None) then Inl NotEnabled
      else bind_res (sys_step e (base t)) (\<lambda>s. Inr (t\<lparr>base := s\<rparr>)))"
| "typing_step (Ask w n) t =
     (if typing t w \<noteq> None \<or> menu_at (mach (base t) w) \<noteq> Prompt then Inl NotEnabled
      else bind_res (write_begin n (mach (base t) w)) (\<lambda>mc.
        Inr (t\<lparr>base := (base t)\<lparr>mach := (mach (base t))(w := mc)\<rparr>, typing := (typing t)(w := Some (to_int32 n))\<rparr>)))"
| "typing_step (Line w line) t =
     (case typing t w of
        None \<Rightarrow> Inl NotEnabled
      | Some index \<Rightarrow>
          if menu_at (mach (base t) w) = Exited then Inl NotEnabled
          else bind_res (after_menu w (base t) (write_finish index line (mach (base t) w))) (\<lambda>s.
            Inr (t\<lparr>base := s, typing := (typing t)(w := None)\<rparr>)))"

section \<open>A write that nothing interrupts\<close>

lemma menu_write_halves:
  assumes "menu_at mc = Prompt"
  shows "menu_write n line mc = bind_res (write_begin n mc) (write_finish (to_int32 n) line)"
proof -
  have td: "mc\<lparr>temp_data := td, menu_at := Prompt\<rparr> = mc\<lparr>temp_data := td\<rparr>" for td
    using assms by (cases mc) simp
  show ?thesis
    by (auto simp: menu_write_def menu_write_page_def write_begin_def write_finish_def scan_message_def
        set_msi_def Let_def td bind_res_assoc)
qed

text \<open>An event of \<open>Msi_System\<close> in the finer steps.\<close>

fun expand :: "event \<Rightarrow> typing_event list" where
  "expand (Key w (Write n line)) = [Ask w n, Line w line]"
| "expand e = [Step e]"

lemma expand_write:
  "run_events typing_step [Ask w n, Line w line] (lift_sys s) =
     bind_res (sys_step (Key w (Write n line)) s) (\<lambda>s. Inr (lift_sys s))"
proof (cases "menu_at (mach s w) = Prompt")
  case False
  then show ?thesis by (simp add: lift_sys_def menu_command_def after_menu_def)
next
  case True
  note halves = menu_write_halves [OF True, of n line]
  show ?thesis
  proof (cases "write_begin n (mach s w)")
    case (Inl f)
    then show ?thesis using True halves by (simp add: lift_sys_def menu_command_def after_menu_def)
  next
    case (Inr mc)
    then have pr: "menu_at mc = Prompt"
      using True by (auto simp: write_begin_def set_msi_def Let_def split: if_splits)
    have "after_menu w (s\<lparr>mach := (mach s)(w := mc)\<rparr>) r = after_menu w s r" for r
      by (cases r) (auto simp: after_menu_def split: option.split)
    then show ?thesis
      using True Inr halves pr by (simp add: lift_sys_def menu_command_def fun_upd_idem bind_res_assoc)
  qed
qed

lemma expand_step:
  "run_events typing_step (expand e) (lift_sys s) = bind_res (sys_step e s) (\<lambda>s. Inr (lift_sys s))"
proof (cases "is_write e")
  case True
  then obtain w n line where "e = Key w (Write n line)" by (auto elim: is_write.elims)
  then show ?thesis using expand_write by (simp only: expand.simps)
next
  case False
  then have "expand e = [Step e]" by (cases e rule: expand.cases) auto
  then show ?thesis
    using False by (cases "key_of e") (simp_all add: lift_sys_def bind_res_assoc)
qed

text \<open>
  Every run of the system with whole write commands is a run with split ones: entering each line right
  after its page number gives the same state, or the same fault.
\<close>

theorem typing_refines_commands:
  "run_events typing_step (concat (map expand es)) (lift_sys s) =
     bind_res (run_events sys_step es s) (\<lambda>t. Inr (lift_sys t))"
proof (induction es arbitrary: s)
  case (Cons e es)
  then show ?case
    by (simp add: run_events_append expand_step bind_res_assoc)
qed simp

section \<open>Safety of the finer interleavings\<close>

definition typing_side :: "nat \<Rightarrow> nat \<Rightarrow> machine \<Rightarrow> int option \<Rightarrow> bool" where
  "typing_side N ps mc ti \<longleftrightarrow>
     (case ti of None \<Rightarrow> True
      | Some index \<Rightarrow> menu_at mc \<in> {Prompt, Exited} \<and>
          (if index = -1 then True else request_ok N ps (temp_data mc)))"


lemma typing_side_None [simp]: "typing_side N ps mc None"
  by (simp add: typing_side_def)


lemma write_begin_page:
  assumes "machine_ok N mc" and "i < N"
  shows "write_begin (int i) mc =
    Inr (mc\<lparr>temp_data := write_request i mc, list_MSI := (list_MSI mc)(i := flags Mod)\<rparr>)"
  using assms to_int32_page [OF assms]
  by (simp add: write_begin_def write_request_def write_signals_def set_msi_flags Let_def)

lemma write_finish_page:
  assumes ok: "machine_ok N mc" and r: "request_ok N (page_size mc) (temp_data mc)" and line: "line_ok (page_size mc) line"
    and ix: "index \<noteq> -1"
  shows "\<exists>p < N. page_num (temp_data mc) = int p \<and>
    write_finish index line mc =
      Inr ([WritingPage (page_string (mc\<lparr>mapping := overlay (mapping mc) (p * page_size mc) line, message := line\<rparr>) p)],
        Some (temp_data mc), mc\<lparr>mapping := overlay (mapping mc) (p * page_size mc) line, message := line\<rparr>)"
proof -
  obtain p where p: "p < N" "page_num (temp_data mc) = int p" "access_page (temp_data mc) = int p * int (page_size mc)"
    using r by (auto simp: request_ok_def)
  let ?mc = "mc\<lparr>mapping := overlay (mapping mc) (p * page_size mc) line, message := line\<rparr>"
  have len: "line \<noteq> []" "length line < page_size mc" using line by (auto simp: line_ok_def)
  have "machine_ok N ?mc"
    using machine_ok_overlay [OF ok p(1), of line] len by (simp add: machine_ok_def)
  then have "cstr_at (overlay (mapping mc) (p * page_size mc) line) (int p * int (page_size mc)) =
      Inr (page_string ?mc p)"
    using cstr_at_page(1) [of N ?mc p] p(1) by simp
  then have "write_finish index line mc = Inr ([WritingPage (page_string ?mc p)], Some (temp_data mc), ?mc)"
    using memcpy_page [OF ok p(1), of line] len line ix p
    by (simp add: write_finish_def scan_message_def Let_def)
  then show ?thesis using p by blast
qed













section \<open>A message that goes astray\<close>

lemma page_string_bytes:
  assumes "machine_ok N mc" and "i < N"
  shows "page_string mc i = takeWhile (\<lambda>c. c \<noteq> NUL) (map (page_byte mc i) [0..<page_size mc])"
proof -
  let ?ps = "page_size mc" and ?bs = "map (page_byte mc i) [0..<page_size mc]"
  have ps: "1 < ?ps" and last: "page_byte mc i (?ps - 1) = NUL" using assms by (auto simp: machine_ok_def)
  have "take ?ps (drop (i * ?ps) (mapping mc)) = ?bs"
    using page_room [OF assms] by (intro nth_equalityI) (auto simp: page_byte_def)
  then have "drop (i * ?ps) (mapping mc) = ?bs @ drop (i * ?ps + ?ps) (mapping mc)"
    using append_take_drop_id [of ?ps "drop (i * ?ps) (mapping mc)"] by (simp add: add.commute)
  moreover have "NUL \<in> set ?bs" using ps last by (auto intro!: image_eqI [of _ _ "?ps - 1"])
  ultimately show ?thesis by (simp add: page_string_def)
qed

text \<open>
  C16. While the user of machine \<open>w\<close> types a message for page \<open>i\<close>, let the other user write page \<open>j\<close> and the
  server of \<open>w\<close> handle that record. Then the message is stored over page \<open>j\<close>, and the record sent is
  the one just received: page \<open>i\<close> is Modified on \<open>w\<close> with its old text and the other machine is never told of
  it, so that if it had the page Modified both have, and page \<open>j\<close> becomes Invalid on both.
\<close>

theorem typing_message_astray:
  assumes g: "good N ps s" and ij: "i < N" "j < N" "i \<noteq> j" and lines: "line_ok ps a" "line_ok ps b"
  shows "case run_events typing_step [Ask w (int i), Ask (peer w) (int j), Line (peer w) b, Step (Serve w), Line w a,
      Step (Serve (peer w))] (lift_sys s) of
      Inl _ \<Rightarrow> False
    | Inr t \<Rightarrow> calm (base t) \<and> list_MSI (mach (base t) w) i = flags Mod \<and>
        list_MSI (mach (base t) (peer w)) i = flags (page_states s (peer w) i) \<and>
        page_string (mach (base t) w) i = page_string (mach s w) i \<and>
        list_all (\<lambda>v. list_MSI (mach (base t) v) j = flags Inv) [w, peer w] \<and>
        (\<forall>k < length a. page_byte (mach (base t) w) j k = a ! k)"
proof -
  let ?A = "mach s w" and ?B = "mach s (peer w)"
  note pA = good_parts [OF g, of w] and pB = good_parts [OF g, of "peer w"]
  have calm: "\<And>v. requests s v = []" "\<And>v. replies s v = []" using good_calm [OF g] by (simp_all add: calm_def)
  let ?A1 = "?A\<lparr>temp_data := write_request i ?A, list_MSI := (list_MSI ?A)(i := flags Mod)\<rparr>"
  let ?td = "write_request j ?B"
  let ?B1 = "?B\<lparr>temp_data := ?td, list_MSI := (list_MSI ?B)(j := flags Mod)\<rparr>"
  have askA: "write_begin (int i) ?A = Inr ?A1" and askB: "write_begin (int j) ?B = Inr ?B1"
    using write_begin_page pA(2) pB(2) ij by simp_all
  have i32: "to_int32 (int i) = int i" "to_int32 (int j) = int j" using page_to_int32 [OF g] ij by simp_all
  have td: "request_ok N ps ?td" using request_ok_write [OF pB(2) ij(2)] pB(4) by simp
  let ?B2 = "?B1\<lparr>mapping := overlay (mapping ?B) (j * ps) b, message := b\<rparr>"
  have okB1: "machine_ok N ?B1" using pB by (simp add: machine_ok_def)
  obtain outB where lineB: "write_finish (int j) b ?B1 = Inr (outB, Some ?td, ?B2)"
    using write_finish_page [OF okB1, of b "int j"] td lines(2) pB(4) by auto
  have "pair_ok ?A ?B j" using pA(1) ij(2) by (simp add: coh_def)
  then have "pair_ok ?A1 ?B j" using ij(3) by (simp add: pair_ok_def)
  then have "server_handle ?td ?A1 =
      Inr ([], ?A1\<lparr>temp_data := ?td, list_MSI := (list_MSI ?A1)(j := flags Inv)\<rparr>)"
    by (intro server_handle_write_pair [OF pB(2) pair_ok_sym ij(2)])
  moreover define A2 where "A2 = ?A1\<lparr>temp_data := ?td, list_MSI := (list_MSI ?A1)(j := flags Inv)\<rparr>"
  ultimately have serveA: "server_handle ?td ?A1 = Inr ([], A2)" by simp
  have A2: "menu_at A2 = Prompt" "temp_data A2 = ?td" "page_size A2 = ps" "mapping A2 = mapping ?A" "machine_ok N A2"
    using pA pB by (simp_all add: A2_def machine_ok_def)
  define A3 where "A3 = A2\<lparr>mapping := overlay (mapping ?A) (j * ps) a, message := a\<rparr>"
  obtain outA where lineA: "write_finish (int i) a A2 = Inr (outA, Some ?td, A3)"
    using write_finish_page [OF A2(5), of a "int i"] td lines(1) A2 by (auto simp: A3_def)
  have sig: "read_signal ?td j = 0"
  proof -
    obtain x where x: "list_MSI ?B j = flags x" using good_onehot [OF g ij(2)] by blast
    then show ?thesis
      using \<open>pair_ok ?A ?B j\<close> write_request_signals [of ?B j] by (cases x) (auto simp: pair_ok_def)
  qed
  have serveB: "server_handle ?td ?B2 = Inr ([], ?B2\<lparr>list_MSI := (list_MSI ?B)(j := flags Inv)\<rparr>)"
    using sig pB(2) ij(2) by (simp add: server_handle_def Let_def set_msi_flags)
  have len: "length a \<le> ps" using lines(1) by (simp add: line_ok_def)
  have bytes: "page_byte A3 k l = (if k = j \<and> l < length a then a ! l else page_byte ?A k l)" if "k < N" "l < ps" for k l
    using page_byte_overlay [OF pA(2) ij(2) that(1), of a l] len that pA(4) A2(3) by (simp add: page_byte_def A3_def)
  have A3: "machine_ok N A3" "page_size A3 = ps"
    using machine_ok_overlay [OF A2(5) ij(2), of a] lines(1) len A2(3,4) by (auto simp: A3_def machine_ok_def line_ok_def)
  have same: "map (page_byte A3 i) [0..<ps] = map (page_byte ?A i) [0..<ps]"
    using bytes [OF ij(1)] ij(3) by simp
  have str: "page_string A3 i = page_string ?A i"
    by (simp only: page_string_bytes [OF A3(1) ij(1)] page_string_bytes [OF pA(2) ij(1)] A3(2) pA(4) same)
  have fA: "list_MSI A3 i = flags Mod" "list_MSI A3 j = flags Inv" using ij(3) by (simp_all add: A3_def A2_def)
  have fB: "list_MSI ?B i = flags (page_states s (peer w) i)" using good_onehot [OF g ij(1)] .
  have stored: "\<forall>k < length a. page_byte A3 j k = a ! k" using bytes [OF ij(2)] lines(1) by (simp add: line_ok_def)
  show ?thesis
    using calm askA askB i32 lineB serveA lineA serveB pA(3) pB(3) A2(1) str fA fB stored ij(3)
    by (simp add: lift_sys_def after_menu_def calm_def all_side [of _ w])
qed

theorem typing_message_astray_witness:
  "\<exists>s. init_sys 8 (int 3) zero_info (blank_buffers 8) (\<lambda>_. []) = Inr s \<and>
    (case run_events typing_step [Ask One (int 0), Ask (peer One) (int 1), Line (peer One) ''xy'', Step (Serve One),
        Line One ''abc'', Step (Serve (peer One))] (lift_sys s) of
      Inl _ \<Rightarrow> False
    | Inr t \<Rightarrow> calm (base t) \<and> list_MSI (mach (base t) One) 0 = flags Mod \<and>
        list_MSI (mach (base t) (peer One)) 0 = flags (page_states s (peer One) 0) \<and>
        page_string (mach (base t) One) 0 = page_string (mach s One) 0 \<and>
        list_all (\<lambda>v. list_MSI (mach (base t) v) 1 = flags Inv) [One, peer One] \<and>
        (\<forall>k < length ''abc''. page_byte (mach (base t) One) 1 k = ''abc'' ! k))"
proof -
  obtain s where s: "init_sys 8 (int 3) zero_info (blank_buffers 8) (\<lambda>_. []) = Inr s" "good 3 8 s"
    using sample_start by blast
  then show ?thesis
    using typing_message_astray [OF s(2), of 0 1 "''abc''" "''xy''" One] by (simp add: line_ok_def)
qed

end
