(* ===== verification/Uffd.thy ===== *)
theory Uffd
  imports Prelude
begin

unbundle bit_operations_syntax

text \<open>
  Memory filled on demand by a userfaultfd handler thread: \<open>Project_3/part1/uffd.c\<close> (fills with
  zeros), \<open>Project_3_new/part1/uffd.c\<close> (fills the n-th page with a letter) and the handler shared by
  \<open>Project_3/part3/part3.c\<close>. A region is the mapping with the pages that are resident; the first
  access to a page sends its address to the handler, one iteration of which copies a page in.
\<close>

section \<open>The handler\<close>

record region =
  rsize :: nat
  rbase :: "64 word"
  resident :: "nat \<Rightarrow> bool"
  rbytes :: "char list"
  fault_cnt :: nat

text \<open>What the system calls of one iteration return.\<close>

record pf_outcome =
  poll_ret :: int
  read_ret :: int
  event_pagefault :: bool
  ioctl_ret :: int

definition served :: pf_outcome where
  "served = \<lparr>poll_ret = 1, read_ret = 32, event_pagefault = True, ioctl_ret = 0\<rparr>"

text \<open>\<open>address & ~(page_size - 1)\<close>.\<close>

definition copy_dst :: "nat \<Rightarrow> 64 word \<Rightarrow> 64 word" where
  "copy_dst ps address = address AND NOT (word_of_nat ps - 1)"

definition install :: "nat \<Rightarrow> char list \<Rightarrow> region \<Rightarrow> region res" where
  "install off page r =
     bind_res (memcpy_at (rbytes r) (int off) page) (\<lambda>bs.
       Inr (r\<lparr>rbytes := bs, resident := (resident r)(off div rsize r := True),
              fault_cnt := Suc (fault_cnt r)\<rparr>))"

definition handler_checks :: "pf_outcome \<Rightarrow> (bool \<times> string) list" where
  "handler_checks out =
     [(poll_ret out = -1, ''poll''),
      (read_ret out = 0, ''EOF on userfaultfd!''),
      (read_ret out = -1, ''read''),
      (\<not> event_pagefault out, ''Unexpected event on userfaultfd''),
      (ioctl_ret out = -1, ''ioctl-UFFDIO_COPY'')]"

definition fault_handler_iter :: "(nat \<Rightarrow> char list) \<Rightarrow> pf_outcome \<Rightarrow> 64 word \<Rightarrow> region \<Rightarrow> region res" where
  "fault_handler_iter fill out address r =
     (case first_failure (handler_checks out) of
        Some msg \<Rightarrow> Inl (Exit msg)
      | None \<Rightarrow> install (unat (copy_dst (rsize r) address - rbase r)) (fill (fault_cnt r)) r)"

text \<open>The page that is copied: cleared before each fault, or filled with the next letter.\<close>

definition zero_page :: "nat \<Rightarrow> nat \<Rightarrow> char list" where
  "zero_page ps cnt = replicate ps NUL"

definition letter_page :: "nat \<Rightarrow> nat \<Rightarrow> char list" where
  "letter_page ps cnt = replicate ps (char_of (65 + cnt mod 20 :: nat))"

definition touch :: "(nat \<Rightarrow> char list) \<Rightarrow> (nat \<Rightarrow> pf_outcome) \<Rightarrow> nat \<Rightarrow> region \<Rightarrow> region res" where
  "touch fill outs l r =
     (if length (rbytes r) \<le> l then Inl OutOfBounds
      else if resident r (l div rsize r) then Inr r
      else fault_handler_iter fill (outs (fault_cnt r)) (rbase r + word_of_nat l) r)"

definition read_byte ::
  "(nat \<Rightarrow> char list) \<Rightarrow> (nat \<Rightarrow> pf_outcome) \<Rightarrow> nat \<Rightarrow> region \<Rightarrow> (char \<times> region) res" where
  "read_byte fill outs l r = bind_res (touch fill outs l r) (\<lambda>r. Inr (rbytes r ! l, r))"

definition write_byte ::
  "(nat \<Rightarrow> char list) \<Rightarrow> (nat \<Rightarrow> pf_outcome) \<Rightarrow> nat \<Rightarrow> char \<Rightarrow> region \<Rightarrow> region res" where
  "write_byte fill outs l c r =
     bind_res (touch fill outs l r) (\<lambda>r. Inr (r\<lparr>rbytes := (rbytes r)[l := c]\<rparr>))"

section \<open>The main program\<close>

text \<open>\<open>while (l < len) { ...; l += stride; }\<close> with an \<open>int l\<close> and \<open>stride = Suc d\<close>.\<close>

function strided :: "nat \<Rightarrow> (nat \<Rightarrow> 's \<Rightarrow> 's res) \<Rightarrow> nat \<Rightarrow> nat \<Rightarrow> 's \<Rightarrow> 's res" where
  "strided d body len l s =
     (if l < len then
        bind_res (body l s) (\<lambda>s.
          if 2 ^ 31 \<le> l + Suc d then Inl Overflow else strided d body len (l + Suc d) s)
      else Inr s)"
  by pat_completeness auto
termination by (relation "measure (\<lambda>(d, body, len, l, s). len - l)") auto

declare strided.simps [simp del]

datatype shown = Char nat nat char | Str nat nat string

text \<open>The state of \<open>main\<close>: the region and the lines printed (loop number, offset, contents).\<close>

type_synonym uffd_main_state = "region \<times> shown list"

definition show_char ::
  "nat \<Rightarrow> (nat \<Rightarrow> char list) \<Rightarrow> (nat \<Rightarrow> pf_outcome) \<Rightarrow> nat \<Rightarrow> uffd_main_state \<Rightarrow> uffd_main_state res" where
  "show_char no fill outs l = (\<lambda>(r, out).
     bind_res (read_byte fill outs l r) (\<lambda>(c, r). Inr (r, out @ [Char no l c])))"

text \<open>\<open>%s\<close> reads on until a NUL, through the following pages if need be.\<close>

lemma length_memcpy_at: "memcpy_at buf off bs = Inr buf' \<Longrightarrow> length buf' = length buf"
  by (auto simp: memcpy_at_def split: if_splits)

lemma length_touch: "touch fill outs l r = Inr r' \<Longrightarrow> length (rbytes r') = length (rbytes r)"
  by (auto simp: touch_def fault_handler_iter_def install_def bind_res_Inr_iff
      dest: length_memcpy_at split: if_splits option.splits)

lemma read_byte_length: "read_byte fill outs l r = Inr (c, r') \<Longrightarrow>
  length (rbytes r') = length (rbytes r) \<and> l < length (rbytes r)"
  by (auto simp: read_byte_def bind_res_Inr_iff length_touch)
    (auto simp: touch_def split: if_splits)

function read_cstr ::
  "(nat \<Rightarrow> char list) \<Rightarrow> (nat \<Rightarrow> pf_outcome) \<Rightarrow> nat \<Rightarrow> region \<Rightarrow> (string \<times> region) res" where
  "read_cstr fill outs l r =
     bind_res (read_byte fill outs l r) (\<lambda>(c, r').
       if c = NUL then Inr ([], r')
       else bind_res (read_cstr fill outs (Suc l) r') (\<lambda>(s, r'). Inr (c # s, r')))"
  by pat_completeness auto
termination
  by (relation "measure (\<lambda>(fill, outs, l, r). length (rbytes r) - l)")
    (auto dest!: read_byte_length)

declare read_cstr.simps [simp del]

definition show_str ::
  "nat \<Rightarrow> (nat \<Rightarrow> char list) \<Rightarrow> (nat \<Rightarrow> pf_outcome) \<Rightarrow> nat \<Rightarrow> uffd_main_state \<Rightarrow> uffd_main_state res" where
  "show_str no fill outs l = (\<lambda>(r, out).
     bind_res (read_cstr fill outs l r) (\<lambda>(s, r). Inr (r, out @ [Str no l s])))"

text \<open>What the calls before the loops return.\<close>

record uffd_setup =
  argc :: int
  uffd_ret :: int
  api_ret :: int
  mmap_failed :: bool
  register_ret :: int
  pthread_ret :: int

definition setup_checks :: "uffd_setup \<Rightarrow> (bool \<times> string) list" where
  "setup_checks su =
     [(argc su \<noteq> 2, ''Usage''),
      (uffd_ret su = -1, ''userfaultfd''),
      (api_ret su = -1, ''ioctl-UFFDIO_API''),
      (mmap_failed su, ''mmap''),
      (register_ret su = -1, ''ioctl-UFFDIO_REGISTER''),
      (pthread_ret su \<noteq> 0, ''pthread_create'')]"

definition setup_ok :: uffd_setup where
  "setup_ok = \<lparr>argc = 2, uffd_ret = 3, api_ret = 0, mmap_failed = False, register_ret = 0,
     pthread_ret = 0\<rparr>"

definition fresh_region :: "nat \<Rightarrow> nat \<Rightarrow> 64 word \<Rightarrow> region" where
  "fresh_region ps n base = \<lparr>rsize = ps, rbase = base, resident = (\<lambda>_. False),
     rbytes = replicate (n * ps) NUL, fault_cnt = 0\<rparr>"

text \<open>\<open>Project_3/part1/uffd.c\<close>: strings at every 1024 bytes, then characters.\<close>

definition uffd_main_old ::
  "nat \<Rightarrow> uffd_setup \<Rightarrow> (nat \<Rightarrow> pf_outcome) \<Rightarrow> nat \<Rightarrow> 64 word \<Rightarrow> uffd_main_state res" where
  "uffd_main_old ps su outs n base =
     (let fill = zero_page ps; len = n * ps in
      case first_failure (setup_checks su) of
        Some msg \<Rightarrow> Inl (Exit msg)
      | None \<Rightarrow>
          bind_res (strided 1023 (show_str 1 fill outs) len 0 (fresh_region ps n base, [])) (\<lambda>s.
          bind_res (strided 2047 (show_char 2 fill outs) len 0 s) (\<lambda>s.
          strided 1023 (show_char 3 fill outs) len 0 s)))"

text \<open>\<open>Project_3_new/part1/uffd.c\<close>: characters only, on pages of letters.\<close>

definition uffd_main_new ::
  "nat \<Rightarrow> uffd_setup \<Rightarrow> (nat \<Rightarrow> pf_outcome) \<Rightarrow> nat \<Rightarrow> 64 word \<Rightarrow> uffd_main_state res" where
  "uffd_main_new ps su outs n base =
     (let fill = letter_page ps; len = n * ps in
      case first_failure (setup_checks su) of
        Some msg \<Rightarrow> Inl (Exit msg)
      | None \<Rightarrow>
          bind_res (strided 2047 (show_char 1 fill outs) len 0 (fresh_region ps n base, [])) (\<lambda>s.
          bind_res (strided 2047 (show_char 2 fill outs) len 0 s) (\<lambda>s.
          strided 1023 (show_char 3 fill outs) len 0 s)))"

end
