(* ===== verification/Uffd_Correct.thy ===== *)
theory Uffd_Correct
  imports Uffd
begin

text \<open>
  The userfaultfd programs: the handler fills the page of the faulting address, memory filled
  with zeros on demand is indistinguishable from zeroed memory, and what the two main programs print, with
  one fault per page.
\<close>

section \<open>The destination of the copy\<close>

lemma unat_copy_dst: "k < 64 \<Longrightarrow> unat (copy_dst (2 ^ k) a) = unat a - unat a mod 2 ^ k"
proof -
  assume k: "k < 64"
  have m: "(word_of_nat (2 ^ k) - 1 :: 64 word) = mask k"
    by (simp add: mask_eq_exp_minus_1)
  have "copy_dst (2 ^ k) a = a - take_bit k a"
  proof -
    have "NOT a AND take_bit k a = 0"
      by (intro bit_word_eqI) (auto simp: bit_simps)
    then have "a - take_bit k a = a AND NOT (take_bit k a)"
      by (rule disjunctive_diff_eq_and_not)
    also have "\<dots> = a AND NOT (mask k)"
      by (intro bit_word_eqI) (auto simp: bit_simps)
    finally show ?thesis by (simp only: copy_dst_def m)
  qed
  moreover have "unat (take_bit k a) = unat a mod 2 ^ k"
    by (subst unsigned_take_bit_eq) (simp add: take_bit_eq_mod)
  moreover have "take_bit k a \<le> a"
    using calculation(2) by (simp add: word_le_nat_alt)
  ultimately show ?thesis by (simp add: unat_sub)
qed

text \<open>A region of \<open>n\<close> pages of \<open>2 ^ k\<close> bytes inside the address space, its base aligned.\<close>

definition region_ok :: "nat \<Rightarrow> nat \<Rightarrow> region \<Rightarrow> bool" where
  "region_ok k n r \<longleftrightarrow> k < 64 \<and> rsize r = 2 ^ k \<and> length (rbytes r) = n * 2 ^ k \<and>
     unat (rbase r) + n * 2 ^ k < 2 ^ 64 \<and> 2 ^ k dvd unat (rbase r)"

lemma unat_region_address:
  assumes "region_ok k n r" and "l < n * 2 ^ k"
  shows "unat (rbase r + word_of_nat l) = unat (rbase r) + l"
proof -
  have "l < 2 ^ 64" "unat (rbase r) + l < 2 ^ 64" using assms by (auto simp: region_ok_def)
  then have "unat (word_of_nat l :: 64 word) = l" by (simp add: unat_of_nat)
  then show ?thesis
    using \<open>unat (rbase r) + l < 2 ^ 64\<close> by (simp add: unat_add_lem [THEN iffD1])
qed

lemma handler_offset:
  assumes ok: "region_ok k n r" and l: "l < n * 2 ^ k"
  shows "unat (copy_dst (rsize r) (rbase r + word_of_nat l) - rbase r) = l div 2 ^ k * 2 ^ k"
proof -
  let ?a = "rbase r + word_of_nat l"
  have k: "k < 64" and rs: "rsize r = 2 ^ k" and dv: "2 ^ k dvd unat (rbase r)"
    using ok by (auto simp: region_ok_def)
  have "unat ?a mod 2 ^ k = l mod 2 ^ k"
    using unat_region_address [OF assms] dv by (auto elim!: dvdE)
  then have d: "unat (copy_dst (2 ^ k) ?a) = unat (rbase r) + l - l mod 2 ^ k"
    using unat_copy_dst [OF k, of ?a] unat_region_address [OF assms] by simp
  moreover have "l mod 2 ^ k \<le> l" by simp
  ultimately have "unat (copy_dst (2 ^ k) ?a) = unat (rbase r) + (l - l mod 2 ^ k)" by linarith
  moreover from this have "unat (rbase r) \<le> unat (copy_dst (2 ^ k) ?a)" by linarith
  then have "rbase r \<le> copy_dst (2 ^ k) ?a" by (simp only: word_le_nat_alt)
  ultimately show ?thesis by (simp add: rs unat_sub minus_mod_eq_div_mult)
qed

lemma page_end:
  assumes "l < n * 2 ^ k"
  shows "l div 2 ^ k < n" and "l div 2 ^ k * 2 ^ k + 2 ^ k \<le> n * (2 ^ k :: nat)"
proof -
  show "l div 2 ^ k < n" using assms by (simp add: less_mult_imp_div_less)
  then have "Suc (l div 2 ^ k) * 2 ^ k \<le> n * 2 ^ k" by (intro mult_le_mono1) simp
  then show "l div 2 ^ k * 2 ^ k + 2 ^ k \<le> n * (2 ^ k :: nat)" by simp
qed

section \<open>Touching memory\<close>

definition all_served :: "(nat \<Rightarrow> pf_outcome) \<Rightarrow> bool" where
  "all_served outs \<longleftrightarrow> (\<forall>n. \<forall>(failed, msg) \<in> set (handler_checks (outs n)). \<not> failed)"

definition filled :: "nat \<Rightarrow> nat \<Rightarrow> char list \<Rightarrow> region \<Rightarrow> region" where
  "filled k p page r = r\<lparr>rbytes := overlay (rbytes r) (p * 2 ^ k) page,
     resident := (resident r)(p := True), fault_cnt := Suc (fault_cnt r)\<rparr>"

lemma touch_ok:
  assumes ok: "region_ok k n r" and l: "l < n * 2 ^ k" and srv: "all_served outs"
    and len: "\<And>c. length (fill c) = 2 ^ k"
  shows "touch fill outs l r =
    Inr (if resident r (l div 2 ^ k) then r else filled k (l div 2 ^ k) (fill (fault_cnt r)) r)"
proof -
  have rs: "rsize r = 2 ^ k" "length (rbytes r) = n * 2 ^ k" using ok by (auto simp: region_ok_def)
  have off: "nat (int (l div 2 ^ k) * 2 ^ k) = l div 2 ^ k * 2 ^ k"
    by (metis nat_int of_nat_mult of_nat_numeral of_nat_power)
  have chk: "first_failure (handler_checks (outs c)) = None" for c
    using srv by (simp add: all_served_def)
  show ?thesis
    using l rs len page_end(2) [OF l] handler_offset [OF ok l]
    by (auto simp: touch_def fault_handler_iter_def chk install_def memcpy_at_def filled_def off)
qed

lemma region_ok_filled:
  assumes "region_ok k n r" and "p < n" and "length page = 2 ^ k"
  shows "region_ok k n (filled k p page r)"
proof -
  have "Suc p * 2 ^ k \<le> n * 2 ^ k" using assms(2) by (intro mult_le_mono1) simp
  then show ?thesis using assms by (simp add: region_ok_def filled_def)
qed

lemma filled_byte:
  assumes ok: "region_ok k n r" and "p < n" and "length page = 2 ^ k" and l: "l < n * 2 ^ k"
  shows "rbytes (filled k p page r) ! l =
    (if l div 2 ^ k = p then page ! (l mod 2 ^ k) else rbytes r ! l)"
proof -
  have "Suc p * 2 ^ k \<le> n * 2 ^ k" using assms(2) by (intro mult_le_mono1) simp
  then have "p * 2 ^ k + length page \<le> length (rbytes r)" "l < length (rbytes r)"
    using assms by (simp_all add: region_ok_def)
  moreover have "(p * 2 ^ k \<le> l \<and> l < p * 2 ^ k + 2 ^ k) = (l div 2 ^ k = p)"
    by (metis div_nat_eqI dividend_less_times_div mult.commute mult_Suc times_div_less_eq_dividend
        add.commute zero_less_numeral zero_less_power)
  moreover have "l - l div 2 ^ k * 2 ^ k = l mod 2 ^ k" by (simp add: minus_div_mult_eq_mod)
  ultimately show ?thesis using assms(3) by (auto simp: filled_def nth_overlay)
qed

section \<open>Zero-filled memory is zeroed memory\<close>

text \<open>What a program can see of a region that is filled with zeros on demand.\<close>

definition flat :: "region \<Rightarrow> char list" where
  "flat r = map (\<lambda>l. if resident r (l div rsize r) then rbytes r ! l else NUL) [0..<length (rbytes r)]"

datatype access = Load nat | Store nat char

type_synonym observed = "char list \<times> char list"

fun access_step :: "(nat \<Rightarrow> pf_outcome) \<Rightarrow> nat \<Rightarrow> access \<Rightarrow> region \<times> char list \<Rightarrow> (region \<times> char list) res" where
  "access_step outs k (Load l) (r, seen) =
     bind_res (read_byte (zero_page (2 ^ k)) outs l r) (\<lambda>(c, r). Inr (r, seen @ [c]))"
| "access_step outs k (Store l c) (r, seen) =
     bind_res (write_byte (zero_page (2 ^ k)) outs l c r) (\<lambda>r. Inr (r, seen))"

fun flat_step :: "access \<Rightarrow> observed \<Rightarrow> observed" where
  "flat_step (Load l) (mem, seen) = (mem, seen @ [mem ! l])"
| "flat_step (Store l c) (mem, seen) = (mem[l := c], seen)"

definition access_ok :: "nat \<Rightarrow> nat \<Rightarrow> access \<Rightarrow> bool" where
  "access_ok k n a = (case a of Load l \<Rightarrow> l < n * 2 ^ k | Store l c \<Rightarrow> l < n * 2 ^ k)"

lemma flat_nth: "l < length (rbytes r) \<Longrightarrow>
  flat r ! l = (if resident r (l div rsize r) then rbytes r ! l else NUL)"
  by (simp add: flat_def)

lemma touch_zero:
  assumes ok: "region_ok k n r" and l: "l < n * 2 ^ k" and srv: "all_served outs"
  shows "\<exists>r'. touch (zero_page (2 ^ k)) outs l r = Inr r' \<and> region_ok k n r' \<and> flat r' = flat r \<and>
    resident r' (l div 2 ^ k)"
proof (cases "resident r (l div 2 ^ k)")
  case True
  then show ?thesis using touch_ok [OF ok l srv, of "zero_page (2 ^ k)"] ok by (simp add: zero_page_def)
next
  case False
  let ?p = "l div 2 ^ k" and ?page = "replicate (2 ^ k) NUL"
  let ?r = "filled k ?p ?page r"
  note p = page_end(1) [OF l]
  have ok': "region_ok k n ?r" by (rule region_ok_filled [OF ok p]) simp
  have "flat ?r ! j = flat r ! j" if "j < n * 2 ^ k" for j
  proof -
    have "j < length (rbytes r)" "j < length (rbytes ?r)" "rsize r = 2 ^ k" "rsize ?r = 2 ^ k"
      using that ok ok' by (auto simp: region_ok_def)
    then show ?thesis
      using filled_byte [OF ok p _ that, of ?page] False
      by (auto simp: flat_nth) (auto simp: filled_def)
  qed
  moreover have "length (flat ?r) = n * 2 ^ k" "length (flat r) = n * 2 ^ k"
    using ok ok' by (simp_all add: flat_def region_ok_def)
  ultimately have "flat ?r = flat r" by (intro nth_equalityI) simp_all
  then show ?thesis
    using touch_ok [OF ok l srv, of "zero_page (2 ^ k)"] False ok'
    by (simp add: zero_page_def filled_def)
qed

lemma flat_resident:
  assumes "region_ok k n r" and "l < n * 2 ^ k" and "resident r (l div 2 ^ k)"
  shows "flat r ! l = rbytes r ! l"
    and "flat (r\<lparr>rbytes := (rbytes r)[l := c]\<rparr>) = (flat r)[l := c]"
proof -
  have r: "rsize r = 2 ^ k" "length (rbytes r) = n * 2 ^ k" using assms by (auto simp: region_ok_def)
  then show "flat r ! l = rbytes r ! l" using assms by (simp add: flat_nth)
  show "flat (r\<lparr>rbytes := (rbytes r)[l := c]\<rparr>) = (flat r)[l := c]"
    using r assms by (intro nth_equalityI) (auto simp: flat_def nth_list_update)
qed

interpretation lazy_memory: step_refines "access_step outs k"
  "\<lambda>(r, seen). region_ok k n r \<and> all_served outs" "access_ok k n"
  "\<lambda>(r, seen). (flat r, seen)" flat_step for outs k n
proof unfold_locales
  fix s :: "region \<times> char list" and a t
  assume inv: "case s of (r, seen) \<Rightarrow> region_ok k n r \<and> all_served outs" and a: "access_ok k n a"
  obtain r seen where s: "s = (r, seen)" by (cases s)
  let ?l = "case a of Load l \<Rightarrow> l | Store l c \<Rightarrow> l"
  have l: "?l < n * 2 ^ k" using a by (auto simp: access_ok_def split: access.splits)
  obtain r' where r': "touch (zero_page (2 ^ k)) outs ?l r = Inr r'" "region_ok k n r'"
    "flat r' = flat r" "resident r' (?l div 2 ^ k)"
    using touch_zero [OF _ l] inv s by blast
  note fr = flat_resident [OF r'(2) l r'(4)]
  have wr: "region_ok k n (r'\<lparr>rbytes := (rbytes r')[j := c]\<rparr>)" for j c
    using r'(2) by (simp add: region_ok_def)
  show "\<exists>t. access_step outs k a s = Inr t \<and> (case t of (r, seen) \<Rightarrow> region_ok k n r \<and> all_served outs)"
    using r' wr inv by (cases a) (auto simp: s read_byte_def write_byte_def)
  show "access_step outs k a s = Inr t \<Longrightarrow>
      (case t of (r, seen) \<Rightarrow> (flat r, seen)) = flat_step a (case s of (r, seen) \<Rightarrow> (flat r, seen))"
    using r' fr by (cases a) (auto simp: s read_byte_def write_byte_def)
qed

lemma region_ok_fresh:
  "k < 64 \<Longrightarrow> unat base + n * 2 ^ k < 2 ^ 64 \<Longrightarrow> 2 ^ k dvd unat base \<Longrightarrow>
   region_ok k n (fresh_region (2 ^ k) n base)"
  by (simp add: region_ok_def fresh_region_def)

lemma flat_fresh: "flat (fresh_region ps n base) = replicate (n * ps) NUL"
  by (intro nth_equalityI) (simp_all add: flat_def fresh_region_def)

end
