(* ===== verification/Msi_Handler.thy ===== *)
theory Msi_Handler
  imports Msi_Machine Uffd_Correct
begin

text \<open>
  The fault handler of \<open>Project_3_new/part4/part4.c\<close>. It aligns the address of a fault by the
  number of pages instead of the page size; what saves it is that the kernel reports the start of
  the page. With it, the mapping that \<open>Msi_Machine\<close> takes to be zeroed memory is that.
\<close>

definition msi_copy_dst :: "int \<Rightarrow> 64 word \<Rightarrow> 64 word" where
  "msi_copy_dst pages address = address AND NOT (word_of_int pages - 1)"

text \<open>
  One iteration: the globals, the results of the calls, the address in the message, and the
  thread's own page with the region. The page is cleared, or a line printed, by the signal of the page
  last asked for in the menu.
\<close>

definition msi_fault_iter ::
  "proc_info \<Rightarrow> pf_outcome \<Rightarrow> 64 word \<Rightarrow> char list \<Rightarrow> region \<Rightarrow> (string list \<times> char list \<times> region) res" where
  "msi_fault_iter temp out address page r =
     (if poll_ret out = -1 then Inl (Exit ''poll'')
      else if \<not> idx_ok (page_num temp) then Inl OutOfBounds
      else
        let clear = (pagefault_signal temp (nat (page_num temp)) = 1);
            page' = (if clear then replicate (length page) NUL else page);
            printed = (if clear then [] else [''[x] PAGEFAULT''])
        in case first_failure (handler_checks out) of
             Some msg \<Rightarrow> Inl (Exit msg)
           | None \<Rightarrow>
               bind_res (install (unat (msi_copy_dst (page_count temp) address - rbase r)) page' r) (\<lambda>r.
                 Inr (printed, page', r)))"

lemma and_not_low:
  "take_bit k m = m \<Longrightarrow> (a AND NOT (mask k)) AND NOT m = a AND NOT (mask k)" for m :: "64 word"
proof (rule bit_word_eqI)
  fix n
  assume m: "take_bit k m = m" and "n < LENGTH(64)"
  have "bit m n \<Longrightarrow> n < k" by (metis m bit_take_bit_iff)
  then show "bit ((a AND NOT (mask k)) AND NOT m) n \<longleftrightarrow> bit (a AND NOT (mask k)) n"
    by (auto simp: bit_simps)
qed

lemma msi_copy_dst_aligned:
  assumes "1 \<le> c" and "c \<le> 4096"
  shows "msi_copy_dst c (copy_dst (2 ^ 12) a) = copy_dst (2 ^ 12) a"
proof -
  let ?m = "word_of_int c - 1 :: 64 word"
  have "?m = word_of_int (c - 1)" by simp
  then have "uint ?m = c - 1" using assms by (simp only: uint_word_of_int) simp
  then have "unat ?m < 2 ^ 12" using assms by (simp only: unat_eq_nat_uint) simp
  then have "unat (take_bit 12 ?m) = unat ?m"
    by (simp only: unsigned_take_bit_eq take_bit_nat_eq_self)
  then have "take_bit 12 ?m = ?m" by (simp only: word_unat_eq_iff)
  moreover have "(word_of_nat (2 ^ 12) - 1 :: 64 word) = mask 12" by (simp add: mask_eq_exp_minus_1)
  ultimately show ?thesis
    unfolding msi_copy_dst_def copy_dst_def by (simp only: and_not_low)
qed

lemma msi_iter_zero:
  assumes "1 \<le> page_count temp" and "page_count temp \<le> 4096" and "idx_ok (page_num temp)"
    and "rsize r = 2 ^ 12"
  shows "msi_fault_iter temp out (copy_dst (2 ^ 12) a) (replicate 4096 NUL) r =
    bind_res (fault_handler_iter (zero_page 4096) out a r) (\<lambda>r'.
      Inr (if pagefault_signal temp (nat (page_num temp)) = 1 then [] else [''[x] PAGEFAULT''],
        replicate 4096 NUL, r'))"
proof -
  have "first_failure (handler_checks out) = Some ''poll''" if "poll_ret out = -1"
    using that by (simp add: handler_checks_def)
  then show ?thesis
    using assms msi_copy_dst_aligned [OF assms(1,2), of a]
    by (cases "first_failure (handler_checks out)")
      (auto simp: msi_fault_iter_def fault_handler_iter_def zero_page_def Let_def
        simp del: first_failure_None)
qed

text \<open>
  C13. With 1 to 4096 pages of 4096 bytes, a fault in a page that is not resident, reported at the
  start of that page, is served by making exactly that page resident with zeros: what the program
  sees of its memory does not change, so the mapping can be taken to be zeroed memory.
\<close>

theorem msi_handler_fills_zeros:
  assumes "1 \<le> page_count temp" and "page_count temp \<le> 4096" and "idx_ok (page_num temp)"
    and "region_ok 12 n r" and "l < n * 2 ^ 12" and "\<not> resident r (l div 2 ^ 12)"
    and "first_failure (handler_checks out) = None"
  shows "\<exists>r'. msi_fault_iter temp out (copy_dst (2 ^ 12) (rbase r + word_of_nat l)) (replicate 4096 NUL) r =
      Inr (if pagefault_signal temp (nat (page_num temp)) = 1 then [] else [''[x] PAGEFAULT''],
        replicate 4096 NUL, r') \<and>
    region_ok 12 n r' \<and> flat r' = flat r \<and> resident r' = (resident r)(l div 2 ^ 12 := True)"
proof -
  have rs: "rsize r = 2 ^ 12" "length (rbytes r) = n * 2 ^ 12" using assms(4) by (auto simp: region_ok_def)
  have srv: "all_served (\<lambda>_. out)" using assms(7) by (simp add: all_served_def)
  obtain r' where r': "touch (zero_page (2 ^ 12)) (\<lambda>_. out) l r = Inr r'" "region_ok 12 n r'"
    "flat r' = flat r"
    using touch_zero [OF assms(4,5) srv] by blast
  moreover have "fault_handler_iter (zero_page 4096) out (rbase r + word_of_nat l) r = Inr r'"
    using r'(1) rs assms(5,6) by (simp add: touch_def)
  moreover have "resident r' = (resident r)(l div 2 ^ 12 := True)"
    using r'(1) assms(6) touch_ok [OF assms(4,5) srv, of "zero_page (2 ^ 12)"]
    by (simp add: zero_page_def filled_def)
  ultimately show ?thesis
    using msi_iter_zero [OF assms(1-3) rs(1), of out "rbase r + word_of_nat l"] by auto
qed

theorem msi_handler_fills_zeros_witness:
  "\<exists>r'. msi_fault_iter (zero_info\<lparr>page_count := 3\<rparr>) served
      (copy_dst (2 ^ 12) (rbase (fresh_region (2 ^ 12) 3 (2 ^ 20)) + word_of_nat 5000)) (replicate 4096 NUL)
      (fresh_region (2 ^ 12) 3 (2 ^ 20)) =
      Inr (if pagefault_signal (zero_info\<lparr>page_count := 3\<rparr>) (nat (page_num (zero_info\<lparr>page_count := 3\<rparr>))) = 1
          then [] else [''[x] PAGEFAULT''], replicate 4096 NUL, r') \<and>
    region_ok 12 3 r' \<and> flat r' = flat (fresh_region (2 ^ 12) 3 (2 ^ 20)) \<and>
    resident r' = (resident (fresh_region (2 ^ 12) 3 (2 ^ 20)))(5000 div 2 ^ 12 := True)"
  by (rule msi_handler_fills_zeros)
    (simp_all add: zero_info_def idx_ok_def MAX_SIZE_def region_ok_def fresh_region_def
      handler_checks_def served_def)

end
