(* ===== verification/Msi_Boot.thy ===== *)
theory Msi_Boot
  imports Msi_System
begin

text \<open>
  How the two processes of \<open>Project_3_new/part4/part4.c\<close> come up. In each process \<open>main\<close>
  starts a server thread and a client thread that share \<open>mch_num\<close>, \<open>addr\<close> and \<open>init_uffd\<close>
  without any lock: the client thread decides the number of the machine by whether its first
  \<open>connect\<close> succeeds, the server thread looks at that number once, after \<open>accept\<close>, and the
  client thread of machine 2 waits until \<open>addr\<close> is set. A step is one thread's code between two
  accesses to what the others read or write. The menus that follow are those of \<open>Msi_System\<close>.
\<close>

section \<open>State\<close>

datatype server_pc =
    S_Begin
  | S_Listening
  | S_Accepted
  | S_Reading
  | S_Mapped
  | S_Listed
  | S_Uffd
  | S_Loop

datatype client_pc =
    C_Begin
  | C_Linked
  | C_Failed
  | C_Retry
  | C_One
  | C_Sent
  | C_Ready
  | C_Two
  | C_Menu

text \<open>
  \<open>linked\<close>: the other process's client is connected to this one's server. \<open>handler_uffd\<close> is the
  descriptor the fault handler was started with.
\<close>

record booting =
  mch_num :: nat
  s_at :: server_pc
  c_at :: client_pc
  linked :: bool
  inbox :: "proc_info list"
  addr_set :: bool
  init_uffd :: int
  handler_uffd :: "int option"
  process :: "machine option"

type_synonym boot = "side \<Rightarrow> booting"

text \<open>
  What the users type and the kernel gives: page count, descriptor, contents of fresh memory, and
  which of the calls fail.
\<close>

datatype boot_call = B_mmap | B_userfaultfd | B_api | B_register | B_thread

definition boot_msg :: "boot_call \<Rightarrow> string" where
  "boot_msg c = (case c of B_mmap \<Rightarrow> ''mmap'' | B_userfaultfd \<Rightarrow> ''userfaultfd'' | B_api \<Rightarrow> ''ioctl-UFFDIO_API''
     | B_register \<Rightarrow> ''ioctl-UFFDIO_REGISTER'' | B_thread \<Rightarrow> ''pthread_create'')"

record boot_env =
  b_page_size :: nat
  b_pages :: "side \<Rightarrow> int"
  b_garbage :: "side \<Rightarrow> proc_info"
  b_recvbuf :: "side \<Rightarrow> char list"
  b_msgbuf :: "side \<Rightarrow> string"
  b_uffd :: "side \<Rightarrow> int"
  b_fails :: "side \<Rightarrow> boot_call \<Rightarrow> bool"

text \<open>Calls one after the other, of which the first that fails ends the process.\<close>

definition boot_calls :: "boot_env \<Rightarrow> side \<Rightarrow> boot_call list \<Rightarrow> unit res" where
  "boot_calls e w cs =
     (case first_failure (map (\<lambda>c. (b_fails e w c, boot_msg c)) cs) of
        None \<Rightarrow> Inr () | Some msg \<Rightarrow> Inl (Exit msg))"

definition boot_start :: boot where
  "boot_start w = \<lparr>mch_num = 0, s_at = S_Begin, c_at = C_Begin, linked = False, inbox = [],
     addr_set = False, init_uffd = 0, handler_uffd = None, process = None\<rparr>"

section \<open>The threads\<close>

definition no_list :: "machine \<Rightarrow> machine" where
  "no_list mc = mc\<lparr>list_MSI := (\<lambda>_. \<lparr>M = False, S = False, I = False\<rparr>)\<rparr>"

definition with_list :: "machine \<Rightarrow> machine" where
  "with_list mc = mc\<lparr>list_MSI := init_list_MSI (page_count (temp_data mc))\<rparr>"

text \<open>
  The server thread up to its loop: \<open>socket\<close> to \<open>listen\<close>, \<open>accept\<close>, the test of \<open>mch_num\<close>, and on
  machine 2 the first record, the pages (whose \<open>mmap\<close> is not checked), the states, the descriptor and
  its registration.
\<close>

definition boot_server :: "boot_env \<Rightarrow> side \<Rightarrow> boot \<Rightarrow> boot res" where
  "boot_server e w b =
     (let p = b w
      in case s_at p of
        S_Begin \<Rightarrow> Inr (b(w := p\<lparr>s_at := S_Listening\<rparr>))
      | S_Listening \<Rightarrow> if linked p then Inr (b(w := p\<lparr>s_at := S_Accepted\<rparr>)) else Inl NotEnabled
      | S_Accepted \<Rightarrow> Inr (b(w := p\<lparr>s_at := (if mch_num p = 2 then S_Reading else S_Loop)\<rparr>))
      | S_Reading \<Rightarrow> (case inbox p of
            [] \<Rightarrow> Inl NotEnabled
          | td # rest \<Rightarrow>
              bind_res (server_init_mch2 (\<not> b_fails e w B_mmap) (b_page_size e) td (b_recvbuf e w) (b_msgbuf e w)) (\<lambda>mc.
                Inr (b(w := p\<lparr>inbox := rest, process := Some (no_list mc), addr_set := True,
                               s_at := S_Mapped\<rparr>))))
      | S_Mapped \<Rightarrow> Inr (b(w := p\<lparr>process := map_option with_list (process p), s_at := S_Listed\<rparr>))
      | S_Listed \<Rightarrow>
          bind_res (boot_calls e w [B_userfaultfd]) (\<lambda>_. Inr (b(w := p\<lparr>init_uffd := b_uffd e w, s_at := S_Uffd\<rparr>)))
      | S_Uffd \<Rightarrow> bind_res (boot_calls e w [B_api, B_register]) (\<lambda>_. Inr (b(w := p\<lparr>s_at := S_Loop\<rparr>)))
      | S_Loop \<Rightarrow> Inl NotEnabled)"

text \<open>\<open>connect\<close> succeeds when the other process's server listens.\<close>

definition connects :: "side \<Rightarrow> boot \<Rightarrow> bool" where
  "connects w b \<longleftrightarrow> s_at (b (peer w)) \<noteq> S_Begin"

definition link :: "side \<Rightarrow> boot \<Rightarrow> boot" where
  "link w b = b(peer w := (b (peer w))\<lparr>linked := True\<rparr>)"

definition move_client :: "side \<Rightarrow> client_pc \<Rightarrow> boot \<Rightarrow> boot" where
  "move_client w pc b = b(w := (b w)\<lparr>c_at := pc\<rparr>)"

text \<open>
  The client thread up to \<open>menu\<close>: the first \<open>connect\<close>, the number of the machine, the \<open>connect\<close> loop
  (a failed attempt changes nothing, so the thread is not enabled until one can succeed), on machine 1
  the set-up and the record sent, then the descriptor and its registration, on machine 2 the wait for
  \<open>addr\<close>, and the fault handler's start.
\<close>

definition boot_client :: "boot_env \<Rightarrow> side \<Rightarrow> boot \<Rightarrow> boot res" where
  "boot_client e w b =
     (let p = b w
      in case c_at p of
        C_Begin \<Rightarrow>
          if connects w b then Inr (move_client w C_Linked (link w b)) else Inr (move_client w C_Failed b)
      | C_Linked \<Rightarrow> Inr (b(w := p\<lparr>mch_num := 2, c_at := C_Two\<rparr>))
      | C_Failed \<Rightarrow> Inr (b(w := p\<lparr>mch_num := 1, c_at := C_Retry\<rparr>))
      | C_Retry \<Rightarrow> if connects w b then Inr (move_client w C_One (link w b)) else Inl NotEnabled
      | C_One \<Rightarrow>
          bind_res (client_init_mch1 (\<not> b_fails e w B_mmap) (b_page_size e) (b_pages e w) (b_garbage e w) (b_recvbuf e w)
            (b_msgbuf e w)) (\<lambda>(td, mc).
          let b = b(w := p\<lparr>process := Some mc, addr_set := True, c_at := C_Sent\<rparr>)
          in Inr (b(peer w := (b (peer w))\<lparr>inbox := inbox (b (peer w)) @ [td]\<rparr>)))
      | C_Sent \<Rightarrow>
          bind_res (boot_calls e w [B_userfaultfd, B_api, B_register]) (\<lambda>_.
            Inr (b(w := p\<lparr>init_uffd := b_uffd e w, c_at := C_Ready\<rparr>)))
      | C_Ready \<Rightarrow>
          bind_res (boot_calls e w [B_thread]) (\<lambda>_.
            Inr (b(w := p\<lparr>handler_uffd := Some (init_uffd p), c_at := C_Menu\<rparr>)))
      | C_Two \<Rightarrow>
          if addr_set p then
            bind_res (boot_calls e w [B_thread]) (\<lambda>_.
              Inr (b(w := p\<lparr>handler_uffd := Some (init_uffd p), c_at := C_Menu\<rparr>)))
          else Inl NotEnabled
      | C_Menu \<Rightarrow> Inl NotEnabled)"

datatype thread = Server side | Client side

fun boot_step :: "boot_env \<Rightarrow> thread \<Rightarrow> boot \<Rightarrow> boot res" where
  "boot_step e (Server w) b = boot_server e w b"
| "boot_step e (Client w) b = boot_client e w b"

text \<open>What a start can come to, whatever the scheduler does.\<close>

inductive booted :: "boot_env \<Rightarrow> boot \<Rightarrow> bool" for e where
  start: "booted e boot_start"
| step: "booted e b \<Longrightarrow> boot_step e t b = Inr b' \<Longrightarrow> booted e b'"


definition at_rest :: "boot_env \<Rightarrow> boot \<Rightarrow> bool" where
  "at_rest e b \<longleftrightarrow> (\<forall>t. boot_step e t b = Inl NotEnabled)"

end
