(* ===== verification/Msi_Boot_Props.thy ===== *)
theory Msi_Boot_Props
  imports Msi_Boot Msi_Sync
begin

text \<open>
  What a start of the two processes can come to: the invariant of every schedule, the bound on
  its length, the four ways in which it ends, and the composition of the good one with the
  commands that follow.
\<close>

section \<open>The machines that are set up\<close>

definition fits :: "boot_env \<Rightarrow> side \<Rightarrow> bool" where
  "fits e w \<longleftrightarrow> \<not> mmap_fails (\<not> b_fails e w B_mmap) (mmap_len (b_page_size e) (b_pages e w)) \<and> b_pages e w \<le> MAX_SIZE"

definition first_record :: "boot_env \<Rightarrow> side \<Rightarrow> proc_info" where
  "first_record e w = (b_garbage e w)\<lparr>page_count := b_pages e w\<rparr>"

definition first_machine :: "boot_env \<Rightarrow> side \<Rightarrow> machine" where
  "first_machine e w =
     (case fresh_machine (\<not> b_fails e w B_mmap) (b_page_size e) (zero_info\<lparr>page_count := b_pages e w\<rparr>)
        (b_recvbuf e w) (b_msgbuf e w) of Inr mc \<Rightarrow> mc)"

definition second_machine :: "boot_env \<Rightarrow> side \<Rightarrow> machine" where
  "second_machine e w =
     (case fresh_machine (\<not> b_fails e w B_mmap) (b_page_size e) (first_record e (peer w)) (b_recvbuf e w) (b_msgbuf e w) of
        Inr mc \<Rightarrow> mc)"

text \<open>
  What ends a process during a start: a page count for which there is no memory, or that has more pages than
  \<open>list_MSI\<close> has entries, and a call that fails.
\<close>

definition start_stop :: "boot_env \<Rightarrow> fault \<Rightarrow> bool" where
  "start_stop e f \<longleftrightarrow> (\<exists>w. f = OutOfBounds \<and> MAX_SIZE < b_pages e w \<or>
     f = Exit ''mmap'' \<and> mmap_fails (\<not> b_fails e w B_mmap) (mmap_len (b_page_size e) (b_pages e w)) \<or>
     (\<exists>c. f = Exit (boot_msg c) \<and> b_fails e w c))"

lemma first_init:
  "fits e w \<Longrightarrow> client_init_mch1 (\<not> b_fails e w B_mmap) (b_page_size e) (b_pages e w) (b_garbage e w) (b_recvbuf e w)
      (b_msgbuf e w) = Inr (first_record e w, first_machine e w)"
  by (simp add: client_init_mch1_def first_machine_def first_record_def fresh_machine_def fits_def not_less Let_def)

lemma first_init_stops:
  "\<not> fits e w \<Longrightarrow> \<exists>f. client_init_mch1 (\<not> b_fails e w B_mmap) (b_page_size e) (b_pages e w) (b_garbage e w)
      (b_recvbuf e w) (b_msgbuf e w) = Inl f \<and> start_stop e f \<and> f \<noteq> NotEnabled"
  by (auto simp: client_init_mch1_def fresh_machine_def fits_def start_stop_def not_le Let_def)

lemma second_init:
  "fits e (peer w) \<Longrightarrow> server_init_mch2 (\<not> b_fails e w B_mmap) (b_page_size e) (first_record e (peer w)) (b_recvbuf e w)
      (b_msgbuf e w) = Inr (second_machine e w)"
  by (simp add: server_init_mch2_def second_machine_def first_record_def fresh_machine_def fits_def not_less Let_def)

lemma with_no_list: "fits e (peer w) \<Longrightarrow> with_list (no_list (second_machine e w)) = second_machine e w"
  by (simp add: with_list_def no_list_def second_machine_def first_record_def fresh_machine_def fits_def not_less Let_def)

lemma calls_cases:
  assumes "boot_calls e w cs = Inr () \<Longrightarrow> P (Inr ())" and "\<And>f. start_stop e f \<Longrightarrow> f \<noteq> NotEnabled \<Longrightarrow> P (Inl f)"
  shows "P (boot_calls e w cs)"
proof (cases "first_failure (map (\<lambda>c. (b_fails e w c, boot_msg c)) cs)")
  case None
  then have "boot_calls e w cs = Inr ()" by (simp only: boot_calls_def option.case)
  then show ?thesis using assms(1) by simp
next
  case (Some msg)
  then obtain c where "b_fails e w c" "msg = boot_msg c" using first_failure_Some [OF Some] by auto
  then have "start_stop e (Exit msg)" by (auto simp: start_stop_def)
  then show ?thesis using assms(2) [of "Exit msg"] Some by (simp add: boot_calls_def)
qed

text \<open>What a step comes to, given what must hold when it succeeds.\<close>

definition goes :: "boot_env \<Rightarrow> (boot \<Rightarrow> bool) \<Rightarrow> boot res \<Rightarrow> bool" where
  "goes e Q r = (case r of Inl f \<Rightarrow> f = NotEnabled \<or> start_stop e f | Inr b \<Rightarrow> Q b)"

lemma goes_simps [simp]: "goes e Q (Inl NotEnabled)" "goes e Q (Inr b) = Q b" "start_stop e f \<Longrightarrow> goes e Q (Inl f)"
  by (simp_all add: goes_def)

lemma goes_calls: "Q b \<Longrightarrow> goes e Q (bind_res (boot_calls e w cs) (\<lambda>_. Inr b))"
  by (rule calls_cases [where P = "\<lambda>r. goes e Q (bind_res r (\<lambda>_. Inr b))"]) simp_all

lemma calls_enabled [simp]: "bind_res (boot_calls e w cs) (\<lambda>_. Inr b) \<noteq> Inl NotEnabled"
  by (rule calls_cases [where P = "\<lambda>r. bind_res r (\<lambda>_. Inr b) \<noteq> Inl NotEnabled"]) simp_all

lemma calls_done: "bind_res (boot_calls e w cs) (\<lambda>_. Inr b) = Inr c \<Longrightarrow> c = b"
  by (auto simp: bind_res_Inr_iff)

section \<open>The invariant\<close>

definition has_sent :: "booting \<Rightarrow> bool" where
  "has_sent p \<longleftrightarrow> mch_num p = 1 \<and> c_at p \<in> {C_Sent, C_Ready, C_Menu}"

definition has_read :: "booting \<Rightarrow> bool" where
  "has_read p \<longleftrightarrow> mch_num p = 2 \<and> process p \<noteq> None"

definition number_ok :: "booting \<Rightarrow> bool" where
  "number_ok p \<longleftrightarrow>
     (case c_at p of
        C_Begin \<Rightarrow> mch_num p = 0 | C_Linked \<Rightarrow> mch_num p = 0 | C_Failed \<Rightarrow> mch_num p = 0
      | C_Two \<Rightarrow> mch_num p = 2 | C_Menu \<Rightarrow> mch_num p \<in> {1, 2} | _ \<Rightarrow> mch_num p = 1)"

definition server_ok :: "booting \<Rightarrow> bool" where
  "server_ok p \<longleftrightarrow> (linked p \<longrightarrow> s_at p \<noteq> S_Begin) \<and> (s_at p \<notin> {S_Begin, S_Listening} \<longrightarrow> linked p) \<and>
     (s_at p \<in> {S_Reading, S_Mapped, S_Listed, S_Uffd} \<longrightarrow> mch_num p = 2) \<and>
     (mch_num p = 2 \<longrightarrow> process p \<noteq> None \<longrightarrow> s_at p \<in> {S_Mapped, S_Listed, S_Uffd, S_Loop}) \<and>
     (s_at p \<in> {S_Mapped, S_Listed, S_Uffd} \<longrightarrow> process p \<noteq> None)"

definition globals_ok :: "boot_env \<Rightarrow> side \<Rightarrow> booting \<Rightarrow> bool" where
  "globals_ok e w p \<longleftrightarrow> addr_set p = (process p \<noteq> None) \<and>
     (mch_num p \<noteq> 2 \<longrightarrow> process p = (if has_sent p then Some (first_machine e w) else None)) \<and>
     (has_read p \<longrightarrow> process p =
        Some (if s_at p = S_Mapped then no_list (second_machine e w) else second_machine e w)) \<and>
     (has_sent p \<longrightarrow> fits e w) \<and>
     init_uffd p = (if mch_num p = 1 \<and> c_at p \<in> {C_Ready, C_Menu} \<or> has_read p \<and> s_at p \<in> {S_Uffd, S_Loop}
       then b_uffd e w else 0) \<and>
     (if c_at p = C_Menu
      then process p \<noteq> None \<and> handler_uffd p \<in> (if mch_num p = 1 then {Some (b_uffd e w)} else {Some 0, Some (b_uffd e w)})
      else handler_uffd p = None)"

definition connection_ok :: "boot_env \<Rightarrow> side \<Rightarrow> booting \<Rightarrow> booting \<Rightarrow> bool" where
  "connection_ok e w p q \<longleftrightarrow>
     linked q = (c_at p \<notin> {C_Begin, C_Failed, C_Retry}) \<and> (has_read q \<longrightarrow> has_sent p) \<and>
     inbox q = (if has_sent p \<and> \<not> has_read q then [first_record e w] else [])"

definition boot_inv :: "boot_env \<Rightarrow> boot \<Rightarrow> bool" where
  "boot_inv e b \<longleftrightarrow> (\<forall>w. number_ok (b w) \<and> server_ok (b w) \<and> globals_ok e w (b w) \<and>
     connection_ok e w (b w) (b (peer w)))"

lemmas boot_parts = number_ok_def server_ok_def globals_ok_def connection_ok_def has_sent_def has_read_def

lemma boot_inv_start: "boot_inv e boot_start"
  by (simp add: boot_inv_def boot_start_def boot_parts)

lemma boot_invD:
  assumes "boot_inv e b"
  shows "number_ok (b w)" "server_ok (b w)" "globals_ok e w (b w)"
    "connection_ok e w (b w) (b (peer w))" "connection_ok e (peer w) (b (peer w)) (b w)"
    "number_ok (b (peer w))" "server_ok (b (peer w))" "globals_ok e (peer w) (b (peer w))"
  using assms by (auto simp: boot_inv_def dest: spec [of _ "peer w"])

lemma boot_invI:
  assumes "number_ok (b w)" "server_ok (b w)" "globals_ok e w (b w)"
    "connection_ok e w (b w) (b (peer w))" "connection_ok e (peer w) (b (peer w)) (b w)"
    "number_ok (b (peer w))" "server_ok (b (peer w))" "globals_ok e (peer w) (b (peer w))"
  shows "boot_inv e b"
  unfolding boot_inv_def all_side [of _ w] using assms by simp

lemma boot_inv_update:
  assumes "boot_inv e b" and "number_ok p" "server_ok p" "globals_ok e w p"
    "connection_ok e w p (b (peer w))" "connection_ok e (peer w) (b (peer w)) p"
  shows "boot_inv e (b(w := p))"
  using assms boot_invD [OF assms(1), of w] by (intro boot_invI [where w = w]) simp_all

text \<open>What a move of one thread leaves as it was.\<close>

lemma move_frame [simp]:
  "has_sent (p\<lparr>s_at := x\<rparr>) = has_sent p" "has_read (p\<lparr>s_at := x\<rparr>) = has_read p"
  "number_ok (p\<lparr>s_at := x\<rparr>) = number_ok p"
  "connection_ok e w (p\<lparr>s_at := x\<rparr>) q = connection_ok e w p q"
  "connection_ok e w q (p\<lparr>s_at := x\<rparr>) = connection_ok e w q p"
  "has_sent (p\<lparr>init_uffd := u\<rparr>) = has_sent p" "has_read (p\<lparr>init_uffd := u\<rparr>) = has_read p"
  "number_ok (p\<lparr>init_uffd := u\<rparr>) = number_ok p" "server_ok (p\<lparr>init_uffd := u\<rparr>) = server_ok p"
  "connection_ok e w (p\<lparr>init_uffd := u\<rparr>) q = connection_ok e w p q"
  "connection_ok e w q (p\<lparr>init_uffd := u\<rparr>) = connection_ok e w q p"
  "connection_ok e w (p\<lparr>linked := l\<rparr>) q = connection_ok e w p q"
  "has_sent (p\<lparr>linked := l\<rparr>) = has_sent p" "has_read (p\<lparr>linked := l\<rparr>) = has_read p"
  "number_ok (p\<lparr>linked := l\<rparr>) = number_ok p" "globals_ok e w (p\<lparr>linked := l\<rparr>) = globals_ok e w p"
  "has_sent (p\<lparr>inbox := l'\<rparr>) = has_sent p" "has_read (p\<lparr>inbox := l'\<rparr>) = has_read p"
  "number_ok (p\<lparr>inbox := l'\<rparr>) = number_ok p" "server_ok (p\<lparr>inbox := l'\<rparr>) = server_ok p"
  "globals_ok e w (p\<lparr>inbox := l'\<rparr>) = globals_ok e w p"
  by (simp_all add: boot_parts cong: client_pc.case_cong)

lemma boot_inv_server:
  assumes "boot_inv e b" and "s_at (b w) = pc" and "server_ok ((b w)\<lparr>s_at := pc'\<rparr>)"
    and "globals_ok e w ((b w)\<lparr>s_at := pc'\<rparr>)"
  shows "boot_inv e (b(w := (b w)\<lparr>s_at := pc'\<rparr>))"
  using assms boot_invD [OF assms(1), of w] by (intro boot_inv_update) simp_all

lemma server_step:
  assumes inv: "boot_inv e b"
  shows "goes e (boot_inv e) (boot_server e w b)"
proof -
  note d = boot_invD [OF inv, of w]
  have fits: "fits e (peer w)" if "has_sent (b (peer w))" using d(8) that by (simp add: globals_ok_def)
  have go: "boot_inv e (b(w := (b w)\<lparr>s_at := pc\<rparr>))"
    if "server_ok ((b w)\<lparr>s_at := pc\<rparr>)" "globals_ok e w ((b w)\<lparr>s_at := pc\<rparr>)" for pc
    using boot_inv_server [OF inv refl that] .
  show ?thesis
  proof (cases "s_at (b w)")
    case S_Begin
    have "boot_inv e (b(w := (b w)\<lparr>s_at := S_Listening\<rparr>))"
      using d(2,3) S_Begin by (intro go) (auto simp: server_ok_def globals_ok_def has_read_def)
    then show ?thesis using S_Begin by (simp add: boot_server_def)
  next
    case S_Listening
    have "boot_inv e (b(w := (b w)\<lparr>s_at := S_Accepted\<rparr>))" if "linked (b w)"
      using d(2,3) S_Listening that by (intro go) (auto simp: server_ok_def globals_ok_def has_read_def)
    then show ?thesis using S_Listening by (simp add: boot_server_def Let_def)
  next
    case S_Accepted
    have "boot_inv e (b(w := (b w)\<lparr>s_at := (if mch_num (b w) = 2 then S_Reading else S_Loop)\<rparr>))"
      using d(2,3) S_Accepted by (intro go) (auto simp: server_ok_def globals_ok_def has_read_def)
    then show ?thesis using S_Accepted by (simp add: boot_server_def Let_def)
  next
    case S_Uffd
    have "boot_inv e (b(w := (b w)\<lparr>s_at := S_Loop\<rparr>))"
      using d(2,3) S_Uffd by (intro go) (auto simp: server_ok_def globals_ok_def has_read_def)
    then show ?thesis using S_Uffd by (simp add: boot_server_def goes_calls)
  next
    case S_Loop
    then show ?thesis by (simp add: boot_server_def)
  next
    case S_Reading
    have n: "mch_num (b w) = 2" "process (b w) = None" "linked (b w)"
      using d(2) S_Reading by (auto simp: server_ok_def)
    show ?thesis
    proof (cases "inbox (b w)")
      case Nil
      then show ?thesis using S_Reading by (simp add: boot_server_def)
    next
      case (Cons td rest)
      then have td: "td = first_record e (peer w)" "rest = []" "has_sent (b (peer w))"
        using d(5) by (auto simp: connection_ok_def split: if_splits)
      let ?p = "(b w)\<lparr>inbox := [], process := Some (no_list (second_machine e w)), addr_set := True, s_at := S_Mapped\<rparr>"
      have "boot_inv e (b(w := ?p))"
      proof (rule boot_inv_update [OF inv])
        show "number_ok ?p" using d(1) by (simp add: number_ok_def cong: client_pc.case_cong)
        show "server_ok ?p" using n by (simp add: server_ok_def)
        show "globals_ok e w ?p"
          using d(3) n S_Reading by (cases "c_at (b w) = C_Menu") (simp_all add: globals_ok_def has_sent_def has_read_def)
        show "connection_ok e w ?p (b (peer w))"
          using d(4) n by (simp add: connection_ok_def has_sent_def)
        show "connection_ok e (peer w) (b (peer w)) ?p"
          using d(5) n td by (simp add: connection_ok_def has_read_def)
      qed
      then show ?thesis
        using S_Reading Cons second_init [OF fits [OF td(3)]] by (simp add: boot_server_def td)
    qed
  next
    case S_Mapped
    have n: "mch_num (b w) = 2" "process (b w) = Some (no_list (second_machine e w))" "linked (b w)"
      using d(2,3) S_Mapped by (auto simp: server_ok_def globals_ok_def has_read_def)
    have sent: "has_sent (b (peer w))" using d(5) n by (simp add: connection_ok_def has_read_def)
    let ?p = "(b w)\<lparr>process := Some (second_machine e w), s_at := S_Listed\<rparr>"
    have "boot_inv e (b(w := ?p))"
    proof (rule boot_inv_update [OF inv])
      show "number_ok ?p" using d(1) n S_Mapped by (simp add: number_ok_def cong: client_pc.case_cong)
      show "server_ok ?p" using d(2) n S_Mapped by (simp add: server_ok_def)
      show "globals_ok e w ?p"
        using d(3) n S_Mapped by (cases "c_at (b w) = C_Menu") (simp_all add: globals_ok_def has_sent_def has_read_def)
      show "connection_ok e w ?p (b (peer w))"
        using d(4) n S_Mapped by (simp add: connection_ok_def has_sent_def)
      show "connection_ok e (peer w) (b (peer w)) ?p"
        using d(5) n S_Mapped by (simp add: connection_ok_def has_read_def)
    qed
    then show ?thesis
      using S_Mapped n(2) with_no_list [OF fits [OF sent]] by (simp add: boot_server_def)
  next
    case S_Listed
    have n: "mch_num (b w) = 2" "process (b w) = Some (second_machine e w)" "linked (b w)"
      using d(2,3) S_Listed by (auto simp: server_ok_def globals_ok_def has_read_def)
    let ?p = "(b w)\<lparr>init_uffd := b_uffd e w, s_at := S_Uffd\<rparr>"
    have "boot_inv e (b(w := ?p))"
    proof (rule boot_inv_update [OF inv])
      show "number_ok ?p" using d(1) n S_Listed by (simp add: number_ok_def cong: client_pc.case_cong)
      show "server_ok ?p" using d(2) n S_Listed by (simp add: server_ok_def)
      show "globals_ok e w ?p"
        using d(3) n S_Listed by (cases "c_at (b w) = C_Menu") (simp_all add: globals_ok_def has_sent_def has_read_def)
      show "connection_ok e w ?p (b (peer w))"
        using d(4) n S_Listed by (simp add: connection_ok_def has_sent_def)
      show "connection_ok e (peer w) (b (peer w)) ?p"
        using d(5) n S_Listed by (simp add: connection_ok_def has_read_def)
    qed
    then show ?thesis using S_Listed by (simp add: boot_server_def goes_calls)
  qed
qed

lemma boot_inv_both:
  assumes "number_ok p" "server_ok p" "globals_ok e w p" "connection_ok e w p q"
    "number_ok q" "server_ok q" "globals_ok e (peer w) q" "connection_ok e (peer w) q p"
  shows "boot_inv e (b(w := p, peer w := q))" and "boot_inv e (b(peer w := q, w := p))"
  using assms by (auto intro!: boot_invI [where w = w])

lemma client_step:
  assumes inv: "boot_inv e b"
  shows "goes e (boot_inv e) (boot_client e w b)"
proof -
  note d = boot_invD [OF inv, of w]
  note defs = number_ok_def server_ok_def globals_ok_def connection_ok_def has_sent_def has_read_def
  have linked: "boot_inv e (b(peer w := (b (peer w))\<lparr>linked := True\<rparr>, w := (b w)\<lparr>c_at := pc\<rparr>))"
    if "connects w b" "(c_at (b w), pc) \<in> {(C_Begin, C_Linked), (C_Retry, C_One)}" for pc
  proof (rule boot_inv_both(2))
    show "number_ok ((b w)\<lparr>c_at := pc\<rparr>)"
      using d(1) that(2) by (auto simp: number_ok_def)
    show "server_ok ((b w)\<lparr>c_at := pc\<rparr>)" using d(2) by (simp add: server_ok_def)
    have n: "mch_num (b w) = (if c_at (b w) = C_Begin then 0 else 1)" "c_at (b w) \<in> {C_Begin, C_Retry}" "pc \<in> {C_Linked, C_One}"
      using d(1) that(2) by (auto simp: number_ok_def)
    then have moved: "c_at (b w) \<noteq> C_Menu" "c_at (b w) \<noteq> C_Ready" "c_at (b w) \<noteq> C_Sent"
      "pc \<noteq> C_Menu" "pc \<noteq> C_Ready" "pc \<noteq> C_Sent" "mch_num (b w) \<noteq> 2"
      by auto
    show "globals_ok e w ((b w)\<lparr>c_at := pc\<rparr>)"
      using d(3) moved by (simp add: globals_ok_def has_sent_def has_read_def)
    show "connection_ok e w ((b w)\<lparr>c_at := pc\<rparr>) ((b (peer w))\<lparr>linked := True\<rparr>)"
      using d(4) n(3) moved by (auto simp: connection_ok_def has_sent_def)
    show "number_ok ((b (peer w))\<lparr>linked := True\<rparr>)" using d(6) by simp
    show "server_ok ((b (peer w))\<lparr>linked := True\<rparr>)"
      using d(7) that(1) by (auto simp: server_ok_def connects_def)
    show "globals_ok e (peer w) ((b (peer w))\<lparr>linked := True\<rparr>)" using d(8) by simp
    show "connection_ok e (peer w) ((b (peer w))\<lparr>linked := True\<rparr>) ((b w)\<lparr>c_at := pc\<rparr>)"
      using d(5) by (simp add: connection_ok_def has_sent_def has_read_def)
  qed
  show ?thesis
  proof (cases "c_at (b w)")
    case C_Begin
    have n: "mch_num (b w) = 0" using d(1) C_Begin by (simp add: number_ok_def)
    let ?p = "(b w)\<lparr>c_at := C_Failed\<rparr>"
    have "boot_inv e (b(w := ?p))"
    proof (rule boot_inv_update [OF inv])
      show "number_ok ?p" using d(1) n C_Begin by (simp add: number_ok_def cong: client_pc.case_cong)
      show "server_ok ?p" using d(2) n C_Begin by (simp add: server_ok_def)
      show "globals_ok e w ?p"
        using d(3) n C_Begin by (simp add: globals_ok_def has_sent_def has_read_def)
      show "connection_ok e w ?p (b (peer w))"
        using d(4) n C_Begin by (simp add: connection_ok_def has_sent_def)
      show "connection_ok e (peer w) (b (peer w)) ?p"
        using d(5) n C_Begin by (simp add: connection_ok_def has_read_def)
    qed
    then show ?thesis
      using C_Begin linked [of C_Linked] by (simp add: boot_client_def move_client_def link_def Let_def)
  next
    case C_Retry
    then show ?thesis
      using linked [of C_One] by (simp add: boot_client_def move_client_def link_def Let_def)
  next
    case C_Linked
    have n: "mch_num (b w) = 0" "process (b w) = None"
      using d(1,3) C_Linked by (simp_all add: number_ok_def globals_ok_def has_sent_def)
    let ?p = "(b w)\<lparr>mch_num := 2, c_at := C_Two\<rparr>"
    have "boot_inv e (b(w := ?p))"
    proof (rule boot_inv_update [OF inv])
      show "number_ok ?p" using d(1) n C_Linked by (simp add: number_ok_def cong: client_pc.case_cong)
      show "server_ok ?p" using d(2) n C_Linked by (simp add: server_ok_def)
      show "globals_ok e w ?p"
        using d(3) n C_Linked by (simp add: globals_ok_def has_sent_def has_read_def)
      show "connection_ok e w ?p (b (peer w))"
        using d(4) n C_Linked by (simp add: connection_ok_def has_sent_def)
      show "connection_ok e (peer w) (b (peer w)) ?p"
        using d(5) n C_Linked by (simp add: connection_ok_def has_read_def)
    qed
    then show ?thesis using C_Linked by (simp add: boot_client_def)
  next
    case C_Failed
    have n: "mch_num (b w) = 0" using d(1) C_Failed by (simp add: number_ok_def)
    let ?p = "(b w)\<lparr>mch_num := 1, c_at := C_Retry\<rparr>"
    have "boot_inv e (b(w := ?p))"
    proof (rule boot_inv_update [OF inv])
      show "number_ok ?p" using d(1) n C_Failed by (simp add: number_ok_def cong: client_pc.case_cong)
      show "server_ok ?p" using d(2) n C_Failed by (simp add: server_ok_def)
      show "globals_ok e w ?p"
        using d(3) n C_Failed by (simp add: globals_ok_def has_sent_def has_read_def)
      show "connection_ok e w ?p (b (peer w))"
        using d(4) n C_Failed by (simp add: connection_ok_def has_sent_def)
      show "connection_ok e (peer w) (b (peer w)) ?p"
        using d(5) n C_Failed by (simp add: connection_ok_def has_read_def)
    qed
    then show ?thesis using C_Failed by (simp add: boot_client_def)
  next
    case C_One
    have n: "mch_num (b w) = 1" using d(1) C_One by (simp add: number_ok_def)
    let ?p = "(b w)\<lparr>process := Some (first_machine e w), addr_set := True, c_at := C_Sent\<rparr>"
    let ?q = "(b (peer w))\<lparr>inbox := inbox (b (peer w)) @ [first_record e w]\<rparr>"
    have "boot_inv e (b(w := ?p, peer w := ?q))" if fits: "fits e w"
    proof (rule boot_inv_both(1))
      show "number_ok ?p" using n by (simp add: number_ok_def)
      show "server_ok ?p" using d(2) n by (simp add: server_ok_def)
      show "globals_ok e w ?p" using d(3) n C_One fits by (simp add: globals_ok_def has_sent_def has_read_def)
      show "connection_ok e w ?p ?q" using d(4) n C_One by (simp add: connection_ok_def has_sent_def has_read_def)
      show "number_ok ?q" "server_ok ?q" "globals_ok e (peer w) ?q" using d(6-8) by simp_all
      show "connection_ok e (peer w) ?q ?p" using d(5) n by (simp add: connection_ok_def has_sent_def has_read_def)
    qed
    then show ?thesis
      using C_One first_init [of e w] first_init_stops [of e w]
      by (cases "fits e w") (auto simp: boot_client_def Let_def)
  next
    case C_Sent
    have n: "mch_num (b w) = 1" using d(1) C_Sent by (simp add: number_ok_def)
    let ?p = "(b w)\<lparr>init_uffd := b_uffd e w, c_at := C_Ready\<rparr>"
    have "boot_inv e (b(w := ?p))"
    proof (rule boot_inv_update [OF inv])
      show "number_ok ?p" using d(1) n C_Sent by (simp add: number_ok_def cong: client_pc.case_cong)
      show "server_ok ?p" using d(2) n C_Sent by (simp add: server_ok_def)
      show "globals_ok e w ?p"
        using d(3) n C_Sent by (simp add: globals_ok_def has_sent_def has_read_def)
      show "connection_ok e w ?p (b (peer w))"
        using d(4) n C_Sent by (simp add: connection_ok_def has_sent_def)
      show "connection_ok e (peer w) (b (peer w)) ?p"
        using d(5) n C_Sent by (simp add: connection_ok_def has_read_def)
    qed
    then show ?thesis using C_Sent by (simp add: boot_client_def goes_calls)
  next
    case C_Ready
    have n: "mch_num (b w) = 1" using d(1) C_Ready by (simp add: number_ok_def)
    let ?p = "(b w)\<lparr>handler_uffd := Some (init_uffd (b w)), c_at := C_Menu\<rparr>"
    have "boot_inv e (b(w := ?p))"
    proof (rule boot_inv_update [OF inv])
      show "number_ok ?p" using d(1) n C_Ready by (simp add: number_ok_def cong: client_pc.case_cong)
      show "server_ok ?p" using d(2) n C_Ready by (simp add: server_ok_def)
      show "globals_ok e w ?p"
        using d(3) n C_Ready by (simp add: globals_ok_def has_sent_def has_read_def)
      show "connection_ok e w ?p (b (peer w))"
        using d(4) n C_Ready by (simp add: connection_ok_def has_sent_def)
      show "connection_ok e (peer w) (b (peer w)) ?p"
        using d(5) n C_Ready by (simp add: connection_ok_def has_read_def)
    qed
    then show ?thesis using C_Ready by (simp add: boot_client_def Let_def goes_calls)
  next
    case C_Two
    have n: "mch_num (b w) = 2" using d(1) C_Two by (simp add: number_ok_def)
    let ?p = "(b w)\<lparr>handler_uffd := Some (init_uffd (b w)), c_at := C_Menu\<rparr>"
    have "boot_inv e (b(w := ?p))"
      if "addr_set (b w)"
    proof (rule boot_inv_update [OF inv])
      show "number_ok ?p" using d(1) n C_Two that by (simp add: number_ok_def cong: client_pc.case_cong)
      show "server_ok ?p" using d(2) n C_Two that by (simp add: server_ok_def)
      show "globals_ok e w ?p"
        using d(3) n C_Two that by (simp add: globals_ok_def has_sent_def has_read_def)
      show "connection_ok e w ?p (b (peer w))"
        using d(4) n C_Two that by (simp add: connection_ok_def has_sent_def)
      show "connection_ok e (peer w) (b (peer w)) ?p"
        using d(5) n C_Two that by (simp add: connection_ok_def has_read_def)
    qed
    then show ?thesis using C_Two by (simp add: boot_client_def Let_def goes_calls)
  next
    case C_Menu
    then show ?thesis by (simp add: boot_client_def)
  qed
qed

interpretation booting: step_within "boot_step e" "boot_inv e" "\<lambda>t. True" "\<lambda>t b f. f = NotEnabled \<or> start_stop e f" for e
proof unfold_locales
  fix b :: boot and t :: thread and b' f
  assume "boot_inv e b"
  then have "goes e (boot_inv e) (boot_step e t b)"
    using server_step client_step by (cases t) auto
  then show "boot_step e t b = Inl f \<Longrightarrow> f = NotEnabled \<or> start_stop e f" and "boot_step e t b = Inr b' \<Longrightarrow> boot_inv e b'"
    by (auto simp: goes_def)
qed

lemma booted_inv: "booted e b \<Longrightarrow> boot_inv e b"
proof (induction rule: booted.induct)
  case start
  then show ?case by (rule boot_inv_start)
next
  case (step b t b')
  then show ?case by (blast intro: booting.step_stays)
qed

section \<open>How long a start takes\<close>

text \<open>The steps that the two threads of a process have made, read off where they stand.\<close>

definition server_moves :: "booting \<Rightarrow> nat" where
  "server_moves p =
     (case s_at p of S_Begin \<Rightarrow> 0 | S_Listening \<Rightarrow> 1 | S_Accepted \<Rightarrow> 2 | S_Reading \<Rightarrow> 3 | S_Mapped \<Rightarrow> 4
      | S_Listed \<Rightarrow> 5 | S_Uffd \<Rightarrow> 6 | S_Loop \<Rightarrow> if has_read p then 7 else 3)"

definition client_moves :: "booting \<Rightarrow> nat" where
  "client_moves p =
     (case c_at p of C_Begin \<Rightarrow> 0 | C_Linked \<Rightarrow> 1 | C_Failed \<Rightarrow> 1 | C_Retry \<Rightarrow> 2 | C_Two \<Rightarrow> 2 | C_One \<Rightarrow> 3
      | C_Sent \<Rightarrow> 4 | C_Ready \<Rightarrow> 5 | C_Menu \<Rightarrow> if mch_num p = 1 then 6 else 3)"

definition moves :: "boot \<Rightarrow> nat" where
  "moves b = server_moves (b One) + client_moves (b One) + (server_moves (b Two) + client_moves (b Two))"

lemma moves_side:
  "moves b = server_moves (b w) + client_moves (b w) + (server_moves (b (peer w)) + client_moves (b (peer w)))"
  by (cases w) (simp_all add: moves_def)

lemma server_step_moves:
  assumes inv: "boot_inv e b" and step: "boot_server e w b = Inr b'"
  shows "moves b' = Suc (moves b)"
proof -
  note d = boot_invD [OF inv, of w]
  have one: "moves (b(w := p)) = Suc (moves b)"
    if "server_moves p = Suc (server_moves (b w))" "client_moves p = client_moves (b w)" for p
    using that by (simp add: moves_side [of _ w])
  show ?thesis
  proof (cases "s_at (b w)")
    case S_Reading
    then obtain td rest where q: "inbox (b w) = td # rest"
      using step by (cases "inbox (b w)") (auto simp: boot_server_def)
    then have "td = first_record e (peer w)" "has_sent (b (peer w))"
      using d(5) by (auto simp: connection_ok_def split: if_splits)
    moreover from this have "fits e (peer w)" using d(8) by (simp add: globals_ok_def)
    ultimately show ?thesis
      using step S_Reading q second_init [of e w]
      by (auto simp: boot_server_def server_moves_def client_moves_def intro!: one)
  next
    case S_Accepted
    have "\<not> has_read (b w)" using d(2) S_Accepted by (auto simp: server_ok_def has_read_def)
    then show ?thesis
      using step S_Accepted by (auto simp: boot_server_def server_moves_def client_moves_def Let_def intro!: one)
  next
    case S_Uffd
    have "has_read (b w)" using d(2) S_Uffd by (auto simp: server_ok_def has_read_def)
    then show ?thesis
      using step S_Uffd by (auto simp: boot_server_def server_moves_def client_moves_def Let_def dest!: calls_done intro!: one)
  qed (use step in \<open>auto simp: boot_server_def server_moves_def client_moves_def Let_def dest!: calls_done split: if_splits
      intro!: one\<close>)
qed

lemma moves_link [simp]: "server_moves (p\<lparr>linked := l\<rparr>) = server_moves p" "client_moves (p\<lparr>linked := l\<rparr>) = client_moves p"
  "server_moves (p\<lparr>inbox := l'\<rparr>) = server_moves p" "client_moves (p\<lparr>inbox := l'\<rparr>) = client_moves p"
  by (simp_all add: server_moves_def client_moves_def cong: server_pc.case_cong client_pc.case_cong)

lemma client_step_moves:
  assumes inv: "boot_inv e b" and step: "boot_client e w b = Inr b'"
  shows "moves b' = Suc (moves b)"
proof -
  note d = boot_invD [OF inv, of w]
  have one: "moves b'' = Suc (moves b)"
    if "b'' w = p" "server_moves p = server_moves (b w)" "client_moves p = Suc (client_moves (b w))"
      "b'' (peer w) = q" "server_moves q = server_moves (b (peer w))" "client_moves q = client_moves (b (peer w))"
    for b'' p q
    using that by (simp add: moves_side [of _ w])
  have none: "process (b w) = None" if "c_at (b w) \<in> {C_Linked, C_Failed}"
    using d(1,3) that by (auto simp: number_ok_def globals_ok_def has_sent_def)
  show ?thesis
  proof (cases "c_at (b w)")
    case C_One
    then have "mch_num (b w) = 1" using d(1) by (simp add: number_ok_def)
    then show ?thesis
      using step C_One first_init [of e w] first_init_stops [of e w]
      by (cases "fits e w") (auto simp: boot_client_def Let_def server_moves_def client_moves_def has_read_def intro!: one)
  qed (use step none d(1) in \<open>auto simp: boot_client_def Let_def server_moves_def client_moves_def has_read_def
      number_ok_def move_client_def link_def dest!: calls_done split: if_splits intro!: one\<close>)
qed

lemma boot_run_moves:
  assumes "boot_inv e b" and "run_events (boot_step e) ts b = Inr b'"
  shows "boot_inv e b' \<and> moves b' = moves b + length ts"
  using assms
proof (induction ts arbitrary: b)
  case Nil
  then show ?case by simp
next
  case (Cons t ts)
  then obtain c where c: "boot_step e t b = Inr c" "run_events (boot_step e) ts c = Inr b'"
    by (auto simp: bind_res_Inr_iff)
  have "boot_inv e c" using booting.step_stays [OF Cons.prems(1) _ c(1)] by simp
  moreover have "moves c = Suc (moves b)"
    using server_step_moves client_step_moves Cons.prems(1) c(1) by (cases t) auto
  ultimately show ?case using Cons.IH [OF _ c(2)] by simp
qed

lemma moves_bound:
  assumes inv: "boot_inv e b"
  shows "moves b \<le> 19"
proof -
  have each: "server_moves (b w) + client_moves (b w) \<le> (if has_read (b w) then 10 else 9)" for w
  proof -
    have "server_moves (b w) \<le> (if has_read (b w) then 7 else 3)"
      using boot_invD(2) [OF inv, of w] by (auto simp: server_moves_def server_ok_def has_read_def split: server_pc.split)
    moreover have "client_moves (b w) \<le> (if mch_num (b w) = 2 then 3 else 6)"
      using boot_invD(1) [OF inv, of w] by (auto simp: client_moves_def number_ok_def split: client_pc.split)
    ultimately show ?thesis by (auto simp: has_read_def split: if_splits)
  qed
  have "\<not> (has_read (b One) \<and> has_read (b Two))"
    using boot_invD(4) [OF inv, of One] by (auto simp: connection_ok_def has_read_def has_sent_def)
  then show ?thesis using each [of One] each [of Two] by (auto simp: moves_def split: if_splits)
qed

section \<open>Where a start ends\<close>

text \<open>
  The four ends: \<open>w\<close> is machine 1 and the other machine 2, both at their menus; \<open>w\<close> is machine 1 and
  the other waits for an address that nothing will set, its first record still in the socket; both
  are machine 1, each with the other's first record in the socket; both are machine 2 and wait.
\<close>

definition paired :: "side \<Rightarrow> boot \<Rightarrow> bool" where
  "paired w b \<longleftrightarrow> mch_num (b w) = 1 \<and> mch_num (b (peer w)) = 2 \<and>
     list_all (\<lambda>v. s_at (b v) = S_Loop \<and> c_at (b v) = C_Menu \<and> inbox (b v) = []) [w, peer w]"

definition role_missed :: "boot_env \<Rightarrow> side \<Rightarrow> boot \<Rightarrow> bool" where
  "role_missed e w b \<longleftrightarrow> mch_num (b w) = 1 \<and> c_at (b w) = C_Menu \<and> s_at (b w) = S_Loop \<and>
     mch_num (b (peer w)) = 2 \<and> c_at (b (peer w)) = C_Two \<and> s_at (b (peer w)) = S_Loop \<and>
     process (b (peer w)) = None \<and> inbox (b (peer w)) = [first_record e w]"

definition both_first :: "boot_env \<Rightarrow> boot \<Rightarrow> bool" where
  "both_first e b \<longleftrightarrow> list_all (\<lambda>v. mch_num (b v) = 1 \<and> c_at (b v) = C_Menu \<and> s_at (b v) = S_Loop \<and>
     inbox (b v) = [first_record e (peer v)]) [One, Two]"

definition both_second :: "boot \<Rightarrow> bool" where
  "both_second b \<longleftrightarrow> list_all (\<lambda>v. mch_num (b v) = 2 \<and> c_at (b v) = C_Two \<and>
     (s_at (b v) = S_Reading \<or> s_at (b v) = S_Loop) \<and> process (b v) = None \<and> inbox (b v) = []) [One, Two]"

lemma at_restD:
  assumes "at_rest e b"
  shows "boot_server e w b = Inl NotEnabled" "boot_client e w b = Inl NotEnabled"
proof -
  have "boot_step e t b = Inl NotEnabled" for t using assms by (simp add: at_rest_def)
  from this [of "Server w"] this [of "Client w"]
  show "boot_server e w b = Inl NotEnabled" "boot_client e w b = Inl NotEnabled" by simp_all
qed

lemma rest_server:
  assumes inv: "boot_inv e b" and rest: "boot_server e w b = Inl NotEnabled"
  shows "s_at (b w) = S_Loop \<or> s_at (b w) = S_Reading \<and> inbox (b w) = [] \<or> s_at (b w) = S_Listening \<and> \<not> linked (b w)"
proof -
  have "inbox (b w) = []" if at: "s_at (b w) = S_Reading"
  proof (cases "inbox (b w)")
    case (Cons td r)
    then have "td = first_record e (peer w)" "has_sent (b (peer w))"
      using boot_invD(5) [OF inv, of w] by (auto simp: connection_ok_def split: if_splits)
    moreover from this have "fits e (peer w)" using boot_invD(8) [OF inv, of w] by (simp add: globals_ok_def)
    ultimately show ?thesis
      using rest at Cons second_init [of e w] by (simp add: boot_server_def)
  qed
  then show ?thesis
    using rest by (cases "s_at (b w)") (auto simp: boot_server_def Let_def split: if_splits)
qed

lemma rest_client:
  assumes inv: "boot_inv e b" and rest: "boot_client e w b = Inl NotEnabled"
  shows "c_at (b w) = C_Menu \<or> c_at (b w) = C_Two \<and> \<not> addr_set (b w) \<or> c_at (b w) = C_Retry \<and> \<not> connects w b"
  using rest first_init [of e w] first_init_stops [of e w]
  by (cases "c_at (b w)"; cases "fits e w") (auto simp: boot_client_def Let_def split: if_splits)

lemma rest_where:
  assumes inv: "boot_inv e b" and rest: "at_rest e b"
  shows "s_at (b w) = S_Loop \<or> s_at (b w) = S_Reading \<and> inbox (b w) = []"
    and "c_at (b w) = C_Menu \<or> c_at (b w) = C_Two \<and> process (b w) = None"
proof -
  have client: "c_at (b v) \<in> {C_Menu, C_Two} \<and> (c_at (b v) = C_Two \<longrightarrow> process (b v) = None)" for v
    using rest_client [OF inv at_restD(2) [OF rest], of v] rest_server [OF inv at_restD(1) [OF rest], of "peer v"]
      boot_invD(3) [OF inv, of v]
    by (auto simp: connects_def globals_ok_def)
  then show "c_at (b w) = C_Menu \<or> c_at (b w) = C_Two \<and> process (b w) = None" by auto
  have "linked (b w)"
    using client [of "peer w"] boot_invD(5) [OF inv, of w] by (auto simp: connection_ok_def)
  then show "s_at (b w) = S_Loop \<or> s_at (b w) = S_Reading \<and> inbox (b w) = []"
    using rest_server [OF inv at_restD(1) [OF rest], of w] by auto
qed

lemma rest_first:
  assumes inv: "boot_inv e b" and rest: "at_rest e b" and "mch_num (b w) = 1"
  shows "c_at (b w) = C_Menu" "s_at (b w) = S_Loop" "has_sent (b w)" "\<not> has_read (b w)"
  using rest_where [OF inv rest, of w] boot_invD(1,2) [OF inv, of w] assms(3)
  by (auto simp: number_ok_def server_ok_def has_sent_def has_read_def)

lemma rest_number:
  assumes inv: "boot_inv e b" and rest: "at_rest e b"
  shows "mch_num (b w) = 1 \<or> mch_num (b w) = 2"
  using rest_where(2) [OF inv rest, of w] boot_invD(1) [OF inv, of w] by (auto simp: number_ok_def)

lemma rest_pair:
  assumes inv: "boot_inv e b" and rest: "at_rest e b" and "mch_num (b w) = 1" "mch_num (b (peer w)) = 2"
  shows "paired w b \<or> role_missed e w b"
proof -
  note f = rest_first [OF inv rest assms(3)] and s = rest_where [OF inv rest, of "peer w"]
  note d = boot_invD [OF inv, of w]
  have mine: "inbox (b w) = []" using d(5) assms(3,4) by (simp add: connection_ok_def has_sent_def)
  show ?thesis
  proof (cases "has_read (b (peer w))")
    case True
    then have read: "process (b (peer w)) \<noteq> None" by (simp add: has_read_def)
    have "inbox (b (peer w)) = []" using d(4) True by (simp add: connection_ok_def)
    moreover have "s_at (b (peer w)) \<noteq> S_Reading" using d(7) read assms(4) by (auto simp: server_ok_def)
    then have "s_at (b (peer w)) = S_Loop" using s(1) by blast
    moreover have "c_at (b (peer w)) = C_Menu" using s(2) read by blast
    ultimately show ?thesis using f mine assms by (simp add: paired_def)
  next
    case False
    then have "process (b (peer w)) = None" "inbox (b (peer w)) = [first_record e w]"
      using d(4) f assms(4) by (simp_all add: connection_ok_def has_read_def)
    moreover from this have "s_at (b (peer w)) = S_Loop" using s(1) by simp
    moreover have "c_at (b (peer w)) \<noteq> C_Menu" using d(8) calculation(1) by (auto simp: globals_ok_def)
    then have "c_at (b (peer w)) = C_Two" using s(2) by blast
    ultimately show ?thesis using f assms by (simp add: role_missed_def)
  qed
qed

lemma rest_ends:
  assumes inv: "boot_inv e b" and rest: "at_rest e b"
  shows "paired One b \<or> paired Two b \<or> role_missed e One b \<or> role_missed e Two b \<or> both_first e b \<or> both_second b"
proof -
  consider (a) "mch_num (b One) = 1" "mch_num (b Two) = 2" | (b) "mch_num (b Two) = 1" "mch_num (b One) = 2"
    | (c) "mch_num (b One) = 1" "mch_num (b Two) = 1" | (d) "mch_num (b One) = 2" "mch_num (b Two) = 2"
    using rest_number [OF inv rest] by metis
  then show ?thesis
  proof cases
    case a
    then show ?thesis using rest_pair [OF inv rest, of One] by auto
  next
    case b
    then show ?thesis using rest_pair [OF inv rest, of Two] by auto
  next
    case c
    then have "inbox (b w) = [first_record e (peer w)]" for w
      using rest_first [OF inv rest] boot_invD(5) [OF inv, of w] by (cases w) (simp_all add: connection_ok_def)
    then show ?thesis using c rest_first [OF inv rest] by (simp add: both_first_def)
  next
    case d
    then have q: "process (b w) = None \<and> inbox (b w) = []" for w
      using boot_invD(4,5) [OF inv, of w] by (cases w) (auto simp: connection_ok_def has_sent_def has_read_def)
    then have "c_at (b w) = C_Two" for w
      using rest_where(2) [OF inv rest, of w] boot_invD(3) [OF inv, of w] by (auto simp: globals_ok_def)
    then show ?thesis using d q rest_where(1) [OF inv rest] by (auto simp: both_second_def)
  qed
qed

section \<open>Every start ends\<close>

lemma start_extends:
  assumes "boot_inv e b"
  shows "\<exists>us. case run_events (boot_step e) us b of Inl f \<Rightarrow> start_stop e f | Inr c \<Rightarrow> at_rest e c"
  using assms
proof (induction "19 - moves b" arbitrary: b rule: less_induct)
  case less
  show ?case
  proof (cases "at_rest e b")
    case True
    then have "case run_events (boot_step e) [] b of Inl f \<Rightarrow> start_stop e f | Inr c \<Rightarrow> at_rest e c" by simp
    then show ?thesis by (rule exI)
  next
    case False
    then obtain t where t: "boot_step e t b \<noteq> Inl NotEnabled" by (auto simp: at_rest_def)
    show ?thesis
    proof (cases "boot_step e t b")
      case (Inl f)
      then have "case run_events (boot_step e) [t] b of Inl f \<Rightarrow> start_stop e f | Inr c \<Rightarrow> at_rest e c"
        using booting.step_stops [OF less.prems _ Inl] t by simp
      then show ?thesis by (rule exI)
    next
      case (Inr b')
      then have one: "run_events (boot_step e) [t] b = Inr b'" by simp
      have m: "boot_inv e b'" "moves b' = Suc (moves b)"
        using boot_run_moves [OF less.prems one] by simp_all
      then have "19 - moves b' < 19 - moves b" using moves_bound [OF m(1)] by simp
      then obtain us where "case run_events (boot_step e) us b' of Inl f \<Rightarrow> start_stop e f | Inr c \<Rightarrow> at_rest e c"
        using less.hyps m(1) by blast
      then have "case run_events (boot_step e) (t # us) b of Inl f \<Rightarrow> start_stop e f | Inr c \<Rightarrow> at_rest e c"
        using Inr by simp
      then show ?thesis by (rule exI)
    qed
  qed
qed

text \<open>
  C17. Start the two processes in any order: whatever the scheduler does, their four threads make at most
  nineteen steps before the menus. A process ends only for a page count that \<open>mmap\<close> refuses or that has more
  pages than \<open>list_MSI\<close> has entries, or because a call fails. Every schedule can be continued until that happens
  or no thread can move, and then the start has ended in one of four ways: one process is machine 1 and
  the other machine 2, both at their menus; machine 2's server looked at \<open>mch_num\<close> too early, so that
  it waits for ever for an address; both took themselves for machine 1; or both for machine 2, waiting.
\<close>

theorem start_ends:
  "case run_events (boot_step e) ts boot_start of Inl f \<Rightarrow> f = NotEnabled \<or> start_stop e f
    | Inr b \<Rightarrow> length ts \<le> 19 \<and>
        (\<exists>us. case run_events (boot_step e) us b of Inl f \<Rightarrow> start_stop e f | Inr c \<Rightarrow> at_rest e c) \<and>
        (if at_rest e b
         then paired One b \<or> paired Two b \<or> role_missed e One b \<or> role_missed e Two b \<or> both_first e b \<or> both_second b
         else True)"
proof (cases "run_events (boot_step e) ts boot_start")
  case (Inl f)
  have "list_all (\<lambda>_. True) ts" by (simp add: list_all_iff)
  then have "f = NotEnabled \<or> start_stop e f"
    using booting.run_stops [OF boot_inv_start] Inl by blast
  then show ?thesis using Inl by simp
next
  case (Inr b)
  have inv: "boot_inv e b" and "moves b = length ts"
    using boot_run_moves [OF boot_inv_start Inr]
    by (auto simp: moves_def server_moves_def client_moves_def boot_start_def)
  then have "length ts \<le> 19" using moves_bound [OF inv] by simp
  then show ?thesis using Inr start_extends [OF inv] rest_ends [OF inv] by simp
qed

text \<open>When nothing fails and the page counts are from 1 to 4096, no process ends.\<close>

definition start_works :: "boot_env \<Rightarrow> bool" where
  "start_works e \<longleftrightarrow> b_page_size e \<in> {1<..2 ^ 18} \<and> (\<forall>w c. \<not> b_fails e w c) \<and>
     (\<forall>w. 0 < b_pages e w \<and> b_pages e w \<le> MAX_SIZE)"

lemma start_worksD:
  assumes "start_works e"
  shows "fits e w" "boot_calls e w cs = Inr ()" "\<not> start_stop e f"
proof -
  have len: "\<not> mmap_fails True (mmap_len (b_page_size e) (b_pages e v))" for v
    using assms mmap_len_pages(2) [of "b_pages e v" "b_page_size e"] by (auto simp: start_works_def)
  then show "fits e w" "\<not> start_stop e f" using assms by (auto simp: start_works_def fits_def start_stop_def not_less)
  have "first_failure (map (\<lambda>c. (b_fails e w c, boot_msg c)) cs) = None"
    using assms by (auto simp: start_works_def)
  then show "boot_calls e w cs = Inr ()" by (simp only: boot_calls_def option.case)
qed

definition sample_boot :: boot_env where
  "sample_boot = \<lparr>b_page_size = 8, b_pages = (\<lambda>_. 3), b_garbage = (\<lambda>_. zero_info),
     b_recvbuf = (\<lambda>_. replicate 8 NUL), b_msgbuf = (\<lambda>_. []), b_uffd = (\<lambda>_. 5), b_fails = (\<lambda>_ _. False)\<rparr>"

lemma sample_boot_works: "start_works sample_boot"
  by (simp add: start_works_def sample_boot_def MAX_SIZE_def)

section \<open>The ends are reached\<close>

text \<open>Process \<open>One\<close> is started first and process \<open>Two\<close> when \<open>One\<close>'s first \<open>connect\<close> has failed.\<close>

definition up_to_link :: "thread list" where
  "up_to_link = [Server One, Client One, Client One, Server Two, Client Two]"

definition good_start :: "thread list" where
  "good_start = up_to_link @ [Client Two, Client One, Server Two, Server Two, Client One, Client One, Client One,
     Server Two, Server Two, Server Two, Server Two, Client Two, Server One, Server One]"

definition hasty_menu :: "thread list" where
  "hasty_menu = up_to_link @ [Client Two, Client One, Server Two, Server Two, Client One, Client One, Client One,
     Server Two, Client Two, Server Two, Server Two, Server Two, Server One, Server One]"

definition hasty_server :: "thread list" where
  "hasty_server = up_to_link @ [Client One, Server Two, Server Two, Client Two, Client One, Client One, Client One,
     Server One, Server One]"

definition same_time_fail :: "thread list" where
  "same_time_fail = concat (map (\<lambda>t. [t One, t Two]) [Client, Server, Client, Client, Client, Client, Client,
     Server, Server])"

definition same_time_connect :: "thread list" where
  "same_time_connect = concat (map (\<lambda>t. [t One, t Two]) [Server, Client, Client, Server, Server])"

lemmas schedules = up_to_link_def good_start_def hasty_menu_def hasty_server_def same_time_fail_def
  same_time_connect_def

lemma at_rest_threads: "at_rest e b \<longleftrightarrow>
    list_all (\<lambda>w. boot_server e w b = Inl NotEnabled \<and> boot_client e w b = Inl NotEnabled) [One, Two]"
proof -
  have "(\<forall>t. P t) \<longleftrightarrow> list_all (\<lambda>w. P (Server w) \<and> P (Client w)) [One, Two]" for P
    by (auto, metis thread.exhaust side.exhaust)
  then show ?thesis by (simp add: at_rest_def)
qed

lemmas run_start = run_events.simps boot_step.simps boot_server_def boot_client_def boot_start_def connects_def
  link_def move_client_def

lemma good_start_runs:
  "start_works e \<Longrightarrow> \<exists>b. run_events (boot_step e) good_start boot_start = Inr b \<and> at_rest e b \<and>
     paired One b \<and> handler_uffd (b Two) = Some (b_uffd e Two)"
  by (simp add: schedules run_start first_init second_init [of _ Two, simplified] start_worksD paired_def at_rest_threads Let_def)

lemma hasty_menu_runs:
  "start_works e \<Longrightarrow> \<exists>b. run_events (boot_step e) hasty_menu boot_start = Inr b \<and> at_rest e b \<and>
     paired One b \<and> handler_uffd (b Two) = Some 0 \<and> init_uffd (b Two) = b_uffd e Two"
  by (simp add: schedules run_start first_init second_init [of _ Two, simplified] start_worksD paired_def at_rest_threads Let_def)

lemma hasty_server_runs:
  "start_works e \<Longrightarrow> \<exists>b. run_events (boot_step e) hasty_server boot_start = Inr b \<and> at_rest e b \<and> role_missed e One b"
  by (simp add: schedules run_start first_init start_worksD role_missed_def at_rest_threads Let_def)

lemma same_time_fail_runs:
  "start_works e \<Longrightarrow> \<exists>b. run_events (boot_step e) same_time_fail boot_start = Inr b \<and> at_rest e b \<and> both_first e b"
  by (simp add: schedules run_start first_init start_worksD both_first_def at_rest_threads Let_def)

lemma same_time_connect_runs:
  "\<exists>b. run_events (boot_step e) same_time_connect boot_start = Inr b \<and> at_rest e b \<and> both_second b"
  by (simp add: schedules run_start both_second_def at_rest_threads Let_def)

text \<open>
  C18. When no call fails and the pages fit, each of the four ends does happen, and the good one in two ways: in the schedule \<open>hasty_menu\<close> machine 2's
  client leaves its wait as soon as \<open>addr\<close> is set, and hands the fault handler descriptor 0, before
  the server has opened the real one.
\<close>

theorem start_races:
  assumes "start_works e"
  shows "list_all (\<lambda>(ts, P). case run_events (boot_step e) ts boot_start of
      Inl _ \<Rightarrow> False | Inr b \<Rightarrow> at_rest e b \<and> P b)
    [(good_start, \<lambda>b. paired One b \<and> handler_uffd (b Two) = Some (b_uffd e Two)),
     (hasty_menu, \<lambda>b. paired One b \<and> handler_uffd (b Two) = Some 0 \<and> init_uffd (b Two) = b_uffd e Two),
     (hasty_server, role_missed e One),
     (same_time_fail, both_first e),
     (same_time_connect, both_second)]"
  using good_start_runs [OF assms] hasty_menu_runs [OF assms] hasty_server_runs [OF assms]
    same_time_fail_runs [OF assms] same_time_connect_runs [of e]
  by auto

theorem start_races_witness:
  "list_all (\<lambda>(ts, P). case run_events (boot_step sample_boot) ts boot_start of
      Inl _ \<Rightarrow> False | Inr b \<Rightarrow> at_rest sample_boot b \<and> P b)
    [(good_start, \<lambda>b. paired One b \<and> handler_uffd (b Two) = Some (b_uffd sample_boot Two)),
     (hasty_menu, \<lambda>b. paired One b \<and> handler_uffd (b Two) = Some 0 \<and> init_uffd (b Two) = b_uffd sample_boot Two),
     (hasty_server, role_missed sample_boot One),
     (same_time_fail, both_first sample_boot),
     (same_time_connect, both_second)]"
  by (rule start_races [OF sample_boot_works])

section \<open>The commands after a good start\<close>

text \<open>The two processes at their menus, machine 1 first, as the system of theory \<open>Msi_System\<close>.\<close>

definition role :: "side \<Rightarrow> side \<Rightarrow> side" where
  "role w v = (if v = One then w else peer w)"

definition sys_of :: "side \<Rightarrow> boot \<Rightarrow> sys" where
  "sys_of w b = \<lparr>mach = (\<lambda>v. case process (b (role w v)) of Some mc \<Rightarrow> mc), requests = (\<lambda>_. []),
     replies = (\<lambda>_. []), printed = (\<lambda>_. [])\<rparr>"

lemma paired_machines:
  assumes inv: "boot_inv e b" and pair: "paired w b"
  shows "process (b w) = Some (first_machine e w)" "process (b (peer w)) = Some (second_machine e (peer w))"
    "handler_uffd (b w) = Some (b_uffd e w)" "handler_uffd (b (peer w)) \<in> {Some 0, Some (b_uffd e (peer w))}"
  using boot_invD(3,8) [OF inv, of w] pair
  by (simp_all add: globals_ok_def paired_def has_sent_def has_read_def)

lemma sys_of_init:
  assumes inv: "boot_inv e b" and pair: "paired w b" and mem: "\<not> b_fails e (peer w) B_mmap"
  shows "init_sys (b_page_size e) (b_pages e w) (b_garbage e w) (b_recvbuf e \<circ> role w) (b_msgbuf e \<circ> role w) =
    Inr (sys_of w b)"
proof -
  have fits: "fits e w"
    using boot_invD(3) [OF inv, of w] pair by (simp add: globals_ok_def paired_def has_sent_def)
  then have "\<not> b_fails e w B_mmap" by (simp add: fits_def mmap_fails_def)
  then have "client_init_mch1 True (b_page_size e) (b_pages e w) (b_garbage e w) (b_recvbuf e w) (b_msgbuf e w) =
      Inr (first_record e w, first_machine e w)"
    "server_init_mch2 True (b_page_size e) (first_record e w) (b_recvbuf e (peer w)) (b_msgbuf e (peer w)) =
      Inr (second_machine e (peer w))"
    using first_init [OF fits] second_init [of e "peer w"] fits mem by simp_all
  moreover have "(case v of One \<Rightarrow> first_machine e w | Two \<Rightarrow> second_machine e (peer w)) =
      (case process (b (role w v)) of Some mc \<Rightarrow> mc)" for v
    using paired_machines [OF inv pair] by (cases v) (simp_all add: role_def)
  ultimately show ?thesis
    by (simp add: init_sys_def sys_of_def role_def fun_eq_iff)
qed

text \<open>
  C19. When a start ends with the two machines paired, each with its fault handler on its own descriptor and with
  the memory it asked for, their states are exactly the initial state of the command properties, whichever
  process became machine 1, and so every sequence of commands on existing pages, with lines that
  fit and typed one at a time, returns, with the page states of the protocol.
\<close>

theorem paired_start_runs_commands:
  assumes "booted e b" and "paired w b" and "handler_uffd (b (peer w)) = Some (b_uffd e (peer w))"
    and "\<not> b_fails e (peer w) B_mmap" and "b_pages e w = int N"
    and "b_page_size e \<in> {1<..2 ^ 18}" and "buffers_ok (b_page_size e) (b_recvbuf e)"
    and "list_all (\<lambda>(w, c). cmd_ok N (b_page_size e) c) cs"
  shows "\<exists>t. run_events sync_cmd cs (sys_of w b) = Inr t \<and> finished t \<and>
    page_states t = fold (spec_cmd N) cs (\<lambda>_ _. Inv) \<and> (\<forall>v. handler_uffd (b v) = Some (b_uffd e v))"
proof -
  have inv: "boot_inv e b" using booted_inv assms(1) .
  have "fits e w"
    using boot_invD(3) [OF inv, of w] assms(2) by (simp add: globals_ok_def paired_def has_sent_def)
  then have N: "N \<in> {1..4096}"
    using assms(5) by (cases N) (auto simp: fits_def MAX_SIZE_def mmap_fails_def mmap_len_def to_uint64_def)
  have "buffers_ok (b_page_size e) (b_recvbuf e \<circ> role w)"
    using assms(7) by (cases w) (auto simp: buffers_ok_def role_def)
  then obtain s where "init_sys (b_page_size e) (int N) (b_garbage e w) (b_recvbuf e \<circ> role w)
      (b_msgbuf e \<circ> role w) = Inr s" "good N (b_page_size e) s" "page_states s = (\<lambda>_ _. Inv)"
    using init_good [OF assms(6) N] by blast
  with sys_of_init [OF inv assms(2,4)] assms(5)
  have g: "good N (b_page_size e) (sys_of w b)" "page_states (sys_of w b) = (\<lambda>_ _. Inv)" by simp_all
  then obtain t where "run_events sync_cmd cs (sys_of w b) = Inr t" "good N (b_page_size e) t"
    "page_states t = fold (spec_cmd N) cs (\<lambda>_ _. Inv)"
    using msi_run.run_refines [OF g(1) assms(8)] by auto
  moreover have "handler_uffd (b v) = Some (b_uffd e v)" for v
    using paired_machines(3) [OF inv assms(2)] assms(3) side_eq [of v w] by auto
  ultimately show ?thesis using good_finished by blast
qed

lemma booted_run: "run_events (boot_step e) ts b = Inr c \<Longrightarrow> booted e b \<Longrightarrow> booted e c"
  by (induction ts arbitrary: b) (auto simp: bind_res_Inr_iff intro: booted.step)

theorem paired_start_runs_commands_witness:
  "\<exists>b t. run_events (boot_step sample_boot) good_start boot_start = Inr b \<and>
    run_events sync_cmd sample_cmds (sys_of One b) = Inr t \<and> finished t \<and>
    page_states t = fold (spec_cmd 3) sample_cmds (\<lambda>_ _. Inv) \<and> (\<forall>v. handler_uffd (b v) = Some 5)"
proof -
  obtain b where b: "run_events (boot_step sample_boot) good_start boot_start = Inr b" "paired One b"
    "handler_uffd (b (peer One)) = Some (b_uffd sample_boot (peer One))"
    using good_start_runs [OF sample_boot_works] by auto
  have "booted sample_boot b" using booted_run [OF b(1) booted.start] .
  then obtain t where "run_events sync_cmd sample_cmds (sys_of One b) = Inr t \<and> finished t \<and>
      page_states t = fold (spec_cmd 3) sample_cmds (\<lambda>_ _. Inv) \<and>
      (\<forall>v. handler_uffd (b v) = Some (b_uffd sample_boot v))"
    using paired_start_runs_commands [OF _ b(2,3), of 3 sample_cmds] sample_cmds_ok
    by (auto simp: sample_boot_def buffers_ok_def)
  then show ?thesis using b(1) by (auto simp: sample_boot_def)
qed

end
