(* ===== verification/Msi_Stream.thy ===== *)
theory Msi_Stream
  imports Msi_Machine
begin

text \<open>
  The socket between the machines of \<open>Project_3_new/part4/part4.c\<close> as what it is, a stream of
  bytes. The server passes \<open>sizeof(proc_info)\<close> to \<open>read\<close> and only looks whether the result is
  positive: when every \<open>read\<close> returns a whole record the server sees the records that were sent,
  one by one, which is how \<open>Msi_System\<close> models it; when one returns less it acts on a record half
  of which is the previous one, and on its other half as if it began a new record.
\<close>

section \<open>Integers in memory\<close>

type_synonym byte = "8 word"

text \<open>Two's complement, the least significant byte first.\<close>

fun le_bytes :: "nat \<Rightarrow> int \<Rightarrow> byte list" where
  "le_bytes 0 x = []"
| "le_bytes (Suc n) x = word_of_int x # le_bytes n (x div 256)"

fun le_value :: "byte list \<Rightarrow> int" where
  "le_value [] = 0"
| "le_value (b # bs) = uint b + 256 * le_value bs"

definition le_signed :: "byte list \<Rightarrow> int" where
  "le_signed bs = (if 2 * le_value bs < 256 ^ length bs then le_value bs else le_value bs - 256 ^ length bs)"

definition fits :: "nat \<Rightarrow> int \<Rightarrow> bool" where
  "fits n x \<longleftrightarrow> - (256 ^ n) \<le> 2 * x \<and> 2 * x < 256 ^ n"

lemma length_le_bytes [simp]: "length (le_bytes n x) = n"
  by (induction n arbitrary: x) simp_all

lemma le_value_bytes: "le_value (le_bytes n x) = x mod 256 ^ n"
proof (induction n arbitrary: x)
  case (Suc n)
  have "uint (word_of_int x :: byte) = x mod 256" by (simp add: uint_word_of_int)
  moreover have "x mod (256 * 256 ^ n) = 256 * (x div 256 mod 256 ^ n) + x mod 256"
    by (rule zmod_zmult2_eq) simp
  ultimately show ?case using Suc by simp
qed simp

lemma le_signed_bytes [simp]:
  assumes "fits n x"
  shows "le_signed (le_bytes n x) = x"
proof (cases "0 \<le> x")
  case True
  then have "x mod 256 ^ n = x" using assms by (intro mod_pos_pos_trivial) (auto simp: fits_def)
  then show ?thesis using assms by (simp add: le_signed_def le_value_bytes fits_def)
next
  case False
  have "x mod 256 ^ n = (x + 256 ^ n) mod 256 ^ n" by simp
  also have "\<dots> = x + 256 ^ n" using assms False by (intro mod_pos_pos_trivial) (auto simp: fits_def)
  finally show ?thesis using assms False by (simp add: le_signed_def le_value_bytes fits_def)
qed

section \<open>The record in memory\<close>

definition slots :: nat where
  "slots = 4096"

text \<open>The fields \<open>addr\<close> and \<open>flush\<close> travel with a record although nothing reads them.\<close>

type_synonym wire = "int \<times> (nat \<Rightarrow> int) \<times> proc_info"

definition int_array :: "(nat \<Rightarrow> int) \<Rightarrow> byte list" where
  "int_array f = concat (map (\<lambda>i. le_bytes 4 (f i)) [0..<slots])"

definition wire_head :: "int \<Rightarrow> proc_info \<Rightarrow> byte list" where
  "wire_head addr td = le_bytes 8 addr @ le_bytes 8 (page_num td) @ le_bytes 8 (page_count td)"

definition wire_arrays :: "(nat \<Rightarrow> int) \<Rightarrow> proc_info \<Rightarrow> byte list" where
  "wire_arrays flush td = concat (map int_array
     [read_signal td, pagefault_signal td, BusRdx td, invalidate_signal td, BusUpgr td, flush])"

fun encode_info :: "wire \<Rightarrow> byte list" where
  "encode_info (addr, flush, td) = wire_head addr td @ wire_arrays flush td @ le_bytes 8 (access_page td)"

definition sizeof_info :: nat where
  "sizeof_info = 32 + 24 * slots"

definition long_at :: "nat \<Rightarrow> byte list \<Rightarrow> int" where
  "long_at off buf = le_signed (take 8 (drop off buf))"

definition array_at :: "nat \<Rightarrow> byte list \<Rightarrow> nat \<Rightarrow> int" where
  "array_at k buf i = (if i < slots then le_signed (take 4 (drop (24 + 4 * slots * k + 4 * i) buf)) else 0)"

definition decode_info :: "byte list \<Rightarrow> proc_info" where
  "decode_info buf = \<lparr>page_num = long_at 8 buf, page_count = long_at 16 buf,
     read_signal = array_at 0 buf, pagefault_signal = array_at 1 buf, BusRdx = array_at 2 buf,
     invalidate_signal = array_at 3 buf, BusUpgr = array_at 4 buf, access_page = long_at (24 + 24 * slots) buf\<rparr>"

definition signals_ok :: "(nat \<Rightarrow> int) \<Rightarrow> bool" where
  "signals_ok f \<longleftrightarrow> (\<forall>i. if i < slots then fits 4 (f i) else f i = 0)"

definition info_ok :: "proc_info \<Rightarrow> bool" where
  "info_ok td \<longleftrightarrow> fits 8 (page_num td) \<and> fits 8 (page_count td) \<and> fits 8 (access_page td) \<and>
     list_all signals_ok [read_signal td, pagefault_signal td, BusRdx td, invalidate_signal td, BusUpgr td]"

section \<open>The server's reads\<close>

text \<open>
  One pass of the server's loop in which \<open>read\<close> returns \<open>k\<close> bytes: they replace the first bytes of
  \<open>recv_data\<close>, and the whole of it is handled. The state is what was sent, what is in the
  stream, \<open>recv_data\<close> and the machine.
\<close>

type_synonym reader = "char list \<times> byte list \<times> byte list \<times> machine"

fun server_read :: "nat \<Rightarrow> reader \<Rightarrow> reader res" where
  "server_read k (sent, stream, recv_data, mc) =
     (if k = 0 \<or> length stream < k \<or> sizeof_info < k then Inl NotEnabled
      else
        let buf = overlay recv_data 0 (take k stream)
        in bind_res (server_handle (decode_info buf) mc) (\<lambda>(bytes, mc).
             Inr (sent @ bytes, drop k stream, buf, mc)))"

text \<open>The same when records arrive whole.\<close>

fun serve_record :: "proc_info \<Rightarrow> char list \<times> machine \<Rightarrow> (char list \<times> machine) res" where
  "serve_record td (sent, mc) =
     bind_res (server_handle td mc) (\<lambda>(bytes, mc). Inr (sent @ bytes, mc))"

section \<open>Decoding what was encoded\<close>

lemma length_int_array [simp]: "length (int_array f) = 4 * slots"
  by (simp add: int_array_def length_concat comp_def sum_list_triv)

lemma length_wire_head [simp]: "length (wire_head a td) = 24"
  by (simp add: wire_head_def)

lemma length_wire_arrays [simp]: "length (wire_arrays f td) = 24 * slots"
  by (simp add: wire_arrays_def)

lemma length_encode_info [simp]: "length (encode_info m) = sizeof_info"
  by (cases m) (simp add: sizeof_info_def)

lemma take_drop_block:
  "length pre = off \<Longrightarrow> length x = n \<Longrightarrow> take n (drop off (pre @ x @ post)) = x"
  by simp

lemma concat_block:
  assumes "i < n" and "\<And>j. length (g j) = w"
  shows "take w (drop (w * i) (concat (map g [0..<n]) @ post)) = g i"
proof -
  have "[0..<n] = [0..<i] @ i # [Suc i..<n]"
    using assms(1) by (metis less_imp_le_nat upt_add_eq_append upt_conv_Cons le_add_diff_inverse zero_le)
  moreover have "length (concat (map g [0..<i])) = w * i"
    using assms(2) by (simp add: length_concat comp_def sum_list_triv)
  ultimately show ?thesis using assms(2) by simp
qed

lemma int_array_at:
  assumes "length pre = off" and "i < slots"
  shows "take 4 (drop (off + 4 * i) (pre @ int_array f @ post)) = le_bytes 4 (f i)"
proof -
  have "drop (off + 4 * i) (pre @ int_array f @ post) = drop (4 * i) (int_array f @ post)"
    using assms(1) by simp
  then show ?thesis
    using concat_block [OF assms(2), of "\<lambda>i. le_bytes 4 (f i)" 4 post] by (simp add: int_array_def)
qed

lemma array_at_block:
  assumes "length pre = 24 + 4 * slots * k" and "signals_ok f"
  shows "array_at k (pre @ int_array f @ post) = f"
proof
  fix i
  show "array_at k (pre @ int_array f @ post) i = f i"
    using assms(2) int_array_at [OF assms(1), of i f post]
    by (auto simp: array_at_def signals_ok_def split: if_splits dest: spec [of _ i])
qed

lemma long_at_block:
  assumes "length pre = off" and "fits 8 x"
  shows "long_at off (pre @ le_bytes 8 x @ post) = x"
  using assms by (simp add: long_at_def)

lemma decode_layout:
  assumes "fits 8 pn" "fits 8 pc" "fits 8 ap" "signals_ok rs" "signals_ok ps" "signals_ok bx" "signals_ok iv" "signals_ok bu"
  shows "decode_info (le_bytes 8 a @ le_bytes 8 pn @ le_bytes 8 pc @ int_array rs @ int_array ps @ int_array bx @
      int_array iv @ int_array bu @ int_array fl @ le_bytes 8 ap) =
    \<lparr>page_num = pn, page_count = pc, read_signal = rs, pagefault_signal = ps, BusRdx = bx, invalidate_signal = iv,
     BusUpgr = bu, access_page = ap\<rparr>" (is "decode_info ?b = _")
proof -
  let ?h = "le_bytes 8 a @ le_bytes 8 pn @ le_bytes 8 pc"
  have "long_at 8 ?b = pn" using long_at_block [of "le_bytes 8 a" 8 pn] assms by simp
  moreover have "long_at 16 ?b = pc" using long_at_block [of "le_bytes 8 a @ le_bytes 8 pn" 16 pc] assms by simp
  moreover have "array_at 0 ?b = rs" using array_at_block [of ?h 0 rs] assms by simp
  moreover have "array_at 1 ?b = ps" using array_at_block [of "?h @ int_array rs" 1 ps] assms by simp
  moreover have "array_at 2 ?b = bx" using array_at_block [of "?h @ int_array rs @ int_array ps" 2 bx] assms by simp
  moreover have "array_at 3 ?b = iv"
    using array_at_block [of "?h @ int_array rs @ int_array ps @ int_array bx" 3 iv] assms by simp
  moreover have "array_at 4 ?b = bu"
    using array_at_block [of "?h @ int_array rs @ int_array ps @ int_array bx @ int_array iv" 4 bu] assms by simp
  moreover have "long_at (24 + 24 * slots) ?b = ap"
    using long_at_block [of "?h @ int_array rs @ int_array ps @ int_array bx @ int_array iv @ int_array bu @ int_array fl"
      "24 + 24 * slots" ap "[]"] assms by simp
  ultimately show ?thesis by (simp add: decode_info_def)
qed

lemma decode_encode:
  assumes "info_ok td"
  shows "decode_info (encode_info (a, f, td)) = td"
  using assms decode_layout [of "page_num td" "page_count td" "access_page td" "read_signal td" "pagefault_signal td"
      "BusRdx td" "invalidate_signal td" "BusUpgr td" a f]
  by (simp add: wire_head_def wire_arrays_def info_ok_def)

text \<open>What is left of a record in \<open>recv_data\<close> when another has arrived in part.\<close>

lemma overlay_head:
  "overlay (encode_info (a0, f0, td0)) 0 (take 24 (encode_info (a, f, td))) =
   encode_info (a, f0, td0\<lparr>page_num := page_num td, page_count := page_count td\<rparr>)"
  by (simp add: overlay_def wire_head_def wire_arrays_def)

lemma overlay_all_but_last:
  "overlay (encode_info (a0, f0, td0)) 0 (take (sizeof_info - 8) (encode_info (a, f, td))) =
   encode_info (a, f, td\<lparr>access_page := access_page td0\<rparr>)"
  by (simp add: overlay_def sizeof_info_def wire_head_def wire_arrays_def)

lemma overlay_addr:
  "overlay (encode_info (a0, f0, td0)) 0 (le_bytes 8 x) = encode_info (x, f0, td0)"
  by (simp add: overlay_def wire_head_def)

lemma overlay_whole:
  "length buf = length bs \<Longrightarrow> overlay buf 0 bs = bs"
  by (simp add: overlay_def)

lemma le_value_append: "le_value (xs @ ys) = le_value xs + 256 ^ length xs * le_value ys"
  by (induction xs) (simp_all add: algebra_simps)

lemma le_signed_pair:
  assumes "fits 4 y"
  shows "le_signed (le_bytes 4 x @ le_bytes 4 y) = x mod 256 ^ 4 + 256 ^ 4 * y"
proof -
  have v: "le_value (le_bytes 4 x @ le_bytes 4 y) = x mod 256 ^ 4 + 256 ^ 4 * (y mod 256 ^ 4)"
    by (simp add: le_value_append le_value_bytes)
  have x: "0 \<le> x mod 256 ^ 4" "x mod 256 ^ 4 < 256 ^ 4" by simp_all
  have "y mod 256 ^ 4 = (if 0 \<le> y then y else y + 256 ^ 4)"
  proof (cases "0 \<le> y")
    case True
    then show ?thesis using assms by (simp add: fits_def)
  next
    case False
    have "y mod 256 ^ 4 = (y + 256 ^ 4) mod 256 ^ 4" by simp
    also have "\<dots> = y + 256 ^ 4" using assms False by (intro mod_pos_pos_trivial) (auto simp: fits_def)
    finally show ?thesis using False by simp
  qed
  then show ?thesis using assms x by (auto simp: le_signed_def v fits_def)
qed

section \<open>Whole and partial reads\<close>

text \<open>
  The bytes of a record determine it: whatever the pointer and the unused array are, decoding
  the 98336 bytes of a record whose fields fit their types gives the record.
\<close>

theorem info_roundtrip:
  assumes "info_ok td"
  shows "length (encode_info (a, f, td)) = sizeof_info \<and> sizeof_info = 98336 \<and> decode_info (encode_info (a, f, td)) = td"
  using decode_encode [OF assms] by (simp only: length_encode_info) (simp add: sizeof_info_def slots_def)

lemma zero_info_ok: "info_ok (zero_info\<lparr>page_num := 3, read_signal := (\<lambda>_. 0)(3 := 1)\<rparr>)"
  by (simp add: info_ok_def zero_info_def signals_ok_def fits_def slots_def)

theorem info_roundtrip_witness:
  "length (encode_info (0, \<lambda>_. 0, zero_info\<lparr>page_num := 3, read_signal := (\<lambda>_. 0)(3 := 1)\<rparr>)) = sizeof_info \<and>
   sizeof_info = 98336 \<and>
   decode_info (encode_info (0, \<lambda>_. 0, zero_info\<lparr>page_num := 3, read_signal := (\<lambda>_. 0)(3 := 1)\<rparr>)) =
     zero_info\<lparr>page_num := 3, read_signal := (\<lambda>_. 0)(3 := 1)\<rparr>"
  by (rule info_roundtrip [OF zero_info_ok])

definition wire_info :: "wire \<Rightarrow> proc_info" where
  "wire_info m = snd (snd m)"

text \<open>
  Reads of whole records implement the queue of records: as long as each \<open>read\<close> returns
  \<open>sizeof(proc_info)\<close> bytes, the server answers and changes its machine as if it took the records
  sent one by one, leaving what follows them in the stream.
\<close>

theorem whole_reads_refine:
  assumes "list_all (\<lambda>m. info_ok (wire_info m)) ms" and "length buf = sizeof_info"
  shows "run_events server_read (replicate (length ms) sizeof_info) (sent, concat (map encode_info ms) @ rest, buf, mc) =
    bind_res (run_events serve_record (map wire_info ms) (sent, mc)) (\<lambda>(sent', mc').
      Inr (sent', rest, last (buf # map encode_info ms), mc'))"
  using assms
proof (induction ms arbitrary: sent buf mc)
  case (Cons m ms)
  obtain a f td where m: "m = (a, f, td)" by (cases m)
  have td: "decode_info (encode_info m) = td" "0 < sizeof_info"
    using Cons.prems(1) m decode_encode by (simp_all add: wire_info_def sizeof_info_def)
  have "overlay buf 0 (encode_info m) = encode_info m"
    using Cons.prems(2) by (intro overlay_whole) simp
  then have "server_read sizeof_info (sent, concat (map encode_info (m # ms)) @ rest, buf, mc) =
      bind_res (serve_record td (sent, mc)) (\<lambda>(sent, mc).
        Inr (sent, concat (map encode_info ms) @ rest, encode_info m, mc))"
    using td by (simp add: bind_res_assoc case_prod_unfold del: encode_info.simps)
  then show ?case
    using Cons.IH [of "encode_info m"] Cons.prems(1) m
    by (simp add: bind_res_assoc case_prod_unfold wire_info_def del: encode_info.simps server_read.simps
        serve_record.simps)
qed simp

definition request :: "int \<Rightarrow> nat \<Rightarrow> proc_info" where
  "request offset i = zero_info\<lparr>page_num := int i, read_signal := (\<lambda>_. 0)(i := 1), access_page := offset\<rparr>"

lemma request_ok: "i < slots \<Longrightarrow> fits 8 offset \<Longrightarrow> info_ok (request offset i)"
  by (auto simp: info_ok_def request_def zero_info_def signals_ok_def fits_def slots_def)

text \<open>A machine of eight pages of four bytes that owns page 3 with the text \<open>''xy''\<close> and page 0 with \<open>''a''\<close>.\<close>

definition owner_machine :: machine where
  "owner_machine = \<lparr>page_size = 4, temp_data = zero_info,
     list_MSI = (\<lambda>i. if i = 0 \<or> i = 3 then \<lparr>M = True, S = False, I = False\<rparr> else \<lparr>M = False, S = False, I = True\<rparr>),
     mapping = (let z = replicate 32 NUL in overlay (overlay z 0 ''a'') 12 ''xy''),
     recv_message = replicate 4 NUL, message = [], menu_at = Prompt\<rparr>"

theorem whole_reads_refine_witness:
  "run_events server_read (replicate 2 sizeof_info)
     ([], encode_info (5, \<lambda>_. 1, request 0 0) @ encode_info (6, \<lambda>_. 2, request 12 3) @ [9],
      replicate sizeof_info 7, owner_machine) =
    bind_res (run_events serve_record [request 0 0, request 12 3] ([], owner_machine)) (\<lambda>(sent', mc').
      Inr (sent', [9], encode_info (6, \<lambda>_. 2, request 12 3), mc'))"
proof -
  let ?ms = "[(5, \<lambda>_. 1, request 0 0), (6, \<lambda>_. 2, request 12 3)]"
  have "list_all (\<lambda>m. info_ok (wire_info m)) ?ms"
    by (simp add: wire_info_def request_ok slots_def fits_def)
  from whole_reads_refine [OF this, of "replicate sizeof_info 7" "[]" "[9]" owner_machine]
  show ?thesis
    by (simp add: wire_info_def numeral_2_eq_2 del: encode_info.simps run_events.simps)
qed

text \<open>
  A request for a page that is Modified here, read in two parts, the last eight bytes apart: the server
  answers the first part with the bytes at the place the record before it named, another page's text,
  takes the remaining eight for a pointer and handles the same request once more, without
  an answer, after which the page is Shared, or Invalid when a bus signal for it is still set.
\<close>

theorem late_offset_wrong_page:
  assumes "info_ok td0" and "info_ok td" and "page_num td = int i" and "i < slots"
    and "list_MSI mc i = \<lparr>M = True, S = False, I = False\<rparr>"
    and "read_signal td i = 1" and "invalidate_signal td i = 0"
    and "cstr_at (mapping mc) (access_page td0) = Inr text"
  shows "case run_events server_read [sizeof_info - 8, 8] ([], encode_info (a, f, td), encode_info (a0, f0, td0), mc) of
      Inl _ \<Rightarrow> False
    | Inr (sent, stream, buf, mc') \<Rightarrow> sent = text \<and> stream = [] \<and> mapping mc' = mapping mc \<and>
        decode_info buf = td\<lparr>access_page := access_page td0\<rparr> \<and>
        list_MSI mc' i = (if BusUpgr td i = 1 \<or> BusRdx td i = 1 then \<lparr>M = False, S = False, I = True\<rparr>
          else \<lparr>M = False, S = True, I = False\<rparr>)"
proof -
  let ?td = "td\<lparr>access_page := access_page td0\<rparr>"
  have ok: "info_ok ?td" using assms(1,2) by (simp add: info_ok_def)
  have i: "idx_ok (int i)" using assms(4) by (simp add: idx_ok_def MAX_SIZE_def slots_def)
  have rest: "drop (sizeof_info - 8) (encode_info (a, f, td)) = le_bytes 8 (access_page td)"
    by (simp add: sizeof_info_def)
  let ?mc1 = "set_msi i False True False (mc\<lparr>temp_data := ?td\<rparr>)"
  have 1: "server_read (sizeof_info - 8) ([], encode_info (a, f, td), encode_info (a0, f0, td0), mc) =
      Inr (text, le_bytes 8 (access_page td), encode_info (a, f, ?td), ?mc1)"
    using assms(3,5,6,8) i decode_encode [OF ok, of a f]
    by (simp add: overlay_all_but_last rest server_handle_def Let_def del: encode_info.simps)
      (simp add: sizeof_info_def)
  have 2: "server_read 8 (text, le_bytes 8 (access_page td), encode_info (a, f, ?td), ?mc1) =
      Inr (text, [], encode_info (access_page td, f, ?td),
        if BusUpgr td i = 1 \<or> BusRdx td i = 1 then set_msi i False False True ?mc1 else ?mc1)"
    using assms(3,6,7) i decode_encode [OF ok, of "access_page td" f]
    by (simp add: overlay_addr server_handle_def set_msi_def Let_def del: encode_info.simps)
      (simp add: sizeof_info_def)
  have d: "decode_info (encode_info (access_page td, f, ?td)) = ?td" using decode_encode [OF ok] .
  have "run_events server_read [sizeof_info - 8, 8] ([], encode_info (a, f, td), encode_info (a0, f0, td0), mc) =
      Inr (text, [], encode_info (access_page td, f, ?td),
        if BusUpgr td i = 1 \<or> BusRdx td i = 1 then set_msi i False False True ?mc1 else ?mc1)"
    by (simp only: run_events.simps 1 2 bind_res_simps)
  then show ?thesis
    using d by (simp add: set_msi_def del: encode_info.simps run_events.simps)
qed

text \<open>
  A record read in two parts after its first 24 bytes makes the server read the signals as a page number: when
  \<open>read_signal[3]\<close> is set in it, as in a request for page 3, the second part always indexes the page
  list out of its bounds, unless the first part already faulted.
\<close>

theorem late_signals_out_of_bounds:
  assumes "info_ok td0" and "info_ok td" and "read_signal td 3 \<noteq> 0"
  shows "run_events server_read [24, sizeof_info - 24] (sent, encode_info (a, f, td), encode_info (a0, f0, td0), mc) =
    (case server_handle (td0\<lparr>page_num := page_num td, page_count := page_count td\<rparr>) mc of
       Inl e \<Rightarrow> Inl e | Inr _ \<Rightarrow> Inl OutOfBounds)"
proof -
  let ?td = "td0\<lparr>page_num := page_num td, page_count := page_count td\<rparr>"
  let ?tail = "wire_arrays f td @ le_bytes 8 (access_page td)"
  have ok: "info_ok ?td" using assms(1,2) by (simp add: info_ok_def)
  have size: "24 \<le> sizeof_info" "length ?tail = sizeof_info - 24" by (simp_all add: sizeof_info_def)
  have rest: "drop 24 (encode_info (a, f, td)) = ?tail" by simp
  let ?buf = "overlay (encode_info (a, f0, ?td)) 0 ?tail"
  have "page_num (decode_info ?buf) = le_signed (le_bytes 4 (read_signal td 2) @ le_bytes 4 (read_signal td 3))"
  proof -
    have "\<exists>post. int_array (read_signal td) = le_bytes 4 (read_signal td 0) @ le_bytes 4 (read_signal td 1) @
        le_bytes 4 (read_signal td 2) @ le_bytes 4 (read_signal td 3) @ post"
    proof -
      have "[0..<slots] = [0..<4] @ [4..<slots]"
        using upt_add_eq_append [of 0 4 "slots - 4"] by (simp add: slots_def del: upt_rec_numeral)
      moreover have "[0..<4] = [0, 1, 2, 3 :: nat]" by (simp add: upt_rec)
      ultimately show ?thesis by (simp add: int_array_def)
    qed
    then obtain post where post: "int_array (read_signal td) = le_bytes 4 (read_signal td 0) @ le_bytes 4 (read_signal td 1) @
        le_bytes 4 (read_signal td 2) @ le_bytes 4 (read_signal td 3) @ post" by blast
    then show ?thesis
      by (simp add: decode_info_def long_at_def overlay_def wire_arrays_def)
  qed
  moreover have "fits 4 (read_signal td 3)"
    using assms(2) by (auto simp: info_ok_def signals_ok_def slots_def dest: spec [of _ 3])
  ultimately have p: "page_num (decode_info ?buf) = read_signal td 2 mod 256 ^ 4 + 256 ^ 4 * read_signal td 3"
    using le_signed_pair by simp
  have "0 \<le> read_signal td 2 mod 256 ^ 4" "read_signal td 2 mod 256 ^ 4 < 256 ^ 4" by simp_all
  then have "\<not> idx_ok (page_num (decode_info ?buf))"
    unfolding p using assms(3) by (auto simp: idx_ok_def MAX_SIZE_def)
  then have second: "server_handle (decode_info ?buf) mc' = Inl OutOfBounds" for mc'
    by (simp add: server_handle_def Let_def)
  have first: "server_read 24 (sent, encode_info (a, f, td), encode_info (a0, f0, td0), mc) =
      bind_res (server_handle ?td mc) (\<lambda>(bytes, mc). Inr (sent @ bytes, ?tail, encode_info (a, f0, ?td), mc))"
    using size decode_encode [OF ok, of a f0] by (simp only: server_read.simps overlay_head rest Let_def) simp
  have "take (sizeof_info - 24) ?tail = ?tail" "sizeof_info - 24 \<noteq> 0" using size by (simp_all add: sizeof_info_def)
  then have last: "server_read (sizeof_info - 24) (sent', ?tail, encode_info (a, f0, ?td), mc') = Inl OutOfBounds"
    for sent' mc'
    using size second by (simp only: server_read.simps Let_def) simp
  show ?thesis
  proof (cases "server_handle ?td mc")
    case (Inl e)
    then show ?thesis by (simp only: run_events.simps first bind_res_simps sum.case)
  next
    case (Inr r)
    then show ?thesis
      by (cases r) (simp only: run_events.simps first bind_res_simps sum.case prod.case last)
  qed
qed

theorem late_offset_wrong_page_witness:
  "case run_events server_read [sizeof_info - 8, 8]
       ([], encode_info (0, \<lambda>_. 0, request 12 3), encode_info (0, \<lambda>_. 0, request 0 0), owner_machine) of
      Inl _ \<Rightarrow> False
    | Inr (sent, stream, buf, mc') \<Rightarrow> sent = ''a'' \<and> stream = [] \<and> mapping mc' = mapping owner_machine \<and>
        decode_info buf = (request 12 3)\<lparr>access_page := access_page (request 0 0)\<rparr> \<and>
        list_MSI mc' 3 = (if BusUpgr (request 12 3) 3 = 1 \<or> BusRdx (request 12 3) 3 = 1
          then \<lparr>M = False, S = False, I = True\<rparr> else \<lparr>M = False, S = True, I = False\<rparr>)"
proof (rule late_offset_wrong_page)
  show "info_ok (request 0 0)" "info_ok (request 12 3)"
    by (simp_all add: request_ok slots_def fits_def)
  show "cstr_at (mapping owner_machine) (access_page (request 0 0)) = Inr ''a''"
    by (simp add: owner_machine_def request_def) code_simp
qed (simp_all add: request_def zero_info_def owner_machine_def slots_def)

theorem late_signals_out_of_bounds_witness:
  "run_events server_read [24, sizeof_info - 24]
     ([], encode_info (0, \<lambda>_. 0, request 12 3), encode_info (0, \<lambda>_. 0, zero_info), owner_machine) = Inl OutOfBounds"
proof -
  have ok: "info_ok zero_info" "info_ok (request 12 3)"
    by (simp_all add: info_ok_def zero_info_def signals_ok_def fits_def request_def slots_def)
  have "read_signal (request 12 3) 3 \<noteq> 0" by (simp add: request_def)
  from late_signals_out_of_bounds [OF ok this, of "[]" 0 "\<lambda>_. 0" 0 "\<lambda>_. 0" owner_machine]
  show ?thesis
    by (simp add: server_handle_def request_def zero_info_def owner_machine_def idx_ok_def MAX_SIZE_def Let_def
        del: encode_info.simps run_events.simps)
qed

end
