(* ===== verification/Msi_Previous.thy ===== *)
theory Msi_Previous
  imports Msi_Sync
begin

text \<open>
  The state of the page-sharing program just before its last change, kept as
  \<open>Project_3_new/part4/backup.c\<close>: its server answers a bus signal for a Modified page as if it
  were a read and never invalidates such a page, and its menu leaves \<open>read_signal\<close> set. The rest
  is that of \<open>part4.c\<close>, in the theories \<open>Msi_Machine\<close> and \<open>Msi_System\<close>.
\<close>

definition prev_server_handle :: "proc_info \<Rightarrow> machine \<Rightarrow> (char list \<times> machine) res" where
  "prev_server_handle recv_data mc0 =
     (let mc = mc0\<lparr>temp_data := recv_data\<rparr>;
          p = page_num recv_data;
          i = nat p;
          st = list_MSI mc i
      in if \<not> idx_ok p then Inl OutOfBounds
         else if M st \<and> (BusRdx recv_data i = 1 \<or> read_signal recv_data i = 1) then
           bind_res (cstr_at (mapping mc) (access_page (temp_data mc))) (\<lambda>flush.
             Inr (flush, set_msi i False True False mc))
         else if S st \<and> (BusUpgr recv_data i = 1 \<or> BusRdx recv_data i = 1) then
           Inr ([], set_msi i False False True mc)
         else if I st \<and> read_signal recv_data i = 1 then
           Inr ('' '', set_msi i False True False mc)
         else Inr ([], mc))"

definition prev_menu_reply :: "char list \<Rightarrow> machine \<Rightarrow> (console list \<times> machine) res" where
  "prev_menu_reply bytes mc =
     (case menu_at mc of
        Await i nxt \<Rightarrow>
          if length (recv_message mc) < length bytes then Inl OutOfBounds
          else
            let buf = overlay (recv_message mc) 0 bytes
            in bind_res (cstr buf) (\<lambda>s. Inr ([ReadingPage s], mc\<lparr>recv_message := buf, menu_at := nxt\<rparr>))
      | _ \<Rightarrow> Inl NotEnabled)"

fun prev_step :: "event \<Rightarrow> sys \<Rightarrow> sys res" where
  "prev_step (Serve w) s =
     (if menu_at (mach s w) = Exited then Inl NotEnabled
      else case requests s w of
        [] \<Rightarrow> Inl NotEnabled
      | td # rest \<Rightarrow>
          bind_res (prev_server_handle td (mach s w)) (\<lambda>(bytes, mc).
            Inr (s\<lparr>mach := (mach s)(w := mc), requests := (requests s)(w := rest),
                   replies := (if bytes = [] then replies s
                     else (replies s)(peer w := replies s (peer w) @ [bytes]))\<rparr>)))"
| "prev_step (Reply w) s =
     (case replies s w of
        [] \<Rightarrow> Inl NotEnabled
      | bytes # rest \<Rightarrow>
          bind_res (prev_menu_reply bytes (mach s w)) (\<lambda>(out, mc).
            Inr (s\<lparr>mach := (mach s)(w := mc), replies := (replies s)(w := rest),
                   printed := (printed s)(w := printed s w @ out)\<rparr>)))"
| "prev_step (Eof w) s =
     (if menu_at (mach s (peer w)) = Exited \<and> concat (replies s w) = []
      then bind_res (prev_menu_reply [] (mach s w)) (\<lambda>(out, mc).
        Inr (s\<lparr>mach := (mach s)(w := mc), printed := (printed s)(w := printed s w @ out)\<rparr>))
      else Inl NotEnabled)"
| "prev_step e s = sys_step e s"

section \<open>A write over a Modified page\<close>

text \<open>What the earlier server does with the record of a write over its own Modified page.\<close>

lemma prev_server_over_modified:
  assumes c: "coh N a b" and i: "i < N" and "list_MSI a i = flags Inv" and "list_MSI b i = flags Mod"
  shows "prev_server_handle (write_request i a) b =
    Inr (page_string b i, b\<lparr>temp_data := write_request i a, list_MSI := (list_MSI b)(i := flags Shd)\<rparr>)"
    and "page_string b i \<noteq> []"
proof -
  have ok: "machine_ok N a" "machine_ok N b" and ps: "page_size a = page_size b" and p: "pair_ok a b i"
    using c i by (auto simp: coh_def)
  have "idx_ok (int i)" using ok(1) i by simp
  then show "prev_server_handle (write_request i a) b =
      Inr (page_string b i, b\<lparr>temp_data := write_request i a, list_MSI := (list_MSI b)(i := flags Shd)\<rparr>)"
    using write_request_signals(1) [OF assms(3)] assms(4) cstr_at_page(1) [OF ok(2) i]
    by (simp add: prev_server_handle_def Let_def set_msi_flags ps)
  show "page_string b i \<noteq> []" using cstr_at_page(3) [OF ok(2) i] p assms(4) by (auto simp: pair_ok_def)
qed

lemma local_read_page:
  assumes "machine_ok N mc" and "i < N" and "list_MSI mc i = flags x" and "x \<noteq> Inv" and "menu_at mc = Prompt"
  shows "\<exists>mc'. menu_command (Read (int i)) mc = Inr ([ReadingPage (page_string mc i)], None, mc')"
proof -
  let ?mc = "mc\<lparr>temp_data := (temp_data mc)\<lparr>page_num := int i\<rparr>\<rparr>"
  have "machine_ok N ?mc" using assms(1) by (simp add: machine_ok_def)
  moreover have "page_string ?mc i = page_string mc i" by (simp add: page_string_def)
  ultimately show ?thesis
    using menu_read_page_local [of N ?mc i x Prompt] menu_read_number [OF assms(1,2)] assms by simp
qed

text \<open>
  C20. From any coherent state, let one machine write a page that is Modified on the other. With the earlier
  server the writer's page is Modified and the other machine's Shared, whose next read prints the text
  that was there before, and an unasked answer waits in the writer's socket. With the server of
  \<open>part4.c\<close> the other machine's page is Invalid and nothing waits.
\<close>

theorem prev_write_breaks_coherence:
  assumes "good N ps s" and "i < N" and "line_ok ps line"
    and "page_states s w i = Inv" and "page_states s (peer w) i = Mod"
  shows "(\<exists>t. run_events prev_step [Key w (Write (int i) line), Serve (peer w), Key (peer w) (Read (int i))] s = Inr t \<and>
      page_states t w i = Mod \<and> list_MSI (mach t (peer w)) i = flags Shd \<and>
      replies t w = [page_string (mach s (peer w)) i] \<and>
      printed t (peer w) = printed s (peer w) @ [ReadingPage (page_string (mach s (peer w)) i)]) \<and>
    (\<exists>t. sync_cmd (w, Write (int i) line) s = Inr t \<and> page_states t w i = Mod \<and>
      list_MSI (mach t (peer w)) i = flags Inv \<and> replies t w = [])"
proof
  let ?a = "mach s w" and ?b = "mach s (peer w)"
  have c: "coherent N s" and calm: "calm s" and pr: "\<And>v. menu_at (mach s v) = Prompt"
    and ps: "\<And>v. page_size (mach s v) = ps"
    using assms(1) by (auto simp: good_def)
  have ab: "coh N ?a ?b" using c by (simp add: coherent_side [of N s w])
  then have ok: "machine_ok N ?a" "machine_ok N ?b" by (simp_all add: coh_def)
  have st: "list_MSI ?a i = flags Inv" "list_MSI ?b i = flags Mod"
    using coherent_states [OF c assms(2)] assms(4,5) by simp_all
  have i32: "to_int32 (int i) = int i" using ok(1) assms(2) by (simp add: machine_ok_def MAX_SIZE_def)
  let ?a' = "writer_after i line Prompt ?a"
  let ?b' = "?b\<lparr>temp_data := write_request i ?a, list_MSI := (list_MSI ?b)(i := flags Shd)\<rparr>"
  have key: "menu_command (Write (int i) line) ?a =
      Inr ([WritingPage (page_string ?a' i)], Some (write_request i ?a), ?a')"
    using menu_write_page_ok [OF ok(1) assms(2), of line] assms(3) ps pr i32
    by (simp add: menu_command_def menu_write_def)
  note serve = prev_server_over_modified [OF ab assms(2) st]
  have b': "machine_ok N ?b'" using ok by (simp add: machine_ok_def)
  moreover have "page_string ?b' i = page_string ?b i" by (simp add: page_string_def)
  ultimately obtain mc' where read: "menu_command (Read (int i)) ?b' = Inr ([ReadingPage (page_string ?b i)], None, mc')"
    using local_read_page [of N ?b' i Shd] assms(2) pr by auto
  have flags': "list_MSI mc' i = flags Shd"
    using read menu_read_page_local [of N "?b'\<lparr>temp_data := (temp_data ?b')\<lparr>page_num := int i\<rparr>\<rparr>" i Shd Prompt]
      menu_read_number [OF b' assms(2)] b' assms(2) pr
    by (simp add: menu_command_def) (auto simp: machine_ok_def)
  show "\<exists>t. run_events prev_step [Key w (Write (int i) line), Serve (peer w), Key (peer w) (Read (int i))] s = Inr t \<and>
      page_states t w i = Mod \<and> list_MSI (mach t (peer w)) i = flags Shd \<and>
      replies t w = [page_string ?b i] \<and>
      printed t (peer w) = printed s (peer w) @ [ReadingPage (page_string ?b i)]"
    using key serve read flags' calm pr
    by (simp add: after_menu_def calm_def page_states_def writer_after_def)
  obtain t where "sync_cmd (w, Write (int i) line) s = Inr t" "good N ps t"
      "page_states t = spec_cmd N (w, Write (int i) line) (page_states s)"
    using sync_cmd_returns [OF assms(1), of "Write (int i) line" w] assms(2,3) by (auto simp: cmd_ok_def)
  then show "\<exists>t. sync_cmd (w, Write (int i) line) s = Inr t \<and> page_states t w i = Mod \<and>
      list_MSI (mach t (peer w)) i = flags Inv \<and> replies t w = []"
    using coherent_states [of N t i "peer w"] assms(2) by (auto simp: good_def calm_def spec_write_def)
qed

theorem prev_write_breaks_coherence_witness:
  "\<exists>s u. init_sys 8 (int 3) zero_info (blank_buffers 8) (\<lambda>_. []) = Inr s \<and>
    sync_cmd (One, Write (int 1) ''abc'') s = Inr u \<and>
    (\<exists>t. run_events prev_step [Key Two (Write (int 1) ''xy''), Serve One, Key One (Read (int 1))] u = Inr t \<and>
      page_states t Two 1 = Mod \<and> list_MSI (mach t One) 1 = flags Shd \<and>
      replies t Two = [page_string (mach u One) 1] \<and>
      printed t One = printed u One @ [ReadingPage (page_string (mach u One) 1)]) \<and>
    (\<exists>t. sync_cmd (Two, Write (int 1) ''xy'') u = Inr t \<and> page_states t Two 1 = Mod \<and>
      list_MSI (mach t One) 1 = flags Inv \<and> replies t Two = [])"
proof -
  obtain s where s: "init_sys 8 (int 3) zero_info (blank_buffers 8) (\<lambda>_. []) = Inr s" "good 3 8 s"
    using sample_start by blast
  obtain u where u: "sync_cmd (One, Write (int 1) ''abc'') s = Inr u" "good 3 8 u"
      "page_states u = spec_cmd 3 (One, Write (int 1) ''abc'') (page_states s)"
    using sync_cmd_returns [OF s(2), of "Write (int 1) ''abc''" One] by (auto simp: cmd_ok_def line_ok_def)
  have "page_states u Two 1 = Inv" "page_states u (peer Two) 1 = Mod"
    by (simp_all add: u(3) spec_write_def)
  then show ?thesis
    using prev_write_breaks_coherence [OF u(2), of 1 "''xy''" Two] s(1) u(1) by (simp add: line_ok_def)
qed

end
