(* ===== verification/Msi_Blocking.thy ===== *)
theory Msi_Blocking
  imports Msi_Async
begin

text \<open>
  Where \<open>Project_3_new/part4/part4.c\<close> stops, under every interleaving of its threads: a menu that waits
  for an answer while nothing for it is on its way waits until the other process is gone
  (\<open>hung\<close>; it then prints what its buffer holds), the states in which nothing can happen at all, and the requests that are not answered.
\<close>

section \<open>Waiting for nothing\<close>

definition hung :: "side \<Rightarrow> sys \<Rightarrow> bool" where
  "hung w s \<longleftrightarrow> (\<exists>i nxt. menu_at (mach s w) = Await i nxt) \<and> requests s (peer w) = [] \<and> replies s w = []"

text \<open>Nothing is sent to a hung menu any more: only the end of the other process can wake it.\<close>

lemma exited_step:
  assumes st: "sys_step e s = Inr t" and gone: "menu_at (mach s v) = Exited"
  shows "menu_at (mach t v) = Exited"
proof (cases e)
  case (Key w c)
  then show ?thesis using st gone by (cases "v = w") (auto simp: menu_command_def after_menu_def bind_res_Inr_iff)
next
  case (Iter w)
  then show ?thesis using st gone by (cases "v = w") (auto simp: menu_iter_def after_menu_def bind_res_Inr_iff)
next
  case (Serve w)
  then show ?thesis using st gone by (cases "v = w") (auto simp: bind_res_Inr_iff split: if_splits list.splits)
next
  case (Reply w)
  then show ?thesis using st gone by (cases "v = w") (auto simp: menu_reply_def bind_res_Inr_iff split: list.splits)
next
  case (Hangup w)
  then show ?thesis using st gone by (cases "v = w") (auto split: if_splits)
next
  case (Eof w)
  then show ?thesis using st gone by (cases "v = w") (auto simp: menu_reply_def bind_res_Inr_iff split: if_splits)
qed

lemma run_exited:
  "run_events sys_step es s = Inr t \<Longrightarrow> menu_at (mach s v) = Exited \<Longrightarrow> menu_at (mach t v) = Exited"
  by (induction es arbitrary: s) (auto simp: bind_res_Inr_iff dest: exited_step)

lemma hung_step:
  assumes h: "hung w s" and here: "menu_at (mach s (peer w)) \<noteq> Exited" and st: "sys_step e s = Inr t"
  shows "hung w t \<and> menu_at (mach t w) = menu_at (mach s w)"
proof -
  obtain i nxt where a: "menu_at (mach s w) = Await i nxt" "requests s (peer w) = []" "replies s w = []"
    using h by (auto simp: hung_def)
  show ?thesis
  proof (cases e)
    case (Key v c)
    then have v: "v = peer w" using st a side_eq [of v w] by (auto simp: menu_command_def after_menu_def)
    then show ?thesis
      using Key st a by (auto simp: hung_def after_menu_def bind_res_Inr_iff split: option.splits)
  next
    case (Iter v)
    then have v: "v = peer w" using st a side_eq [of v w] by (auto simp: menu_iter_def after_menu_def)
    then show ?thesis
      using Iter st a by (auto simp: hung_def after_menu_def bind_res_Inr_iff split: option.splits)
  next
    case (Serve v)
    then have v: "v = w" using st a side_eq [of v w] by (auto split: if_splits)
    then show ?thesis
      using Serve st a by (auto simp: hung_def bind_res_Inr_iff server_handle_def Let_def set_msi_def
          split: if_splits list.splits)
  next
    case (Reply v)
    then have v: "v = peer w" using st a side_eq [of v w] by auto
    then show ?thesis using Reply st a by (auto simp: hung_def bind_res_Inr_iff split: list.splits)
  next
    case (Hangup v)
    then have v: "v = peer w" using st here side_eq [of v w] by (auto split: if_splits)
    then show ?thesis using Hangup st a by (auto split: if_splits)
  next
    case (Eof v)
    then have v: "v = peer w" using st here side_eq [of v w] by (auto split: if_splits)
    then show ?thesis using Eof st a by (auto split: if_splits)
  qed
qed

lemma hung_run:
  "hung w s \<Longrightarrow> run_events sys_step es s = Inr t \<Longrightarrow>
    hung w t \<and> menu_at (mach t w) = menu_at (mach s w) \<or> menu_at (mach t (peer w)) = Exited"
proof (induction es arbitrary: s)
  case (Cons e es)
  then obtain u where u: "sys_step e s = Inr u" "run_events sys_step es u = Inr t"
    by (auto simp: bind_res_Inr_iff)
  show ?case
  proof (cases "menu_at (mach s (peer w)) = Exited")
    case True
    have "menu_at (mach t (peer w)) = Exited"
      using run_exited [OF u(2) exited_step [OF u(1) True]] .
    then show ?thesis ..
  next
    case False
    then show ?thesis using Cons.IH [OF _ u(2)] hung_step [OF Cons.prems(1) False u(1)] by auto
  qed
qed simp

section \<open>No event at all\<close>

text \<open>A step that faults does not do so for not being enabled.\<close>

lemma buffer_faults:
  "memset_at buf off c n \<noteq> Inl NotEnabled" "cstr_at buf off \<noteq> Inl NotEnabled"
  "memcpy_at buf off s \<noteq> Inl NotEnabled" "cstr buf \<noteq> Inl NotEnabled"
  by (auto simp: memset_at_def cstr_at_def memcpy_at_def cstr_def)

lemma loop_enabled:
  assumes "menu_at mc = ReadLoop k \<or> menu_at mc = WriteLoop k"
  shows "menu_iter mc \<noteq> Inl NotEnabled"
  using assms
  by (auto simp: menu_iter_def menu_read_all_iter_def menu_write_all_iter_def menu_read_page_def
      Let_def bind_res_Inl_iff buffer_faults split: if_splits)

lemma reply_enabled: "menu_at mc = Await i nxt \<Longrightarrow> menu_reply bytes mc \<noteq> Inl NotEnabled"
  by (auto simp: menu_reply_def Let_def bind_res_Inl_iff buffer_faults split: if_splits)

lemma step_enabled:
  assumes "safe N ps s" and "event_ok N ps e" and "sys_step e s \<noteq> Inl NotEnabled"
  shows "\<exists>t. sys_step e s = Inr t"
  using safe_step [OF assms(1,2)] assms(3) by (auto split: sum.splits)

lemma menu_moves:
  assumes "safe N ps s" and "menu_at (mach s w) \<noteq> Exited"
    and "\<And>i nxt. menu_at (mach s w) = Await i nxt \<Longrightarrow> replies s w \<noteq> []"
  shows "\<exists>e t. event_ok N ps e \<and> sys_step e s = Inr t"
proof (cases "menu_at (mach s w)")
  case Prompt
  then have "sys_step (Key w OtherKey) s \<noteq> Inl NotEnabled" "event_ok N ps (Key w OtherKey)"
    by (simp_all add: menu_command_def after_menu_def event_ok_def cmd_ok_def)
  then show ?thesis using step_enabled [OF assms(1)] by blast
next
  case (ReadLoop k)
  then have "sys_step (Iter w) s \<noteq> Inl NotEnabled" "event_ok N ps (Iter w)"
    using loop_enabled by (auto simp: after_menu_def bind_res_Inl_iff event_ok_def)
  then show ?thesis using step_enabled [OF assms(1)] by blast
next
  case (WriteLoop k)
  then have "sys_step (Iter w) s \<noteq> Inl NotEnabled" "event_ok N ps (Iter w)"
    using loop_enabled by (auto simp: after_menu_def bind_res_Inl_iff event_ok_def)
  then show ?thesis using step_enabled [OF assms(1)] by blast
next
  case (Await i nxt)
  then obtain b bs where "replies s w = b # bs" using assms(3) by (cases "replies s w") auto
  then have "sys_step (Reply w) s \<noteq> Inl NotEnabled" "event_ok N ps (Reply w)"
    using reply_enabled [OF Await, of b] by (auto simp: bind_res_Inl_iff event_ok_def)
  then show ?thesis using step_enabled [OF assms(1)] by blast
qed (use assms in simp)

lemma server_moves:
  assumes "safe N ps s" and "menu_at (mach s w) \<noteq> Exited" and "requests s w = td # rest"
  shows "\<exists>t. sys_step (Serve w) s = Inr t"
proof -
  have "safe_machine N ps (mach s w)" "request_ok N ps td"
    using assms unfolding safe_def by (metis list.set_intros(1))+
  then show ?thesis using server_handle_safe assms(2,3) by fastforce
qed

lemma no_event_iff:
  assumes "safe N ps s"
  shows "(\<forall>e. event_ok N ps e \<longrightarrow> sys_step e s = Inl NotEnabled) \<longleftrightarrow>
    stuck s \<or> (\<forall>w. menu_at (mach s w) = Exited)" (is "?none \<longleftrightarrow> ?rhs")
proof
  assume none: ?none
  then have none': "\<not> (\<exists>e t. event_ok N ps e \<and> sys_step e s = Inr t)" by auto
  have menu: "menu_at (mach s w) = Exited \<or> (\<exists>i nxt. menu_at (mach s w) = Await i nxt) \<and> replies s w = []" for w
    using menu_moves [OF assms, of w] none' by metis
  have srv: "requests s w = []" if "menu_at (mach s w) \<noteq> Exited" for w
  proof (cases "requests s w")
    case (Cons td rest)
    then have "\<exists>t. sys_step (Serve w) s = Inr t" by (rule server_moves [OF assms that])
    moreover have "event_ok N ps (Serve w)" by (simp add: event_ok_def)
    ultimately show ?thesis using none' by blast
  qed
  have both: "menu_at (mach s (peer w)) = Exited" if "menu_at (mach s w) = Exited" for w
  proof (rule ccontr)
    assume n: "menu_at (mach s (peer w)) \<noteq> Exited"
    then have "\<exists>t. sys_step (Hangup (peer w)) s = Inr t" using that srv [OF n] by simp
    moreover have "event_ok N ps (Hangup (peer w))" by (simp add: event_ok_def)
    ultimately show False using none' by blast
  qed
  show ?rhs
  proof (cases "menu_at (mach s One) = Exited")
    case True
    then have "menu_at (mach s w) = Exited" for w using both [of One] by (cases w) simp_all
    then show ?thesis by simp
  next
    case False
    moreover from this have "menu_at (mach s Two) \<noteq> Exited" using both [of Two] by auto
    ultimately have "menu_at (mach s w) \<noteq> Exited" for w by (cases w) simp_all
    then show ?thesis using menu srv by (auto simp: stuck_def)
  qed
next
  assume ?rhs
  then show ?none
  proof
    assume gone: "\<forall>w. menu_at (mach s w) = Exited"
    show ?none
    proof (intro allI impI)
      fix e
      show "sys_step e s = Inl NotEnabled"
        using gone by (cases e)
          (auto simp: menu_command_def menu_iter_def menu_reply_def after_menu_def split: list.splits)
    qed
  qed (use stuck_no_step in blast)
qed

section \<open>Requests that are not answered\<close>

text \<open>
  Whether the server answers a request: for a read of a page that is Invalid there, by a space,
  or Modified there, by the text of the page if it has any.
\<close>

definition answered :: "proc_info \<Rightarrow> machine \<Rightarrow> bool" where
  "answered td mc \<longleftrightarrow> (let p = nat (page_num td) in
     read_signal td p = 1 \<and> (I (list_MSI mc p) \<or> M (list_MSI mc p) \<and> page_string mc p \<noteq> []))"

lemma server_answers:
  assumes s: "safe_machine N ps mc" and r: "request_ok N ps td"
  shows "\<exists>bytes mc'. server_handle td mc = Inr (bytes, mc') \<and> (bytes \<noteq> [] \<longleftrightarrow> answered td mc)"
proof -
  obtain p where p: "p < N" "page_num td = int p" "access_page td = int p * int ps"
    using r by (auto simp: request_ok_def)
  have ok: "machine_ok N mc" "page_size mc = ps" using s by (auto simp: safe_machine_def)
  obtain x where x: "list_MSI mc p = flags x"
    using s p(1) by (auto simp: safe_machine_def elim: onehotE)
  show ?thesis
    using cstr_at_page(1) [OF ok(1) p(1)] ok(2) p x idx_ok_page [OF ok(1) p(1)]
    by (cases x) (auto simp: server_handle_def answered_def Let_def)
qed

lemma serve_request:
  assumes s: "safe N ps s" and w: "menu_at (mach s w) = Await i nxt" "requests s (peer w) = [td]" "replies s w = []"
    and p: "menu_at (mach s (peer w)) \<noteq> Exited"
  shows "\<exists>t. sys_step (Serve (peer w)) s = Inr t \<and> safe N ps t \<and> menu_at (mach t w) = Await i nxt \<and>
    requests t (peer w) = [] \<and> (if answered td (mach s (peer w)) then \<exists>b. replies t w = [b] else hung w t)"
proof -
  have m: "safe_machine N ps (mach s (peer w))" and r: "request_ok N ps td"
    using s w(2) unfolding safe_def by (metis list.set_intros(1))+
  obtain bytes mc where h: "server_handle td (mach s (peer w)) = Inr (bytes, mc)"
    "bytes \<noteq> [] \<longleftrightarrow> answered td (mach s (peer w))"
    using server_answers [OF m r] by blast
  obtain t where t: "sys_step (Serve (peer w)) s = Inr t" using server_moves [OF s p w(2)] by blast
  moreover have "safe N ps t" using safe_step [OF s, of "Serve (peer w)"] t by (simp add: event_ok_def)
  moreover have "menu_at (mach t w) = Await i nxt" "requests t (peer w) = []"
      "if answered td (mach s (peer w)) then \<exists>b. replies t w = [b] else hung w t"
    using t h w p by (auto simp: hung_def)
  ultimately show ?thesis by blast
qed

lemma start_safe:
  assumes "ps \<in> {1<..2 ^ 18}" and "N \<in> {1..4096}" and "buffers_ok ps recvbuf" and "list_all (event_ok N ps) es"
    and "bind_res (init_sys ps (int N) garbage recvbuf msgbuf) (run_events sys_step es) = Inr t"
  shows "safe N ps t"
proof -
  obtain s where s: "init_sys ps (int N) garbage recvbuf msgbuf = Inr s" and "good N ps s"
    using init_good [OF assms(1-3)] by blast
  then show ?thesis using msi_threads.run_keeps [OF good_safe assms(4)] assms(5) by simp
qed

text \<open>
  C6. In whatever order the threads have run, the program can only come to a stop in one way, apart
  from the end of both processes: each menu waits in \<open>read\<close> for an answer, and there is nothing in
  the sockets.
\<close>

theorem msi_stops_only_waiting:
  assumes "ps \<in> {1<..2 ^ 18}" and "N \<in> {1..4096}" and "buffers_ok ps recvbuf" and "list_all (event_ok N ps) es"
    and "bind_res (init_sys ps (int N) garbage recvbuf msgbuf) (run_events sys_step es) = Inr t"
  shows "(\<forall>e. event_ok N ps e \<longrightarrow> sys_step e t = Inl NotEnabled) \<longleftrightarrow>
    (\<forall>w. menu_at (mach t w) = Exited) \<or>
    (\<forall>w. (\<exists>i nxt. menu_at (mach t w) = Await i nxt) \<and> requests t w = [] \<and> replies t w = [])"
proof -
  have "stuck t \<longleftrightarrow> (\<forall>w. (\<exists>i nxt. menu_at (mach t w) = Await i nxt) \<and> requests t w = [] \<and> replies t w = [])"
    by (simp add: stuck_def all_side [where w = One])
  then show ?thesis using no_event_iff [OF start_safe [OF assms]] by blast
qed

definition crossing_reads :: "event list" where
  "crossing_reads = [Key One (Read 1), Key Two (Read 1), Serve One, Serve Two]"

lemma crossing_reads_run:
  "\<exists>t. bind_res (init_sys 8 (int 3) zero_info (blank_buffers 8) (\<lambda>_. [])) (run_events sys_step crossing_reads) = Inr t \<and>
    stuck t"
proof -
  obtain s where "init_sys 8 (int 3) zero_info (blank_buffers 8) (\<lambda>_. []) = Inr s" "good 3 8 s"
    "page_states s = (\<lambda>_ _. Inv)"
    using sample_start by blast
  then show ?thesis
    using msi_crossing_reads_deadlock [of 3 8 s 1] by (auto simp: crossing_reads_def)
qed

theorem msi_stops_only_waiting_witness:
  "\<exists>t. bind_res (init_sys 8 (int 3) zero_info (blank_buffers 8) (\<lambda>_. [])) (run_events sys_step crossing_reads) = Inr t \<and>
    ((\<forall>e. event_ok 3 8 e \<longrightarrow> sys_step e t = Inl NotEnabled) \<longleftrightarrow>
      (\<forall>w. menu_at (mach t w) = Exited) \<or>
      (\<forall>w. (\<exists>i nxt. menu_at (mach t w) = Await i nxt) \<and> requests t w = [] \<and> replies t w = []))"
proof -
  have ok: "list_all (event_ok 3 8) crossing_reads"
    by (simp add: crossing_reads_def event_ok_def cmd_ok_def)
  obtain t where t: "bind_res (init_sys 8 (int 3) zero_info (blank_buffers 8) (\<lambda>_. []))
      (run_events sys_step crossing_reads) = Inr t"
    using crossing_reads_run by blast
  show ?thesis using msi_stops_only_waiting [OF _ _ blank_buffers_ok ok t] t by simp
qed

text \<open>
  C7. Of a reader whose request is the only one on its way the server decides: if it finds the page
  Invalid, or Modified with some text, the next answer lets the menu go on; if it finds the page
  Shared, or Modified and empty, nothing is sent, and whatever the two users and the other threads do
  from then on, the menu still waits, unless the other process has ended.
\<close>

theorem msi_unanswered_read_hangs:
  assumes "ps \<in> {1<..2 ^ 18}" and "N \<in> {1..4096}" and "buffers_ok ps recvbuf" and "list_all (event_ok N ps) es"
    and "bind_res (init_sys ps (int N) garbage recvbuf msgbuf) (run_events sys_step es) = Inr s"
    and "menu_at (mach s w) = Await i nxt" and "requests s (peer w) = [td]" and "replies s w = []"
    and "menu_at (mach s (peer w)) \<noteq> Exited"
  shows "\<exists>t. sys_step (Serve (peer w)) s = Inr t \<and>
    (if answered td (mach s (peer w))
     then \<exists>u. sys_step (Reply w) t = Inr u \<and> menu_at (mach u w) = nxt
     else \<forall>fs u. run_events sys_step fs t = Inr u \<longrightarrow>
       menu_at (mach u w) = Await i nxt \<or> menu_at (mach u (peer w)) = Exited)"
proof -
  obtain t where t: "sys_step (Serve (peer w)) s = Inr t" "safe N ps t" "menu_at (mach t w) = Await i nxt"
    "requests t (peer w) = []"
    "if answered td (mach s (peer w)) then \<exists>b. replies t w = [b] else hung w t"
    using serve_request [OF start_safe [OF assms(1-5)] assms(6-9)] by blast
  show ?thesis
  proof (cases "answered td (mach s (peer w))")
    case True
    then obtain b where b: "replies t w = [b]" using t(5) by auto
    have "sys_step (Reply w) t \<noteq> Inl NotEnabled"
      using b reply_enabled [OF t(3), of b] by (auto simp: bind_res_Inl_iff)
    then obtain u where u: "sys_step (Reply w) t = Inr u"
      using step_enabled [OF t(2), of "Reply w"] by (auto simp: event_ok_def)
    then have "menu_at (mach u w) = nxt"
      using b t(3) by (auto simp: menu_reply_def Let_def bind_res_Inr_iff split: if_splits)
    then show ?thesis using True t(1) u by auto
  next
    case False
    then have h: "hung w t" using t(5) by simp
    have "menu_at (mach u w) = Await i nxt \<or> menu_at (mach u (peer w)) = Exited"
      if "run_events sys_step fs t = Inr u" for fs u
      using hung_run [OF h that] t(3) by auto
    then show ?thesis using False t(1) by auto
  qed
qed

theorem msi_unanswered_read_hangs_witness:
  "\<exists>s td t. bind_res (init_sys 8 (int 3) zero_info (blank_buffers 8) (\<lambda>_. []))
      (run_events sys_step [Key One (Read 1), Key Two (Read 1), Serve One]) = Inr s \<and>
    requests s (peer One) = [td] \<and> \<not> answered td (mach s (peer One)) \<and>
    sys_step (Serve (peer One)) s = Inr t \<and>
    (if answered td (mach s (peer One))
     then \<exists>u. sys_step (Reply One) t = Inr u \<and> menu_at (mach u One) = Prompt
     else \<forall>fs u. run_events sys_step fs t = Inr u \<longrightarrow>
       menu_at (mach u One) = Await 1 Prompt \<or> menu_at (mach u (peer One)) = Exited)"
proof -
  have ok: "list_all (event_ok 3 8) [Key One (Read 1), Key Two (Read 1), Serve One]"
    by (simp add: event_ok_def cmd_ok_def)
  have "case bind_res (init_sys 8 (int 3) zero_info (blank_buffers 8) (\<lambda>_. []))
      (run_events sys_step [Key One (Read 1), Key Two (Read 1), Serve One]) of
    Inl f \<Rightarrow> False
  | Inr s \<Rightarrow> menu_at (mach s One) = Await 1 Prompt \<and> replies s One = [] \<and> menu_at (mach s Two) \<noteq> Exited \<and>
      (case requests s Two of [td] \<Rightarrow> \<not> answered td (mach s Two) | _ \<Rightarrow> False)"
    by code_simp
  then obtain s td where s: "bind_res (init_sys 8 (int 3) zero_info (blank_buffers 8) (\<lambda>_. []))
      (run_events sys_step [Key One (Read 1), Key Two (Read 1), Serve One]) = Inr s"
    "menu_at (mach s One) = Await 1 Prompt" "requests s (peer One) = [td]" "replies s One = []"
    "menu_at (mach s (peer One)) \<noteq> Exited" "\<not> answered td (mach s (peer One))"
    by (auto split: sum.splits list.splits)
  show ?thesis
    using msi_unanswered_read_hangs [OF _ _ blank_buffers_ok ok s(1-5)] s(1,3,6)
    by (auto simp del: run_events.simps)
qed

end
