(* ===== verification/Msi_Crossed.thy ===== *)
theory Msi_Crossed
  imports Msi_Blocking
begin

text \<open>
  Two ways in which \<open>Project_3_new/part4/part4.c\<close> answers wrongly: since a server pass replaces \<open>temp_data\<close>,
  signals of one command travel with the records of others, and a write can be taken for a read; and
  the answer to a read of a page without text has no bytes.
\<close>

section \<open>Single steps\<close>

lemma reading_frame [simp]:
  "page_size (reading i a) = page_size a" "recv_message (reading i a) = recv_message a"
  "temp_data (reading i a) = read_request i a" "list_MSI (reading i a) = (list_MSI a)(i := flags Shd)"
  by (simp_all add: reading_def)

lemma writer_frame [simp]:
  "page_size (writer_after i l pc a) = page_size a" "recv_message (writer_after i l pc a) = recv_message a"
  "temp_data (writer_after i l pc a) = write_request i a"
  "list_MSI (writer_after i l pc a) = (list_MSI a)(i := flags Mod)"
  by (simp_all add: writer_after_def)

lemma command_write:
  assumes "machine_ok N mc" and "i < N" and "line_ok (page_size mc) l" and "menu_at mc = Prompt"
  shows "\<exists>out. menu_command (Write (int i) l) mc = Inr (out, Some (write_request i mc), writer_after i l Prompt mc)"
proof -
  have "to_int32 (int i) = int i" using assms(1,2) by (simp add: machine_ok_def MAX_SIZE_def)
  then show ?thesis
    using menu_write_page_ok [OF assms(1-3)] assms(4) by (simp add: menu_command_def menu_write_def)
qed

lemma command_read:
  assumes "machine_ok N mc" and "i < N" and "list_MSI mc i = flags Inv" and "menu_at mc = Prompt"
  shows "menu_command (Read (int i)) mc =
    Inr ([], Some (read_request i (numbered i mc)), reading i (numbered i mc))"
proof -
  have "menu_command (Read (int i)) mc = menu_read_page (int i * int (page_size mc)) (int i) Prompt (numbered i mc)"
    using assms(4) menu_read_number [OF assms(1,2)] by (simp add: menu_command_def numbered_def)
  then show ?thesis
    using menu_read_page_Inv [of N "numbered i mc" i Prompt] assms by (simp add: reading_def)
qed

text \<open>A machine that has served a record, with the page in its new state.\<close>

abbreviation served :: "proc_info \<Rightarrow> nat \<Rightarrow> msi \<Rightarrow> machine \<Rightarrow> machine" where
  "served td i x mc \<equiv> mc\<lparr>temp_data := td, list_MSI := (list_MSI mc)(i := flags x)\<rparr>"

lemma served_ok: "machine_ok N mc \<Longrightarrow> page_count td = int N \<Longrightarrow> machine_ok N (served td i x mc)"
  by (simp add: machine_ok_def)

lemma serve_invalid:
  assumes "machine_ok N mc" and "i < N" and "page_num td = int i" and "list_MSI mc i = flags Inv"
  shows "server_handle td mc = (if read_signal td i = 1 then Inr ('' '', served td i Shd mc) else Inr ([], served td i Inv mc))"
proof -
  have "(list_MSI mc)(i := flags Inv) = list_MSI mc" using assms(4) by (auto simp: fun_eq_iff)
  then show ?thesis using assms by (simp add: server_handle_def Let_def set_msi_flags)
qed

lemma serve_upgrade:
  assumes "machine_ok N mc" and "i < N" and "page_num td = int i" and "list_MSI mc i = flags Shd"
    and "BusUpgr td i = 1"
  shows "server_handle td mc = Inr ([], served td i Inv mc)"
  using assms by (simp add: server_handle_def Let_def set_msi_flags)

text \<open>The menu once an answer has arrived.\<close>

definition got :: "nat \<Rightarrow> char list \<Rightarrow> machine \<Rightarrow> machine" where
  "got i bytes mc = mc\<lparr>recv_message := overlay (recv_message mc) 0 bytes, menu_at := Prompt,
     temp_data := (temp_data mc)\<lparr>read_signal := (read_signal (temp_data mc))(i := 0)\<rparr>\<rparr>"

lemma got_frame [simp]:
  "page_size (got i bs mc) = page_size mc" "list_MSI (got i bs mc) = list_MSI mc"
  "menu_at (got i bs mc) = Prompt" "read_signal (temp_data (got i bs mc)) = (read_signal (temp_data mc))(i := 0)"
  "mapping (got i bs mc) = mapping mc"
  by (simp_all add: got_def)

lemma reply_got:
  assumes "machine_ok N mc" and "menu_at mc = Await i Prompt" and "length bs < page_size mc"
  shows "menu_reply bs mc = Inr ([ReadingPage (takeWhile (\<lambda>c. c \<noteq> NUL) (overlay (recv_message mc) 0 bs))], got i bs mc)"
    and "machine_ok N (got i bs mc)"
proof -
  have "\<not> length (recv_message mc) < length bs" using assms(1,3) by (simp add: machine_ok_def)
  then show "menu_reply bs mc = Inr ([ReadingPage (takeWhile (\<lambda>c. c \<noteq> NUL) (overlay (recv_message mc) 0 bs))], got i bs mc)"
    using recv_overlay(2) [OF assms(1,3)] assms(2) by (simp add: menu_reply_def Let_def got_def)
  show "machine_ok N (got i bs mc)"
    using recv_overlay(1) [OF assms(1,3)] by (simp add: got_def machine_ok_def)
qed



section \<open>Signals that travel\<close>

text \<open>A machine at its prompt.\<close>

definition ready :: "nat \<Rightarrow> nat \<Rightarrow> machine \<Rightarrow> bool" where
  "ready N ps mc \<longleftrightarrow> machine_ok N mc \<and> page_size mc = ps \<and> menu_at mc = Prompt"

lemma ready_write:
  assumes "ready N ps mc" and "i < N" and "line_ok ps l"
  obtains out where "menu_command (Write (int i) l) mc = Inr (out, Some (write_request i mc), writer_after i l Prompt mc)"
    and "ready N ps (writer_after i l Prompt mc)"
  using assms command_write [of N mc i l] writer_ok(1) [of N mc i l Prompt] by (auto simp: ready_def)

lemma ready_served: "ready N ps mc \<Longrightarrow> page_count td = int N \<Longrightarrow> ready N ps (served td i x mc)"
  using served_ok by (simp add: ready_def)

lemma ready_count: "ready N ps mc \<Longrightarrow> page_count (temp_data mc) = int N"
  by (simp add: ready_def machine_ok_def)

lemma write_request_count: "ready N ps mc \<Longrightarrow> page_count (write_request i mc) = int N"
  using ready_count by simp

text \<open>
  First the signals travel: while machine 2 reads \<open>p\<close>, machine 1 writes \<open>q\<close> and machine 2 then \<open>k\<close>, and
  the record of the last asks for \<open>p\<close>.
\<close>

definition travelled :: "nat \<Rightarrow> nat \<Rightarrow> nat \<Rightarrow> nat \<Rightarrow> string \<Rightarrow> sys \<Rightarrow> bool" where
  "travelled N ps p k line s \<longleftrightarrow> ready N ps (mach s One) \<and> ready N ps (mach s Two) \<and>
     list_MSI (mach s One) p = flags Shd \<and> list_MSI (mach s One) k = flags Inv \<and>
     list_MSI (mach s Two) p = flags Shd \<and> list_MSI (mach s Two) k = flags Mod \<and>
     page_string (mach s Two) k = line \<and> recv_message (mach s One) ! 1 = NUL \<and>
     requests s Two = [] \<and> replies s One = [] \<and> replies s Two = [] \<and>
     (\<exists>td. requests s One = [td] \<and> page_num td = int k \<and> page_count td = int N \<and>
       read_signal td k = 0 \<and> read_signal td p = 1)"

lemma signals_travel:
  assumes g: "good N ps s" and pages: "p < N" "q < N" "k < N" and ne: "p \<noteq> q" "p \<noteq> k" "q \<noteq> k"
    and inv: "\<And>w i. i \<in> {p, q, k} \<Longrightarrow> list_MSI (mach s w) i = flags Inv"
    and lines: "line_ok ps lb" "line_ok ps lc"
    and nul: "page_byte (mach s Two) k (length lc) = NUL" "recv_message (mach s One) ! 1 = NUL"
  shows "\<exists>t. run_events sys_step [Key Two (Read (int p)), Serve One, Key One (Write (int q) lb), Reply Two,
      Serve Two, Key Two (Write (int k) lc)] s = Inr t \<and> travelled N ps p k lc t"
proof -
  define a0 where "a0 = mach s One"
  define b0 where "b0 = mach s Two"
  define r1 where "r1 = read_request p (numbered p b0)"
  define b1 where "b1 = reading p (numbered p b0)"
  define a1 where "a1 = served r1 p Shd a0"
  define r2 where "r2 = write_request q a1"
  define a2 where "a2 = writer_after q lb Prompt a1"
  define b2 where "b2 = got p '' '' b1"
  define b3 where "b3 = served r2 q Inv b2"
  define r3 where "r3 = write_request k b3"
  define b4 where "b4 = writer_after k lc Prompt b3"
  note defs = a1_def a2_def b1_def b2_def b3_def b4_def
  have rd: "ready N ps a0" "ready N ps b0"
    using good_parts [OF g] by (simp_all add: ready_def a0_def b0_def)
  have ps: "1 < ps" using rd(1) by (simp add: ready_def machine_ok_def)
  have l0: "list_MSI a0 i = flags Inv" "list_MSI b0 i = flags Inv" if "i \<in> {p, q, k}" for i
    using inv [OF that] by (simp_all add: a0_def b0_def)
  have e1: "menu_command (Read (int p)) b0 = Inr ([], Some r1, b1)"
    unfolding r1_def b1_def using rd(2) pages(1) l0(2) by (intro command_read) (auto simp: ready_def)
  have c1: "page_count r1 = int N" "page_num r1 = int p" "read_signal r1 p = 1"
    using ready_count [OF rd(2)] by (simp_all add: r1_def numbered_def)
  have ra1: "ready N ps a1" unfolding a1_def by (rule ready_served [OF rd(1) c1(1)])
  have e2: "server_handle r1 a0 = Inr ('' '', a1)"
    using serve_invalid [of N a0 p r1] rd(1) pages(1) c1 l0 by (simp add: a1_def ready_def)
  obtain o3 where e3: "menu_command (Write (int q) lb) a1 = Inr (o3, Some r2, a2)" "ready N ps a2"
    unfolding r2_def a2_def by (rule ready_write [OF ra1 pages(2) lines(1)])
  have r2: "page_num r2 = int q" "page_count r2 = int N" "read_signal r2 q = 0" "read_signal r2 p = 1"
    using write_request_signals(1) [of a1 q] l0 ne c1 by (simp_all add: r2_def a1_def)
  have b1: "machine_ok N b1" "menu_at b1 = Await p Prompt" "page_size b1 = ps"
    using rd(2) pages(1) by (simp_all add: b1_def ready_def)
  note e4 = reply_got [OF b1(1,2), of "'' ''", folded b2_def]
  have rb2: "ready N ps b2" using e4(2) b1 ps by (simp add: ready_def b2_def)
  have e5: "server_handle r2 b2 = Inr ([], b3)"
    using serve_invalid [of N b2 q r2] rb2 pages(2) r2 l0 ne by (simp add: ready_def defs)
  have rb3: "ready N ps b3" unfolding b3_def by (rule ready_served [OF rb2 r2(2)])
  obtain o6 where e6: "menu_command (Write (int k) lc) b3 = Inr (o6, Some r3, b4)" "ready N ps b4"
    unfolding r3_def b4_def by (rule ready_write [OF rb3 pages(3) lines(2)])
  have r3: "page_num r3 = int k" "page_count r3 = int N" "read_signal r3 k = 0" "read_signal r3 p = 1"
    using write_request_signals(1) [of b3 k] l0 ne r2 by (simp_all add: r3_def b3_def b2_def b1_def)
  have "page_byte b3 k (length lc) = NUL"
    using nul(1) page_byte_clear [of N "numbered p b0" p k "length lc"] rd(2) pages ne lines(2)
    by (simp add: page_byte_def b3_def b2_def b1_def reading_def b0_def line_ok_def ready_def)
  then have held: "page_string b4 k = lc"
    unfolding b4_def using page_string_writer_after [of N b3 k lc] rb3 pages(3) lines(2) by (simp add: ready_def)
  have fin: "list_MSI a2 p = flags Shd" "list_MSI a2 k = flags Inv" "list_MSI b4 p = flags Shd"
      "list_MSI b4 k = flags Mod" "recv_message a2 ! 1 = NUL"
    using l0 ne nul(2) by (simp_all add: defs a0_def [symmetric])
  have "requests s = (\<lambda>_. [])" "replies s = (\<lambda>_. [])" using good_calm [OF g] by (auto simp: calm_def)
  moreover have "menu_at a0 \<noteq> Exited" "menu_at b2 \<noteq> Exited" using rd rb2 by (simp_all add: ready_def)
  ultimately show ?thesis
    using e1 e2 e3 e4(1) e5 e6 b1 ps r3 held fin
    by (simp add: after_menu_def a0_def [symmetric] b0_def [symmetric] travelled_def)
qed

text \<open>
  Then machine 1 writes \<open>p\<close>, has the record, and writes \<open>p\<close> again: its second record asks for the page
  that is Modified there, and the other machine answers.
\<close>

definition out_of_step :: "nat \<Rightarrow> nat \<Rightarrow> nat \<Rightarrow> nat \<Rightarrow> string \<Rightarrow> sys \<Rightarrow> bool" where
  "out_of_step N ps p k line s \<longleftrightarrow> ready N ps (mach s One) \<and> ready N ps (mach s Two) \<and>
     list_MSI (mach s One) p = flags Mod \<and> list_MSI (mach s Two) p = flags Shd \<and>
     list_MSI (mach s One) k = flags Inv \<and> list_MSI (mach s Two) k = flags Mod \<and>
     page_string (mach s Two) k = line \<and> recv_message (mach s One) ! 1 = NUL \<and>
     requests s One = [] \<and> requests s Two = [] \<and> replies s One = ['' ''] \<and> replies s Two = []"

lemma write_answered:
  assumes t: "travelled N ps p k line s" and pages: "p < N" "k < N" and ne: "p \<noteq> k"
    and lines: "line_ok ps la" "line_ok ps ld"
  shows "\<exists>t. run_events sys_step [Key One (Write (int p) la), Serve One, Key One (Write (int p) ld),
      Serve Two, Serve Two] s = Inr t \<and> out_of_step N ps p k line t"
proof -
  define a0 where "a0 = mach s One"
  define b0 where "b0 = mach s Two"
  obtain td where td: "requests s One = [td]" "page_num td = int k" "page_count td = int N"
    "read_signal td k = 0" "read_signal td p = 1"
    using t by (auto simp: travelled_def)
  define r1 where "r1 = write_request p a0"
  define a1 where "a1 = writer_after p la Prompt a0"
  define a2 where "a2 = served td k Inv a1"
  define r2 where "r2 = write_request p a2"
  define a3 where "a3 = writer_after p ld Prompt a2"
  define b1 where "b1 = served r1 p Inv b0"
  define b2 where "b2 = served r2 p Shd b1"
  note defs = a1_def a2_def a3_def b1_def b2_def
  have rd: "ready N ps a0" "ready N ps b0"
    and l0: "list_MSI a0 p = flags Shd" "list_MSI a0 k = flags Inv" "list_MSI b0 p = flags Shd" "list_MSI b0 k = flags Mod"
    using t by (simp_all add: travelled_def a0_def b0_def)
  obtain o1 where e1: "menu_command (Write (int p) la) a0 = Inr (o1, Some r1, a1)" "ready N ps a1"
    unfolding r1_def a1_def by (rule ready_write [OF rd(1) pages(1) lines(1)])
  have e2: "server_handle td a1 = Inr ([], a2)"
    using serve_invalid [of N a1 k td] e1(2) pages(2) td l0 ne by (simp add: ready_def defs)
  have ra2: "ready N ps a2" unfolding a2_def by (rule ready_served [OF e1(2) td(3)])
  obtain o3 where e3: "menu_command (Write (int p) ld) a2 = Inr (o3, Some r2, a3)" "ready N ps a3"
    unfolding r2_def a3_def by (rule ready_write [OF ra2 pages(1) lines(2)])
  have r1: "page_num r1 = int p" "page_count r1 = int N" "BusUpgr r1 p = 1"
    using write_request_signals(2) [of a0 p] l0 ready_count [OF rd(1)] by (simp_all add: r1_def)
  have r2: "page_num r2 = int p" "page_count r2 = int N" "read_signal r2 p = 1"
    using write_request_signals(3) [of a2 p] ne td by (simp_all add: r2_def defs)
  have e4: "server_handle r1 b0 = Inr ([], b1)"
    using serve_upgrade [of N b0 p r1] rd(2) pages(1) r1 l0 by (simp add: ready_def b1_def)
  have rb1: "ready N ps b1" unfolding b1_def by (rule ready_served [OF rd(2) r1(2)])
  have e5: "server_handle r2 b1 = Inr ('' '', b2)"
    using serve_invalid [of N b1 p r2] rb1 pages(1) r2 by (simp add: ready_def b2_def b1_def)
  have rb2: "ready N ps b2" unfolding b2_def by (rule ready_served [OF rb1 r2(2)])
  have fin: "list_MSI a3 p = flags Mod" "list_MSI a3 k = flags Inv" "list_MSI b2 p = flags Shd"
      "list_MSI b2 k = flags Mod" "page_string b2 k = line" "recv_message a3 ! 1 = NUL"
    using l0 ne t by (simp_all add: defs travelled_def a0_def [symmetric] b0_def [symmetric] page_string_def)
  have "menu_at a1 \<noteq> Exited" "menu_at b0 \<noteq> Exited" "menu_at b1 \<noteq> Exited" using e1 rd rb1 by (simp_all add: ready_def)
  then show ?thesis
    using e1 e2 e3 e4 e5 rb2 fin t td(1)
    by (simp add: after_menu_def a0_def [symmetric] b0_def [symmetric] travelled_def out_of_step_def)
qed

text \<open>The next read of machine 1 takes the answer to the write.\<close>

lemma next_read_one_behind:
  assumes t: "out_of_step N ps p k line s" and pages: "k < N" and ne: "p \<noteq> k" and line: "line \<noteq> []"
  shows "\<exists>t. run_events sys_step [Key One (Read (int k)), Reply One, Serve Two] s = Inr t \<and>
    list_MSI (mach t One) p = flags Mod \<and> list_MSI (mach t Two) p = flags Shd \<and>
    printed t One = printed s One @ [ReadingPage '' ''] \<and> menu_at (mach t One) = Prompt \<and>
    replies t One = [line] \<and> page_string (mach t Two) k = line"
proof -
  define a0 where "a0 = mach s One"
  define b0 where "b0 = mach s Two"
  define r1 where "r1 = read_request k (numbered k a0)"
  define a1 where "a1 = reading k (numbered k a0)"
  define a2 where "a2 = got k '' '' a1"
  define b1 where "b1 = served r1 k Shd b0"
  have a0: "machine_ok N a0" "page_size a0 = ps" "menu_at a0 = Prompt" "list_MSI a0 k = flags Inv"
    and b0: "machine_ok N b0" "page_size b0 = ps" "menu_at b0 = Prompt" "list_MSI b0 k = flags Mod"
      "page_string b0 k = line"
    using t by (simp_all add: out_of_step_def ready_def a0_def b0_def)
  have ps: "1 < ps" "length (recv_message a0) = ps" using a0 by (simp_all add: machine_ok_def)
  have e1: "menu_command (Read (int k)) a0 = Inr ([], Some r1, a1)"
    unfolding r1_def a1_def using a0 pages by (intro command_read) auto
  have a1: "machine_ok N a1" "menu_at a1 = Await k Prompt" "page_size a1 = ps" "recv_message a1 = recv_message a0"
    using a0 pages by (simp_all add: a1_def)
  have "recv_message a0 ! 1 = NUL" using t by (simp add: out_of_step_def a0_def)
  then have blank: "takeWhile (\<lambda>c. c \<noteq> NUL) (overlay (recv_message a1) 0 '' '') = '' ''"
    using ps unfolding a1(4)
    by (cases "recv_message a0"; cases "tl (recv_message a0)") (auto simp: overlay_def)
  have e2: "menu_reply '' '' a1 = Inr ([ReadingPage '' ''], a2)"
    unfolding a2_def using reply_got(1) [OF a1(1,2), of "'' ''"] a1 ps blank by simp
  have e3: "server_handle r1 b0 = Inr (line, b1)"
    using cstr_at_page(1) [OF b0(1) pages] b0 pages a0
    by (simp add: server_handle_def Let_def b1_def r1_def set_msi_flags)
  have fin: "list_MSI a2 p = flags Mod" "list_MSI b1 p = flags Shd" "menu_at a2 = Prompt" "page_string b1 k = line"
    using t ne b0(5) by (simp_all add: a2_def a1_def b1_def page_string_def out_of_step_def a0_def b0_def)
  show ?thesis
    using e1 e2 e3 b0(3) line fin t
    by (simp add: after_menu_def a0_def [symmetric] b0_def [symmetric] out_of_step_def)
qed

text \<open>
  C8. A write can be answered as if it were a read. While machine 2 reads a page \<open>p\<close>, machine 1 has its
  signals in \<open>temp_data\<close>, and sends them along with what it writes to another page \<open>q\<close>; machine 2 sends
  them back with a write to a page \<open>k\<close>; and when machine 1 then writes \<open>p\<close>, which is Modified there, its
  record asks for the page. Machine 2 answers it with a space and makes \<open>p\<close> Shared though it is Modified
  on machine 1, and from then on machine 1 is one answer behind: its next read, of \<open>k\<close>, shows
  the space, and the text of \<open>k\<close> is left for the read after that.
\<close>

theorem msi_write_answered_as_read:
  assumes "good N ps s" and "p < N" "q < N" "k < N" and "p \<noteq> q" "p \<noteq> k" "q \<noteq> k"
    and "\<And>w i. i \<in> {p, q, k} \<Longrightarrow> list_MSI (mach s w) i = flags Inv"
    and "line_ok ps la" "line_ok ps lb" "line_ok ps lc" "line_ok ps ld"
    and "page_byte (mach s Two) k (length lc) = NUL" "recv_message (mach s One) ! 1 = NUL"
  shows "\<exists>t out. run_events sys_step
      ([Key Two (Read (int p)), Serve One, Key One (Write (int q) lb), Reply Two, Serve Two, Key Two (Write (int k) lc)] @
       [Key One (Write (int p) la), Serve One, Key One (Write (int p) ld), Serve Two, Serve Two] @
       [Key One (Read (int k)), Reply One, Serve Two]) s = Inr t \<and>
    list_MSI (mach t One) p = flags Mod \<and> list_MSI (mach t Two) p = flags Shd \<and>
    printed t One = out @ [ReadingPage '' ''] \<and> menu_at (mach t One) = Prompt \<and>
    replies t One = [lc] \<and> page_string (mach t Two) k = lc"
proof -
  obtain t where t: "run_events sys_step [Key Two (Read (int p)), Serve One, Key One (Write (int q) lb), Reply Two,
      Serve Two, Key Two (Write (int k) lc)] s = Inr t" "travelled N ps p k lc t"
    using signals_travel [of N ps s p q k lb lc] assms by blast
  obtain u where u: "run_events sys_step [Key One (Write (int p) la), Serve One, Key One (Write (int p) ld),
      Serve Two, Serve Two] t = Inr u" "out_of_step N ps p k lc u"
    using write_answered [OF t(2)] assms by blast
  have "lc \<noteq> []" using assms(11) by (simp add: line_ok_def)
  with next_read_one_behind [OF u(2)] assms(4,6) show ?thesis
    unfolding run_events_append t(1) bind_res_simps u(1) by metis
qed


theorem msi_write_answered_as_read_witness:
  "\<exists>s t out. init_sys 8 (int 3) zero_info (blank_buffers 8) (\<lambda>_. []) = Inr s \<and> run_events sys_step
      ([Key Two (Read (int 0)), Serve One, Key One (Write (int 1) ''b''), Reply Two, Serve Two, Key Two (Write (int 2) ''text'')] @
       [Key One (Write (int 0) ''a''), Serve One, Key One (Write (int 0) ''d''), Serve Two, Serve Two] @
       [Key One (Read (int 2)), Reply One, Serve Two]) s = Inr t \<and>
    list_MSI (mach t One) 0 = flags Mod \<and> list_MSI (mach t Two) 0 = flags Shd \<and>
    printed t One = out @ [ReadingPage '' ''] \<and> menu_at (mach t One) = Prompt \<and>
    replies t One = [''text''] \<and> page_string (mach t Two) 2 = ''text''"
proof -
  obtain s where s: "init_sys 8 (int 3) zero_info (blank_buffers 8) (\<lambda>_. []) = Inr s" "good 3 8 s"
    "page_states s = (\<lambda>_ _. Inv)"
    using sample_start by blast
  have inv: "list_MSI (mach s w) i = flags Inv" if "i \<in> {0, 1, 2}" for w i
    using good_onehot [OF s(2), of i w] s(3) that by auto
  have "page_byte (mach s Two) 2 (length ''text'') = NUL" "recv_message (mach s One) ! 1 = NUL"
    using init_memory [OF s(1)] by (simp_all add: page_byte_def blank_buffers_def)
  then show ?thesis
    using s(1) msi_write_answered_as_read [OF s(2), of 0 1 2 "''a''" "''b''" "''text''" "''d''"] inv
    by (simp add: line_ok_def del: run_events.simps)
qed

section \<open>A page without text\<close>

lemma overlay_Nil [simp]: "overlay buf n [] = buf"
  by (simp add: overlay_def)

lemma command_write_nothing:
  assumes "machine_ok N mc" and "i < N" and "message mc = []" and "menu_at mc = Prompt"
  shows "\<exists>out. menu_command (Write (int i) []) mc = Inr (out, Some (write_request i mc), writer_after i [] Prompt mc)"
proof -
  have "to_int32 (int i) = int i" using assms(1,2) by (simp add: machine_ok_def MAX_SIZE_def)
  moreover have "mc\<lparr>message := []\<rparr> = mc" using assms(3) by simp
  ultimately show ?thesis
    using assms cstr_at_page(1) [OF assms(1,2)] memcpy_page [OF assms(1,2), of "[]"] page_offset(1) [OF assms(1,2)]
    by (cases mc) (simp add: menu_command_def menu_write_def menu_write_page_def Let_def set_msi_flags scan_message_def
        write_request_def writer_after_def write_signals_def)
qed

text \<open>
  An empty message. Pressing Enter at the first message of a machine leaves the page Modified and
  empty; the other machine's read of it is then served by sending no bytes, and its menu waits from then
  on whatever happens, until the process that wrote has gone, though only one command
  was in flight at any time.
\<close>

theorem msi_empty_message_hangs:
  assumes "good N ps s" and "i < N" and "\<And>v. list_MSI (mach s v) i = flags Inv"
    and "message (mach s w) = []" and "page_byte (mach s w) i 0 = NUL"
  shows "\<exists>t. run_events sys_step
      [Key w (Write (int i) []), Serve (peer w), Key (peer w) (Read (int i)), Serve w] s = Inr t \<and>
    (\<forall>fs u. run_events sys_step fs t = Inr u \<longrightarrow>
      menu_at (mach u (peer w)) = Await i Prompt \<or> menu_at (mach u w) = Exited)"
proof -
  define a0 where "a0 = mach s w"
  define b0 where "b0 = mach s (peer w)"
  define r1 where "r1 = write_request i a0"
  define a1 where "a1 = writer_after i [] Prompt a0"
  define b1 where "b1 = served r1 i Inv b0"
  define r2 where "r2 = read_request i (numbered i b1)"
  define b2 where "b2 = reading i (numbered i b1)"
  define a2 where "a2 = served r2 i Shd a1"
  have rd: "ready N ps a0" "ready N ps b0"
    using good_parts [OF assms(1)] by (simp_all add: ready_def a0_def b0_def)
  have l0: "list_MSI a0 i = flags Inv" "list_MSI b0 i = flags Inv" using assms(3) by (simp_all add: a0_def b0_def)
  obtain o1 where e1: "menu_command (Write (int i) []) a0 = Inr (o1, Some r1, a1)"
    unfolding r1_def a1_def using command_write_nothing [of N a0 i] rd(1) assms(2,4) by (auto simp: ready_def a0_def)
  have a0: "machine_ok N a0" "page_size a0 = ps" using rd(1) by (simp_all add: ready_def)
  have "page_string a0 i = []" using cstr_at_page(3) [OF a0(1) assms(2)] assms(5) by (simp add: a0_def)
  then have ma1: "machine_ok N a1" "page_size a1 = ps" "page_string a1 i = []"
    using a0 by (simp_all add: a1_def writer_after_def machine_ok_def page_string_def)
  have r1: "page_num r1 = int i" "page_count r1 = int N" "read_signal r1 i = 0"
    using write_request_signals(1) [of a0 i] l0 ready_count [OF rd(1)] by (simp_all add: r1_def)
  have e2: "server_handle r1 b0 = Inr ([], b1)"
    using serve_invalid [of N b0 i r1] rd(2) assms(2) r1 l0 by (simp add: ready_def b1_def)
  have rb1: "ready N ps b1" unfolding b1_def by (rule ready_served [OF rd(2) r1(2)])
  have e3: "menu_command (Read (int i)) b1 = Inr ([], Some r2, b2)"
    unfolding r2_def b2_def using rb1 assms(2) by (intro command_read) (auto simp: ready_def b1_def)
  have e4: "server_handle r2 a1 = Inr ([], a2)"
    using cstr_at_page(1) [OF ma1(1) assms(2)] ma1 rb1 assms(2)
    by (simp add: server_handle_def Let_def a2_def r2_def set_msi_flags ready_def) (simp add: a1_def)
  have pcs: "menu_at a1 \<noteq> Exited" "menu_at b0 \<noteq> Exited" "menu_at b2 = Await i Prompt"
    using rd by (simp_all add: ready_def a1_def b2_def)
  have "requests s = (\<lambda>_. [])" "replies s = (\<lambda>_. [])" using good_calm [OF assms(1)] by (auto simp: calm_def)
  then obtain t where t: "run_events sys_step
      [Key w (Write (int i) []), Serve (peer w), Key (peer w) (Read (int i)), Serve w] s = Inr t"
    "hung (peer w) t" "menu_at (mach t (peer w)) = Await i Prompt"
    using e1 e2 e3 e4 pcs by (simp add: after_menu_def a0_def [symmetric] b0_def [symmetric] hung_def)
  then show ?thesis using hung_run [OF t(2)] by fastforce
qed

theorem msi_empty_message_hangs_witness:
  "\<exists>s t. init_sys 8 (int 3) zero_info (blank_buffers 8) (\<lambda>_. []) = Inr s \<and> run_events sys_step
      [Key One (Write (int 1) []), Serve (peer One), Key (peer One) (Read (int 1)), Serve One] s = Inr t \<and>
    (\<forall>fs u. run_events sys_step fs t = Inr u \<longrightarrow>
      menu_at (mach u (peer One)) = Await 1 Prompt \<or> menu_at (mach u One) = Exited)"
proof -
  obtain s where s: "init_sys 8 (int 3) zero_info (blank_buffers 8) (\<lambda>_. []) = Inr s" "good 3 8 s"
    "page_states s = (\<lambda>_ _. Inv)"
    using sample_start by blast
  have "list_MSI (mach s v) 1 = flags Inv" for v using good_onehot [OF s(2), of 1 v] s(3) by simp
  moreover have "message (mach s One) = []" "page_byte (mach s One) 1 0 = NUL"
    using init_memory [OF s(1)] by (simp_all add: page_byte_def)
  ultimately show ?thesis
    using s(1) msi_empty_message_hangs [OF s(2), of 1 One] by (simp del: run_events.simps peer.simps)
qed

end
