(* ===== verification/Msi_Bounds.thy ===== *)
theory Msi_Bounds
  imports Msi_Blocking
begin

text \<open>
  What \<open>Project_3_new/part4/part4.c\<close> does with the page numbers it does not check: the entries of
  \<open>list_MSI\<close> behind the last page keep their initial value in every run, and so does a command on such
  a page number end in a known way.
\<close>

section \<open>The entries behind the last page\<close>

definition beyond :: "nat \<Rightarrow> machine \<Rightarrow> bool" where
  "beyond N mc \<longleftrightarrow> (\<forall>i \<ge> N. list_MSI mc i = \<lparr>M = False, S = False, I = False\<rparr>)"

lemma beyond_frame [simp]:
  "beyond N (mc\<lparr>temp_data := td\<rparr>) = beyond N mc" "beyond N (mc\<lparr>menu_at := pc\<rparr>) = beyond N mc"
  "beyond N (mc\<lparr>mapping := mem\<rparr>) = beyond N mc" "beyond N (mc\<lparr>message := msg\<rparr>) = beyond N mc"
  "beyond N (mc\<lparr>recv_message := buf\<rparr>) = beyond N mc"
  by (simp_all add: beyond_def)

lemma beyond_set [simp]: "i < N \<Longrightarrow> beyond N mc \<Longrightarrow> beyond N (set_msi i m sh v mc)"
  by (simp add: beyond_def set_msi_def)

lemma read_page_beyond:
  assumes "menu_read_page off index nxt mc = Inr (out, req, mc')" and "beyond N mc"
    and "0 \<le> page_num (temp_data mc)" and "page_num (temp_data mc) < int N"
  shows "beyond N mc'"
  using assms by (auto simp: menu_read_page_def Let_def bind_res_Inr_iff split: if_splits)

lemma scan_beyond: "scan_message line mc = Inr mc' \<Longrightarrow> beyond N mc' = beyond N mc"
  by (auto simp: scan_message_def split: if_splits)

lemma write_page_beyond:
  assumes "menu_write_page n line mc = Inr (out, req, mc')" and "beyond N mc" and "0 \<le> to_int32 n" and "to_int32 n < int N"
  shows "beyond N mc'"
  using assms scan_beyond by (fastforce simp: menu_write_page_def Let_def bind_res_Inr_iff split: if_splits)

lemma command_beyond:
  assumes "menu_command c mc = Inr (out, req, mc')" and "beyond N mc" and "c = Quit \<or> cmd_ok N ps c" and "N \<le> 4096"
  shows "beyond N mc'"
proof (cases c)
  case (Read n)
  then have r: "menu_read n mc = Inr (out, req, mc')" and n: "n = -1 \<or> 0 \<le> n \<and> n < int N"
    using assms by (auto simp: menu_command_def cmd_ok_def split: if_splits)
  show ?thesis
  proof (cases "to_int32 n = -1")
    case True
    then show ?thesis using r assms(2) by (auto simp: menu_read_def Let_def)
  next
    case False
    then have "menu_read_page (to_int64 (n * int (page_size mc))) (to_int32 n) Prompt (mc\<lparr>temp_data := (temp_data mc)\<lparr>page_num := n\<rparr>\<rparr>) = Inr (out, req, mc')"
      and "0 \<le> n" "n < int N"
      using r n by (auto simp: menu_read_def Let_def to_int32_id)
    then show ?thesis using read_page_beyond assms(2) by fastforce
  qed
next
  case (Write n line)
  then have r: "menu_write n line mc = Inr (out, req, mc')" and n: "n = -1 \<or> 0 \<le> n \<and> n < int N"
    using assms by (auto simp: menu_command_def cmd_ok_def split: if_splits)
  show ?thesis
  proof (cases "to_int32 n = -1")
    case True
    then show ?thesis using r assms(2) scan_beyond by (fastforce simp: menu_write_def bind_res_Inr_iff)
  next
    case False
    then have "menu_write_page n line mc = Inr (out, req, mc')" and "0 \<le> to_int32 n" "to_int32 n < int N"
      using r n assms(4) by (auto simp: menu_write_def to_int32_id)
    then show ?thesis using write_page_beyond assms(2) by blast
  qed
qed (use assms in \<open>auto simp: menu_command_def menu_view_def Let_def split: if_splits\<close>)

lemma iter_beyond:
  assumes "menu_iter mc = Inr (out, req, mc')" and "beyond N mc" and "page_count (temp_data mc) = int N"
  shows "beyond N mc'"
proof (cases "menu_at mc")
  case (ReadLoop k)
  then show ?thesis
    using assms read_page_beyond [of _ "int k" "ReadLoop (Suc k)" _ out req mc' N]
    by (auto simp: menu_iter_def menu_read_all_iter_def split: if_splits)
next
  case (WriteLoop k)
  then show ?thesis
    using assms by (auto simp: menu_iter_def menu_write_all_iter_def Let_def bind_res_Inr_iff split: if_splits)
qed (use assms in \<open>simp_all add: menu_iter_def\<close>)

lemma server_beyond:
  assumes "server_handle td mc = Inr (bytes, mc')" and "beyond N mc" and "request_ok N ps td"
  shows "beyond N mc'"
  using assms by (auto simp: server_handle_def request_ok_def Let_def bind_res_Inr_iff split: if_splits)

lemma reply_beyond: "menu_reply bytes mc = Inr (out, mc') \<Longrightarrow> beyond N mc \<Longrightarrow> beyond N mc'"
  by (auto simp: menu_reply_def Let_def bind_res_Inr_iff split: menu_pc.splits if_splits)


lemma after_menu_beyond:
  assumes "after_menu w s r = Inr t" and "\<And>v. beyond N (mach s v)"
    and "\<And>out req mc. r = Inr (out, req, mc) \<Longrightarrow> beyond N mc"
  shows "beyond N (mach t v)"
  using assms by (auto simp: after_menu_def bind_res_Inr_iff)

lemma step_beyond:
  assumes safe: "safe N ps s" and e: "event_ok N ps e" and st: "sys_step e s = Inr t" and b: "\<And>v. beyond N (mach s v)"
  shows "beyond N (mach t v)"
proof (cases e)
  case (Key w c)
  have "N \<le> 4096" using safe by (auto simp: safe_def safe_machine_def machine_ok_def MAX_SIZE_def)
  then have "beyond N mc" if "menu_command c (mach s w) = Inr (out, req, mc)" for out req mc
    using command_beyond [OF that b] e Key by (auto simp: event_ok_def)
  moreover have "after_menu w s (menu_command c (mach s w)) = Inr t" using st Key by simp
  ultimately show ?thesis using after_menu_beyond b by blast
next
  case (Iter w)
  have "page_count (temp_data (mach s w)) = int N"
    using safe by (simp add: safe_def safe_machine_def machine_ok_def)
  then have "beyond N mc" if "menu_iter (mach s w) = Inr (out, req, mc)" for out req mc
    using iter_beyond [OF that b] by simp
  moreover have "after_menu w s (menu_iter (mach s w)) = Inr t" using st Iter by simp
  ultimately show ?thesis using after_menu_beyond b by blast
next
  case (Serve w)
  then obtain td rest bytes mc where h: "requests s w = td # rest" "server_handle td (mach s w) = Inr (bytes, mc)"
    "mach t = (mach s)(w := mc)"
    using st by (auto simp: bind_res_Inr_iff split: if_splits list.splits)
  have "request_ok N ps td" using safe h(1) unfolding safe_def by (metis list.set_intros(1))
  then show ?thesis using server_beyond [OF h(2) b] h(3) b by auto
next
  case (Reply w)
  then show ?thesis
    using st b reply_beyond [where N = N] by (auto simp: bind_res_Inr_iff split: list.splits)
next
  case (Hangup w)
  then show ?thesis using st b by (auto split: if_splits)
next
  case (Eof w)
  then show ?thesis
    using st b reply_beyond [where N = N] by (auto simp: bind_res_Inr_iff split: if_splits)
qed

interpretation bounded: step_guarded sys_step "\<lambda>s. safe N ps s \<and> (\<forall>v. beyond N (mach s v))" "event_ok N ps" for N ps
  by unfold_locales (use msi_threads.step_refuses msi_threads.step_keeps step_beyond in blast)+

lemma start_beyond: "init_sys ps (int N) garbage recvbuf msgbuf = Inr s \<Longrightarrow> beyond N (mach s w)"
  by (cases w) (auto simp: init_sys_def client_init_mch1_def server_init_mch2_def fresh_machine_def
      bind_res_Inr_iff beyond_def init_list_MSI_def Let_def split: if_splits)

section \<open>Commands on pages that are not there\<close>

text \<open>Accesses at the offset of a page that is not there leave the mapping.\<close>

lemma outside_mapping:
  assumes "machine_ok N mc" and "page_size mc = ps" and "\<not> (0 \<le> n \<and> n < int N)"
  shows "memset_at (mapping mc) (n * int ps) c ps = Inl OutOfBounds" "cstr_at (mapping mc) (n * int ps) = Inl OutOfBounds"
    "line \<noteq> [] \<Longrightarrow> memcpy_at (mapping mc) (n * int ps) line = Inl OutOfBounds"
proof -
  have len: "length (mapping mc) = N * ps" and ps: "1 < ps" using assms(1,2) by (auto simp: machine_ok_def)
  have "n * int ps < 0 \<or> N * ps \<le> nat (n * int ps)"
  proof (cases "n < 0")
    case True
    then show ?thesis using ps by (simp add: mult_neg_pos)
  next
    case False
    then have "int N * int ps \<le> n * int ps" using assms(3) by (intro mult_right_mono) auto
    then show ?thesis by (metis nat_int nat_mono of_nat_mult)
  qed
  then show "memset_at (mapping mc) (n * int ps) c ps = Inl OutOfBounds" "cstr_at (mapping mc) (n * int ps) = Inl OutOfBounds"
    "line \<noteq> [] \<Longrightarrow> memcpy_at (mapping mc) (n * int ps) line = Inl OutOfBounds"
    using len ps by (auto simp: memset_at_def memcpy_at_def cstr_at_def) (metis add_leD1 le_antisym le_add_same_cancel1 length_0_conv nat_add_left_cancel_le le_zero_eq add.right_neutral)
qed

lemma read_unchecked:
  assumes sm: "safe_machine N ps mc" and b: "beyond N mc" and pc: "menu_at mc = Prompt"
    and n: "\<not> (0 \<le> n \<and> n < int N)" and i: "to_int32 n \<noteq> -1" and w: "to_int64 (n * int ps) = n * int ps"
  shows "menu_command (Read n) mc =
    (if int N \<le> to_int32 n \<and> to_int32 n < MAX_SIZE
     then Inr ([], None, mc\<lparr>temp_data := (temp_data mc)\<lparr>page_num := n, access_page := n * int ps\<rparr>\<rparr>)
     else Inl OutOfBounds)"
proof -
  let ?i = "to_int32 n" and ?mc = "mc\<lparr>temp_data := (temp_data mc)\<lparr>page_num := n\<rparr>\<rparr>"
  have ok: "machine_ok N mc" "page_size mc = ps" "onehot N mc" using sm by (auto simp: safe_machine_def)
  have key: "menu_command (Read n) mc = menu_read_page (n * int ps) ?i Prompt ?mc"
    using pc i ok(2) w by (simp add: menu_command_def menu_read_def Let_def)
  note out = outside_mapping [OF ok(1,2) n]
  consider "0 \<le> ?i" "?i < int N" | "int N \<le> ?i" "?i < MAX_SIZE" | "\<not> idx_ok ?i"
    unfolding idx_ok_def by linarith
  then show ?thesis
  proof cases
    case 1
    then have "nat ?i < N" by simp
    then obtain x where x: "list_MSI mc (nat ?i) = flags x" using ok(3) onehotE by metis
    show ?thesis
      using 1 out x ok(1,2) unfolding key by (cases x) (auto simp: menu_read_page_def Let_def idx_ok_def machine_ok_def)
  next
    case 2
    then have "list_MSI mc (nat ?i) = \<lparr>M = False, S = False, I = False\<rparr>" using b by (simp add: beyond_def)
    then show ?thesis
      using 2 ok(2) pc unfolding key by (simp add: menu_read_page_def Let_def idx_ok_def)
  qed (auto simp: key menu_read_page_def Let_def idx_ok_def)
qed

lemma write_unchecked:
  assumes sm: "safe_machine N ps mc" and pc: "menu_at mc = Prompt" and line: "line_ok ps line"
    and n: "\<not> (0 \<le> n \<and> n < int N)" and i: "to_int32 n \<noteq> -1" and w: "to_int64 (n * int ps) = n * int ps"
  shows "menu_command (Write n line) mc = Inl OutOfBounds"
proof -
  have ok: "machine_ok N mc" "page_size mc = ps" using sm by (auto simp: safe_machine_def)
  have l: "line \<noteq> []" "length line < ps" using line by (auto simp: line_ok_def)
  show ?thesis
    using pc i w outside_mapping(3) [OF ok n l(1)] l ok(2)
    by (simp add: takeWhile_line [OF line] menu_command_def menu_write_def menu_write_page_def Let_def scan_message_def set_msi_def write_signals_def)
qed

text \<open>
  C9. Page numbers are not checked. From the prompt of either machine, in any state that any
  interleaving of admissible commands reaches, a write to a page number that is not there leaves the mapping
  (or already the table of states), as long as the number is so small that its product with the page size fits
  a \<open>long\<close>, and its low 32 bits are not those of -1; and so does a read, except that for a number that falls
  on the unused rest of the table it does nothing: it prints nothing and sends nothing.
\<close>

theorem msi_page_numbers_unchecked:
  assumes "ps \<in> {1<..2 ^ 18}" and "N \<in> {1..4096}" and "buffers_ok ps recvbuf" and "list_all (event_ok N ps) es"
    and "bind_res (init_sys ps (int N) garbage recvbuf msgbuf) (run_events sys_step es) = Inr s"
    and "menu_at (mach s w) = Prompt" and "\<not> (0 \<le> n \<and> n < int N)" and "to_int32 n \<noteq> -1" and "line_ok ps line"
    and "- (2 ^ 63) \<le> n * int ps" and "n * int ps < 2 ^ 63"
  shows "sys_step (Key w (Write n line)) s = Inl OutOfBounds \<and>
    (if int N \<le> to_int32 n \<and> to_int32 n < 4096
     then \<exists>t. sys_step (Key w (Read n)) s = Inr t \<and> printed t = printed s \<and> requests t = requests s \<and>
       menu_at (mach t w) = Prompt
     else sys_step (Key w (Read n)) s = Inl OutOfBounds)"
proof -
  obtain s0 where s0: "init_sys ps (int N) garbage recvbuf msgbuf = Inr s0" and "good N ps s0"
    using init_good [OF assms(1-3)] by blast
  then have g: "safe N ps s0 \<and> (\<forall>v. beyond N (mach s0 v))" using good_safe start_beyond by blast
  have "run_events sys_step es s0 = Inr s" using assms(5) s0 by simp
  from bounded.run_keeps [OF g assms(4) this]
  have s: "safe N ps s \<and> (\<forall>v. beyond N (mach s v))" .
  then have sm: "safe_machine N ps (mach s w)" "beyond N (mach s w)" by (simp_all add: safe_def)
  have off: "to_int64 (n * int ps) = n * int ps" by (rule to_int64_id [OF assms(10,11)])
  have "sys_step (Key w (Write n line)) s = Inl OutOfBounds"
    by (simp only: sys_step.simps write_unchecked [OF sm(1) assms(6,9,7,8) off] after_menu_def bind_res_simps)
  moreover have "if int N \<le> to_int32 n \<and> to_int32 n < 4096
     then \<exists>t. sys_step (Key w (Read n)) s = Inr t \<and> printed t = printed s \<and> requests t = requests s \<and>
       menu_at (mach t w) = Prompt
     else sys_step (Key w (Read n)) s = Inl OutOfBounds"
  proof -
    have "sys_step (Key w (Read n)) s = after_menu w s (menu_command (Read n) (mach s w))" by simp
    then show ?thesis
      unfolding read_unchecked [OF sm assms(6-8) off] by (simp add: after_menu_def MAX_SIZE_def assms(6))
  qed
  ultimately show ?thesis by blast
qed

theorem msi_page_numbers_unchecked_witness:
  "\<exists>s. bind_res (init_sys 8 (int 3) zero_info (blank_buffers 8) (\<lambda>_. [])) (run_events sys_step [Key One (Write 1 ''a'')]) = Inr s \<and>
    sys_step (Key Two (Write 3 ''b'')) s = Inl OutOfBounds \<and>
    (\<exists>t. sys_step (Key Two (Read 3)) s = Inr t \<and> printed t = printed s \<and> requests t = requests s \<and>
       menu_at (mach t Two) = Prompt) \<and>
    sys_step (Key Two (Write 4096 ''b'')) s = Inl OutOfBounds \<and> sys_step (Key Two (Read 4096)) s = Inl OutOfBounds"
proof -
  have ok: "list_all (event_ok 3 8) [Key One (Write 1 ''a'')]" by (simp add: event_ok_def cmd_ok_def line_ok_def)
  have "case bind_res (init_sys 8 (int 3) zero_info (blank_buffers 8) (\<lambda>_. []))
      (run_events sys_step [Key One (Write 1 ''a'')]) of Inl f \<Rightarrow> False | Inr s \<Rightarrow> menu_at (mach s Two) = Prompt"
    by code_simp
  then obtain s where s: "bind_res (init_sys 8 (int 3) zero_info (blank_buffers 8) (\<lambda>_. []))
      (run_events sys_step [Key One (Write 1 ''a'')]) = Inr s" "menu_at (mach s Two) = Prompt"
    by (auto split: sum.splits)
  have "to_int32 4096 = 4096" "line_ok 8 ''b''" by (simp_all add: to_int32_id line_ok_def)
  then show ?thesis
    using msi_page_numbers_unchecked [OF _ _ blank_buffers_ok ok s, of 3 "''b''"]
      msi_page_numbers_unchecked [OF _ _ blank_buffers_ok ok s, of 4096 "''b''"] s(1)
    by (simp del: run_events.simps)
qed

section \<open>Page numbers whose offset wraps\<close>

text \<open>The low bits of such a number are those of a page that is there.\<close>

lemma wrapped_number:
  assumes "2 \<le> j" and "j \<le> 18" and "i < 4096"
  shows "to_int32 (int i + 2 ^ (64 - j)) = int i"
    and "to_int64 ((int i + 2 ^ (64 - j)) * int (2 ^ j)) = int i * int (2 ^ j)"
proof -
  have cong: "signed_take_bit m (a + b * 2 ^ Suc m) = signed_take_bit m a" for a b :: int and m
    by (simp only: signed_take_bit_eq_iff_take_bit_eq take_bit_eq_mod) simp
  have split: "64 - j = (32 - j) + Suc 31" using assms(2) by simp
  have "to_int32 (int i + 2 ^ (32 - j) * 2 ^ Suc 31) = to_int32 (int i)"
    unfolding to_int32_def by (rule cong)
  then show "to_int32 (int i + 2 ^ (64 - j)) = int i"
    using assms(3) unfolding split power_add by (simp add: to_int32_id)
  have "(2 :: int) ^ (64 - j) * 2 ^ j = 2 ^ Suc 63"
    using assms(2) by (simp flip: power_add)
  then have "to_int64 ((int i + 2 ^ (64 - j)) * int (2 ^ j)) = to_int64 (int i * int (2 ^ j) + 1 * 2 ^ Suc 63)"
    by (simp add: distrib_right)
  also have "\<dots> = to_int64 (int i * int (2 ^ j))" unfolding to_int64_def by (rule cong)
  also have "\<dots> = int i * int (2 ^ j)"
  proof (rule to_int64_id)
    have "int i * int (2 ^ j) \<le> 4095 * 2 ^ 18"
      using assms(2,3) power_increasing [of j 18 "2 :: int"] by (intro mult_mono) simp_all
    then show "int i * int (2 ^ j) < 2 ^ 63" by simp
    show "- (2 ^ 63) \<le> int i * int (2 ^ j)" by (rule order_trans [of _ 0]) simp_all
  qed
  finally show "to_int64 ((int i + 2 ^ (64 - j)) * int (2 ^ j)) = int i * int (2 ^ j)" .
qed

definition wrapped_request :: "nat \<Rightarrow> int \<Rightarrow> machine \<Rightarrow> proc_info" where
  "wrapped_request i n mc = (write_request i mc)\<lparr>page_num := n\<rparr>"

lemma write_wrapped:
  assumes sm: "safe_machine N ps mc" and pc: "menu_at mc = Prompt" and line: "line_ok ps line" and i: "i < N"
    and n: "to_int32 n = int i" "to_int64 (n * int ps) = int i * int ps"
  shows "menu_command (Write n line) mc =
    Inr ([WritingPage (page_string (writer_after i line Prompt mc) i)], Some (wrapped_request i n mc),
      (writer_after i line Prompt mc)\<lparr>temp_data := wrapped_request i n mc\<rparr>)"
proof -
  have ok: "machine_ok N mc" "page_size mc = ps" using sm by (auto simp: safe_machine_def)
  have l: "line \<noteq> []" "length line < ps" using line by (auto simp: line_ok_def)
  have cs: "cstr_at (overlay (mapping mc) (i * ps) line) (int i * int ps) =
      Inr (page_string (writer_after i line Prompt mc) i)"
    using page_string_writer [OF ok(1) i] line ok(2) by simp
  show ?thesis
    using memcpy_page [OF ok(1) i, of line] idx_ok_page [OF ok(1) i] l ok(2) pc n cs
    by (simp add: takeWhile_line [OF line] menu_command_def menu_write_def menu_write_page_def Let_def scan_message_def
        set_msi_flags wrapped_request_def write_request_def writer_after_def write_signals_def)
qed

lemma server_wrapped: "\<not> idx_ok (page_num td) \<Longrightarrow> server_handle td mc = Inl OutOfBounds"
  by (simp add: server_handle_def Let_def)

text \<open>
  C10. The offset of a page number wraps: with pages of \<open>2 ^ j\<close> bytes a write to the page number
  \<open>i + 2 ^ (64 - j)\<close>, a \<open>long\<close> that the menu accepts, is a write of page \<open>i\<close>, and the record that announces it
  takes the other machine's server out of its table of states as soon as it is handled.
\<close>

theorem msi_page_number_wraps:
  assumes "ps = 2 ^ j" and "2 \<le> j" and "j \<le> 18" and "N \<in> {1..4096}" and "buffers_ok ps recvbuf"
    and "list_all (event_ok N ps) es"
    and "bind_res (init_sys ps (int N) garbage recvbuf msgbuf) (run_events sys_step es) = Inr s"
    and "menu_at (mach s w) = Prompt" and "i < N" and "n = int i + 2 ^ (64 - j)" and "line_ok ps line"
  shows "\<exists>t td. sys_step (Key w (Write n line)) s = Inr t \<and> list_MSI (mach t w) i = flags Mod \<and>
    take ps (drop (i * ps) (mapping (mach t w))) = line @ drop (length line) (take ps (drop (i * ps) (mapping (mach s w)))) \<and>
    requests t (peer w) = requests s (peer w) @ [td] \<and>
    server_handle td (mach t (peer w)) = Inl OutOfBounds"
proof -
  have "(2 :: nat) ^ 1 < 2 ^ j" using assms(2) by (intro power_strict_increasing) auto
  moreover have "(2 :: nat) ^ j \<le> 2 ^ 18" using assms(3) by (intro power_increasing) auto
  ultimately have ps: "ps \<in> {1<..2 ^ 18}" using assms(1) by simp
  have s: "safe N ps s" by (rule start_safe [OF ps assms(4-7)])
  then have sm: "safe_machine N ps (mach s w)" by (simp add: safe_def)
  have i: "i < 4096" using assms(4,9) by simp
  have n: "to_int32 n = int i" "to_int64 (n * int ps) = int i * int ps"
    unfolding assms(1,10) using wrapped_number [OF assms(2,3) i] by simp_all
  let ?mc = "mach s w" and ?td = "wrapped_request i n (mach s w)"
  note wr = write_wrapped [OF sm assms(8,11,9) n]
  have "(2 :: int) ^ 46 \<le> 2 ^ (64 - j)" using assms(3) by (intro power_increasing) auto
  then have "\<not> idx_ok (page_num ?td)" by (simp add: wrapped_request_def idx_ok_def MAX_SIZE_def assms(10))
  moreover have "take ps (drop (i * ps) (mapping (writer_after i line Prompt ?mc))) =
      line @ drop (length line) (take ps (drop (i * ps) (mapping ?mc)))"
    using sm page_room [of N ?mc i] assms(9,11)
    by (auto simp: writer_after_def safe_machine_def drop_overlay_same line_ok_def drop_take add.commute)
  ultimately show ?thesis
    using wr by (simp add: after_menu_def server_wrapped writer_after_def)
qed

theorem msi_page_number_wraps_witness:
  "\<exists>s t td. bind_res (init_sys 8 (int 3) zero_info (blank_buffers 8) (\<lambda>_. [])) (run_events sys_step []) = Inr s \<and>
    sys_step (Key Two (Write (int 1 + 2 ^ 61) ''b'')) s = Inr t \<and> list_MSI (mach t Two) 1 = flags Mod \<and>
    take 8 (drop (1 * 8) (mapping (mach t Two))) = ''b'' @ drop (length ''b'') (take 8 (drop (1 * 8) (mapping (mach s Two)))) \<and>
    requests t (peer Two) = requests s (peer Two) @ [td] \<and>
    server_handle td (mach t (peer Two)) = Inl OutOfBounds"
proof -
  have "case bind_res (init_sys 8 (int 3) zero_info (blank_buffers 8) (\<lambda>_. []))
      (run_events sys_step []) of Inl f \<Rightarrow> False | Inr s \<Rightarrow> menu_at (mach s Two) = Prompt"
    by code_simp
  then obtain s where s: "bind_res (init_sys 8 (int 3) zero_info (blank_buffers 8) (\<lambda>_. []))
      (run_events sys_step []) = Inr s" "menu_at (mach s Two) = Prompt"
    by (auto split: sum.splits)
  have "(8 :: nat) = 2 ^ 3" "(2 :: nat) \<le> 3" "(3 :: nat) \<le> 18" "(3 :: nat) \<in> {1..4096}" "(1 :: nat) < 3"
    "int 1 + 2 ^ 61 = int 1 + 2 ^ (64 - 3)" "line_ok 8 ''b''" "list_all (event_ok 3 8) []" "(0 :: nat) < 8"
    by (simp_all add: line_ok_def)
  from msi_page_number_wraps [OF this(1-4) blank_buffers_ok [OF this(9)] this(8) s this(5-7)] show ?thesis
    using s(1) by blast
qed

end
