(* ===== verification/Msi_Race.thy ===== *)
theory Msi_Race
  imports Msi_Blocking
begin

text \<open>
  The flags of a page are three variables that the menu thread and the server thread of one process of
  \<open>Project_3_new/part4/part4.c\<close> assign without a lock. \<open>Msi_System\<close> takes the three assignments of a
  thread together; here they are the single steps, and two threads at the same page are all
  the ways to merge their two sequences (\<open>shuffles\<close>), each in the order of the source.
\<close>

section \<open>Assignments\<close>

datatype flag_assign = Set_M bool | Set_S bool | Set_I bool

fun assign :: "flag_assign \<Rightarrow> MSIList \<Rightarrow> MSIList" where
  "assign (Set_M b) st = st\<lparr>M := b\<rparr>"
| "assign (Set_S b) st = st\<lparr>S := b\<rparr>"
| "assign (Set_I b) st = st\<lparr>I := b\<rparr>"

text \<open>The menu's write, the menu's read, and the server's answers to a write and to a read.\<close>

definition write_assigns :: "flag_assign list" where
  "write_assigns = [Set_M True, Set_I False, Set_S False]"

definition read_assigns :: "flag_assign list" where
  "read_assigns = [Set_I False, Set_S True, Set_M False]"

definition invalidate_assigns :: "flag_assign list" where
  "invalidate_assigns = [Set_M False, Set_S False, Set_I True]"

definition share_assigns :: "flag_assign list" where
  "share_assigns = [Set_M False, Set_S True, Set_I False]"


lemmas assigns = write_assigns_def read_assigns_def invalidate_assigns_def share_assigns_def

text \<open>One thread alone does what the transitions of \<open>Msi_Machine\<close> say.\<close>

lemma assigns_alone:
  "set_msi i True False False mc = mc\<lparr>list_MSI := (list_MSI mc)(i := fold assign write_assigns (list_MSI mc i))\<rparr>"
  "set_msi i False True False mc = mc\<lparr>list_MSI := (list_MSI mc)(i := fold assign read_assigns (list_MSI mc i))\<rparr>"
  "set_msi i False False True mc = mc\<lparr>list_MSI := (list_MSI mc)(i := fold assign invalidate_assigns (list_MSI mc i))\<rparr>"
  "set_msi i False True False mc = mc\<lparr>list_MSI := (list_MSI mc)(i := fold assign share_assigns (list_MSI mc i))\<rparr>"
  by (cases "list_MSI mc i"; simp add: set_msi_def assigns)+

section \<open>Two threads at one page\<close>



text \<open>A page that has no flag, or the Modified and the Invalid one.\<close>

definition with_flags :: "nat \<Rightarrow> MSIList \<Rightarrow> machine \<Rightarrow> machine" where
  "with_flags i st mc = mc\<lparr>list_MSI := (list_MSI mc)(i := st)\<rparr>"

lemma with_flags_sel [simp]:
  "machine_ok N (with_flags i st mc) = machine_ok N mc" "list_MSI (with_flags i st mc) i = st"
  "menu_at (with_flags i st mc) = menu_at mc" "page_size (with_flags i st mc) = page_size mc"
  "temp_data (with_flags i st mc) = temp_data mc" "mapping (with_flags i st mc) = mapping mc"
  by (simp_all add: with_flags_def machine_ok_def page_byte_def)






end
