(* ===== verification/Sockets.thy ===== *)
theory Sockets
  imports Prelude
begin

text \<open>
  The socket programs: \<open>Project_1/server.c\<close> and \<open>client.c\<close>, \<open>Project_1/code-socket\<close>,
  \<open>Project_3/part2\<close> (\<open>part2.c\<close>, \<open>part22.c\<close>, \<open>submission/part2.c\<close>) and \<open>Project_3/part2_v2\<close>.
  A program is a function that makes system calls one after the other, recording them; an
  environment answers each call, given the calls made before, with its return value and with
  the bytes received. A program ends by \<open>exit\<close> with a message or by returning.
\<close>

section \<open>System calls\<close>

datatype syscall =
    Socket
  | Setsockopt int
  | Bind int
  | Listen int
  | Accept int
  | Connect int
  | Inet_addr
  | Getchar
  | Sleep
  | Send int string
  | Recv int nat
  | Write_addr int int
  | Mmap int
  | Userfaultfd
  | Pthread_create
  | Ioctl_api int
  | Ioctl_register int
  | Close int

record proc =
  calls :: "(syscall \<times> int) list"
  shown :: "string list"

type_synonym env = "(syscall \<times> int) list \<Rightarrow> syscall \<Rightarrow> int \<times> string"

type_synonym 'a io = "proc \<Rightarrow> (string + 'a) \<times> proc"

definition start :: proc where
  "start = \<lparr>calls = [], shown = []\<rparr>"

definition ret :: "'a \<Rightarrow> 'a io" where
  "ret x p = (Inr x, p)"

definition bind_io :: "'a io \<Rightarrow> ('a \<Rightarrow> 'b io) \<Rightarrow> 'b io" where
  "bind_io m f p = (case m p of (Inl msg, p') \<Rightarrow> (Inl msg, p') | (Inr x, p') \<Rightarrow> f x p')"

definition exit_io :: "string \<Rightarrow> 'a io" where
  "exit_io msg p = (Inl msg, p)"

definition print_io :: "string \<Rightarrow> unit io" where
  "print_io s p = (Inr (), p\<lparr>shown := shown p @ [s]\<rparr>)"

definition sys_call :: "env \<Rightarrow> syscall \<Rightarrow> int io" where
  "sys_call e c p = (let r = fst (e (calls p) c) in (Inr r, p\<lparr>calls := calls p @ [(c, r)]\<rparr>))"

definition recv_call :: "env \<Rightarrow> int \<Rightarrow> nat \<Rightarrow> string io" where
  "recv_call e fd n p =
     (let (r, bytes) = e (calls p) (Recv fd n)
      in (Inr (take n bytes), p\<lparr>calls := calls p @ [(Recv fd n, r)]\<rparr>))"

text \<open>A call whose failure, a condition on its value, ends the program with a message.\<close>

definition need :: "env \<Rightarrow> syscall \<Rightarrow> (int \<Rightarrow> bool) \<Rightarrow> string \<Rightarrow> int io" where
  "need e c failed msg = bind_io (sys_call e c) (\<lambda>r. if failed r then exit_io msg else ret r)"

text \<open>\<open>perror\<close> without \<open>exit\<close>.\<close>

definition warn :: "env \<Rightarrow> syscall \<Rightarrow> (int \<Rightarrow> bool) \<Rightarrow> string \<Rightarrow> unit io" where
  "warn e c failed msg = bind_io (sys_call e c) (\<lambda>r. if failed r then print_io msg else ret ())"

section \<open>Servers\<close>

text \<open>
  The opening every server shares: the descriptor of a socket that is tested against 0 (not
  against a negative value), then its option, address and queue.
\<close>

definition open_server :: "env \<Rightarrow> int io" where
  "open_server e =
     bind_io (need e Socket (\<lambda>r. r = 0) ''socket failed'') (\<lambda>fd.
     bind_io (need e (Setsockopt fd) (\<lambda>r. r \<noteq> 0) ''setsockopt'') (\<lambda>_.
     bind_io (need e (Bind fd) (\<lambda>r. r < 0) ''bind failed'') (\<lambda>_.
     bind_io (need e (Listen fd) (\<lambda>r. r < 0) ''listen'') (\<lambda>_. ret fd))))"

definition hello_server :: string where
  "hello_server = ''Hello from server''"

definition hello_client :: string where
  "hello_client = ''Hello from client''"

text \<open>\<open>printf("%s", buffer)\<close> of a zeroed buffer of 4096 bytes into which at most 1024 were read.\<close>

definition received :: "string \<Rightarrow> string" where
  "received bytes = takeWhile (\<lambda>c. c \<noteq> NUL) bytes"

definition p1_server :: "env \<Rightarrow> unit io" where
  "p1_server e =
     bind_io (open_server e) (\<lambda>fd.
     bind_io (need e (Accept fd) (\<lambda>r. r < 0) ''accept'') (\<lambda>new_socket.
     bind_io (sys_call e Getchar) (\<lambda>_.
     bind_io (recv_call e new_socket 1024) (\<lambda>bytes.
     bind_io (print_io (''Message from a client: '' @ received bytes)) (\<lambda>_.
     bind_io (sys_call e (Send new_socket hello_server)) (\<lambda>_.
     print_io ''Hello message sent''))))))"

text \<open>
  \<open>code-socket/server.c\<close> sends the structure \<open>stuff\<close>: an \<open>int\<close> and the value of a pointer (of
  which the bytes are \<open>ptr\<close>).
\<close>

definition cs_server :: "string \<Rightarrow> env \<Rightarrow> unit io" where
  "cs_server ptr e =
     bind_io (open_server e) (\<lambda>fd.
     bind_io (need e (Accept fd) (\<lambda>r. r < 0) ''accept'') (\<lambda>new_socket.
     bind_io (sys_call e Getchar) (\<lambda>_.
     bind_io (recv_call e new_socket 1024) (\<lambda>bytes.
     bind_io (print_io (''Message from a client: '' @ received bytes)) (\<lambda>_.
     bind_io (sys_call e (Send new_socket ([CHR 0x02, NUL, NUL, NUL] @ ptr))) (\<lambda>_.
     print_io ''Hello message sent''))))))"

text \<open>
  \<open>part22.c\<close>: \<open>new_socket = accept(...) < 0\<close> assigns the comparison, so \<open>new_socket\<close> is 0 whenever
  the program goes on.
\<close>

definition p22_server :: "env \<Rightarrow> unit io" where
  "p22_server e =
     bind_io (open_server e) (\<lambda>fd.
     bind_io (sys_call e (Accept fd)) (\<lambda>r.
     let new_socket = (if r < 0 then 1 else 0 :: int)
     in if new_socket \<noteq> 0 then exit_io ''accept''
        else
          bind_io (sys_call e Getchar) (\<lambda>_.
          bind_io (sys_call e (Send new_socket ''Hello from Server'')) (\<lambda>_.
          print_io ''String sending: Hello from Server''))))"

text \<open>\<open>part2.c\<close>: every value of \<open>accept\<close> but 0 counts as a connection.\<close>

definition p2_server :: "int \<Rightarrow> env \<Rightarrow> unit io" where
  "p2_server mem_size e =
     bind_io (open_server e) (\<lambda>fd.
     bind_io (sys_call e (Accept fd)) (\<lambda>new_socket.
     bind_io
       (if new_socket \<noteq> 0 then
          bind_io (print_io ''Connection accepted'') (\<lambda>_.
          bind_io (need e (Mmap mem_size) (\<lambda>r. r = -1) ''mmap'') (\<lambda>addr.
          bind_io (sys_call e (Write_addr new_socket addr)) (\<lambda>_.
          print_io ''Address returned by mmap()'')))
        else ret ())
     (\<lambda>_. bind_io (sys_call e (Close fd)) (\<lambda>_. ret ()))))"

definition sub_server :: "env \<Rightarrow> unit io" where
  "sub_server e =
     bind_io (open_server e) (\<lambda>fd.
     bind_io (print_io ''Trying to connect ... '') (\<lambda>_.
     bind_io (sys_call e (Accept fd)) (\<lambda>new_socket.
     if new_socket \<noteq> 0 then print_io ''Connection accepted'' else ret ())))"

text \<open>
  \<open>part2_v2/part2.c\<close> serves clients for ever; \<open>n\<close> is how many of them the model follows. Its
  buffer is zeroed once, so it keeps the tail of a longer earlier message.
\<close>

fun v2_serve :: "nat \<Rightarrow> int \<Rightarrow> string \<Rightarrow> env \<Rightarrow> unit io" where
  "v2_serve 0 fd buffer e = ret ()"
| "v2_serve (Suc n) fd buffer e =
     bind_io (need e (Accept fd) (\<lambda>r. r < 0) ''accept'') (\<lambda>new_socket.
     bind_io (sys_call e Getchar) (\<lambda>_.
     bind_io (recv_call e new_socket 1024) (\<lambda>bytes.
     let buffer = overlay buffer 0 bytes in
     bind_io (print_io (''Message from a client: '' @ received buffer)) (\<lambda>_.
     bind_io (sys_call e (Send new_socket hello_server)) (\<lambda>_.
     bind_io (print_io ''Hello message sent'') (\<lambda>_.
     v2_serve n fd buffer e))))))"

definition v2_server :: "nat \<Rightarrow> env \<Rightarrow> unit io" where
  "v2_server n e = bind_io (open_server e) (\<lambda>fd. v2_serve n fd (replicate 4096 NUL) e)"

section \<open>Clients\<close>

text \<open>The clients that test for a negative descriptor and give up when the server is not there.\<close>

definition p1_client :: "env \<Rightarrow> unit io" where
  "p1_client e =
     bind_io (need e Socket (\<lambda>r. r < 0) ''Socket creation error'') (\<lambda>sock.
     bind_io (need e Inet_addr (\<lambda>r. r \<le> 0) ''Invalid address/ Address not supported'') (\<lambda>_.
     bind_io (need e (Connect sock) (\<lambda>r. r < 0) ''Connection Failed'') (\<lambda>_.
     bind_io (sys_call e Getchar) (\<lambda>_.
     bind_io (sys_call e (Send sock hello_client)) (\<lambda>_.
     bind_io (print_io ''Hello message sent'') (\<lambda>_.
     bind_io (recv_call e sock 1024) (\<lambda>bytes.
     print_io (''Message from a server: '' @ received bytes))))))))"

definition v2_client :: "env \<Rightarrow> unit io" where
  "v2_client e =
     bind_io (need e Socket (\<lambda>r. r < 0) ''Socket creation error'') (\<lambda>sock.
     bind_io (need e Inet_addr (\<lambda>r. r \<le> 0) ''Invalid address/ Address not supported'') (\<lambda>_.
     bind_io (need e (Connect sock) (\<lambda>r. r < 0) ''Connection Failed'') (\<lambda>_.
     bind_io (sys_call e Getchar) (\<lambda>_.
     bind_io (sys_call e (Send sock hello_client)) (\<lambda>_.
     bind_io (print_io ''Hello message sent'') (\<lambda>_.
     bind_io (recv_call e sock 1024) (\<lambda>bytes.
     print_io (''Message from a server: '' @ received bytes))))))))"

text \<open>
  \<open>while (connect(...) < 0) sleep(1)\<close>: with fuel \<open>n\<close>, whether a connection was made. It need not
  end, so giving up after \<open>n\<close> attempts is the model's own exit.
\<close>

definition no_connection :: string where
  "no_connection = ''still connecting''"

fun retry_connect :: "nat \<Rightarrow> int \<Rightarrow> env \<Rightarrow> unit io" where
  "retry_connect 0 fd e = exit_io no_connection"
| "retry_connect (Suc n) fd e =
     bind_io (sys_call e (Connect fd)) (\<lambda>r.
       if r < 0 then
         bind_io (print_io ''Connection Failed'') (\<lambda>_.
         bind_io (sys_call e Sleep) (\<lambda>_. retry_connect n fd e))
       else ret ())"

text \<open>\<open>code-socket/client.c\<close> dereferences the pointer it was sent: a read of a foreign address.\<close>

definition cs_client :: "nat \<Rightarrow> env \<Rightarrow> string io" where
  "cs_client n e =
     bind_io (need e Socket (\<lambda>r. r < 0) ''Socket creation error'') (\<lambda>sock.
     bind_io (need e Inet_addr (\<lambda>r. r \<le> 0) ''Invalid address/ Address not supported'') (\<lambda>_.
     bind_io (retry_connect n sock e) (\<lambda>_.
     bind_io (sys_call e Getchar) (\<lambda>_.
     bind_io (sys_call e (Send sock hello_client)) (\<lambda>_.
     bind_io (print_io ''Hello message sent'') (\<lambda>_.
     bind_io (recv_call e sock 12) (\<lambda>bytes. ret (drop 4 bytes))))))))"

definition p22_client :: "env \<Rightarrow> unit io" where
  "p22_client e =
     bind_io (need e Socket (\<lambda>r. r = 0) ''socket failed'') (\<lambda>fd.
     bind_io (need e Inet_addr (\<lambda>r. r \<le> 0) ''Invalid address/ Address not supported'') (\<lambda>_.
     bind_io (print_io ''Passed inet'') (\<lambda>_.
     bind_io (need e (Connect fd) (\<lambda>r. r < 0) ''Connection Failed'') (\<lambda>_.
     bind_io (sys_call e Getchar) (\<lambda>_.
     bind_io (recv_call e fd 4096) (\<lambda>bytes.
     print_io (''Message from a server: '' @ received bytes)))))))"

definition p2_client :: "nat \<Rightarrow> int \<Rightarrow> env \<Rightarrow> unit io" where
  "p2_client n mem_size e =
     bind_io (need e Socket (\<lambda>r. r = 0) ''socket failed'') (\<lambda>fd.
     bind_io (need e Inet_addr (\<lambda>r. r \<le> 0) ''Invalid Address | Address not supported'') (\<lambda>_.
     bind_io (print_io ''Passed inet'') (\<lambda>_.
     bind_io (retry_connect n fd e) (\<lambda>_.
     bind_io (recv_call e fd 8) (\<lambda>_.
     bind_io (need e (Mmap mem_size) (\<lambda>r. r = -1) ''mmap'') (\<lambda>_.
     print_io ''Address returned by mmap()''))))))"

definition sub_client :: "env \<Rightarrow> unit io" where
  "sub_client e =
     bind_io (need e Socket (\<lambda>r. r = 0) ''socket failed'') (\<lambda>fd.
     bind_io (need e Inet_addr (\<lambda>r. r \<le> 0) ''Invalid Address | Address not supported'') (\<lambda>_.
     bind_io (print_io ''Passed inet'') (\<lambda>_.
     bind_io (warn e (Connect fd) (\<lambda>r. r < 0) ''Connection Failed'') (\<lambda>_.
     bind_io (recv_call e fd 8) (\<lambda>_.
     bind_io (need e (Mmap 3) (\<lambda>r. r = -1) ''mmap'') (\<lambda>_.
     print_io ''Address returned by mmap()''))))))"

section \<open>Main programs\<close>

definition p22_select :: "string \<Rightarrow> env \<Rightarrow> unit io" where
  "p22_select socket_type e =
     (if socket_type = ''s'' then p22_server e
      else if socket_type = ''c'' then p22_client e
      else print_io ''Not Applicable'')"

text \<open>
  \<open>argc < 4\<close> is tested but \<open>argv[4]\<close> is read: with exactly four arguments \<open>argv[4]\<close> is the NULL
  that ends the vector. \<open>atoi\<close> of the arguments is a parameter.
\<close>

definition p22_main :: "(string \<Rightarrow> int) \<Rightarrow> string list \<Rightarrow> env \<Rightarrow> unit io res" where
  "p22_main atoi argv e =
     (if length argv < 4 then Inr (print_io ''Not enough arguments'')
      else if length argv = 4 then Inl NullDeref
      else Inr (if atoi (argv ! 4) = 1 then p22_select (argv ! 1) e else p22_select (argv ! 3) e))"

definition v2_main :: "nat \<Rightarrow> env \<Rightarrow> unit io" where
  "v2_main n e =
     bind_io (print_io ''Hello World'') (\<lambda>_.
     bind_io (sys_call e Getchar) (\<lambda>c.
       if c = 0 then v2_server n e
       else if c = 1 then v2_client e
       else ret ()))"

text \<open>
  \<open>submission/part2.c\<close>: the memory is registered, then the client runs in the main thread and
  \<open>pthread_create\<close> gets its result, a null function, which the new thread jumps to
  (\<open>null_start\<close>); the server is commented out.
\<close>

definition null_start :: string where
  "null_start = ''thread started at NULL''"

definition sub_register :: "env \<Rightarrow> unit io" where
  "sub_register e =
     bind_io (need e Userfaultfd (\<lambda>r. r = -1) ''userfaultfd'') (\<lambda>uffd.
     bind_io (need e (Ioctl_api uffd) (\<lambda>r. r = -1) ''ioctl-UFFDIO_API'') (\<lambda>_.
     bind_io (need e (Mmap (3 * 4096)) (\<lambda>r. r = -1) ''mmap'') (\<lambda>_.
     bind_io (need e (Ioctl_register uffd) (\<lambda>r. r = -1) ''ioctl-UFFDIO_REGISTER'') (\<lambda>_.
     print_io ''Finished Initialization''))))"

definition sub_main :: "int \<Rightarrow> env \<Rightarrow> unit io" where
  "sub_main test e =
     bind_io (sub_register e) (\<lambda>_.
       if test = 0 then print_io ''here''
       else if test = 1 then bind_io (sub_client e) (\<lambda>_. exit_io null_start)
       else ret ())"

text \<open>\<open>part2.c\<close> runs its client in a thread and waits for it; \<open>mem_size\<close> is still 0.\<close>

definition p2_main :: "nat \<Rightarrow> env \<Rightarrow> unit io" where
  "p2_main n e = p2_client n 0 e"

section \<open>The openings of the page-sharing programs\<close>

text \<open>
  \<open>Project_3_new/part4/part4.c\<close>: the server thread up to the accepted connection, and the client
  thread up to the number of its machine: 1 when no server is there yet.
\<close>

definition msi_accept :: "env \<Rightarrow> int io" where
  "msi_accept e =
     bind_io (open_server e) (\<lambda>fd.
     bind_io (sys_call e (Accept fd)) (\<lambda>new_socket.
     bind_io (if new_socket \<noteq> 0 then print_io ''Connection accepted'' else ret ()) (\<lambda>_. ret new_socket)))"

definition msi_connect :: "nat \<Rightarrow> env \<Rightarrow> int io" where
  "msi_connect n e =
     bind_io (need e Socket (\<lambda>r. r = 0) ''socket failed'') (\<lambda>fd.
     bind_io (need e Inet_addr (\<lambda>r. r \<le> 0) ''Invalid Address | Address not supported'') (\<lambda>_.
     bind_io (sys_call e (Connect fd)) (\<lambda>r.
       if r < 0 then bind_io (retry_connect n fd e) (\<lambda>_. ret 1) else ret 2)))"

text \<open>\<open>Project_3/part4/part4.c\<close>: a failed \<open>bind\<close> or \<open>listen\<close> is reported and ignored.\<close>

definition draft_accept :: "env \<Rightarrow> int io" where
  "draft_accept e =
     bind_io (need e Socket (\<lambda>r. r = 0) ''socket failed'') (\<lambda>fd.
     bind_io (need e (Setsockopt fd) (\<lambda>r. r \<noteq> 0) ''setsockopt'') (\<lambda>_.
     bind_io (warn e (Bind fd) (\<lambda>r. r < 0) ''bind failed'') (\<lambda>_.
     bind_io (warn e (Listen fd) (\<lambda>r. r < 0) ''listen'') (\<lambda>_.
     sys_call e (Accept fd)))))"

text \<open>Its client thread: the same calls as those of the later version, and a line when it is connected.\<close>

definition draft_connect :: "nat \<Rightarrow> env \<Rightarrow> int io" where
  "draft_connect n e =
     bind_io (msi_connect n e) (\<lambda>order.
     bind_io (print_io ''Connection Established'') (\<lambda>_. ret order))"

end
