(* ===== verification/Shm.thy ===== *)
theory Shm
  imports Uffd Sockets
begin

text \<open>
  \<open>Project_3/part3/part3.c\<close>: two processes agree on an address and a number of pages over a
  socket, each maps the pages and fills them on demand through userfaultfd, and then each user
  reads and writes pages from a menu (the pages themselves are not shared).
\<close>

section \<open>Setting up\<close>

text \<open>
  The machine that finds no server is machine 1: its server thread maps the pages and sends the
  address; the client thread of machine 2 receives it and maps at the same address if it can.
\<close>

definition shm_page_size :: int where
  "shm_page_size = 4096"

definition register_region :: "env \<Rightarrow> int \<Rightarrow> unit io" where
  "register_region e uffd =
     bind_io (need e (Ioctl_api uffd) (\<lambda>r. r = -1) ''ioctl-UFFDIO_API'') (\<lambda>_.
     bind_io (need e (Ioctl_register uffd) (\<lambda>r. r = -1) ''ioctl-UFFDIO_REGISTER'') (\<lambda>_.
     print_io ''Finished Initialization''))"

text \<open>What a set-up thread leaves: the address kept in \<open>data\<close> and the address that is mapped.\<close>

definition shm_server :: "int \<Rightarrow> int \<Rightarrow> env \<Rightarrow> (int \<times> int) option io" where
  "shm_server order pg_count e =
     bind_io (need e Socket (\<lambda>r. r = 0) ''socket failed'') (\<lambda>fd.
     bind_io (need e (Setsockopt fd) (\<lambda>r. r \<noteq> 0) ''setsockopt'') (\<lambda>_.
     bind_io (warn e (Bind fd) (\<lambda>r. r < 0) ''bind failed'') (\<lambda>_.
     bind_io (warn e (Listen fd) (\<lambda>r. r < 0) ''listen'') (\<lambda>_.
     bind_io (sys_call e (Accept fd)) (\<lambda>new_socket.
       if new_socket \<noteq> 0 \<and> order = 1 then
         bind_io (sys_call e Sleep) (\<lambda>_.
         bind_io (need e (Mmap (pg_count * shm_page_size)) (\<lambda>r. r = -1) ''mmap'') (\<lambda>addr.
         bind_io (sys_call e (Write_addr new_socket addr)) (\<lambda>_.
         bind_io (need e Userfaultfd (\<lambda>r. r = -1) ''userfaultfd'') (\<lambda>uffd.
         bind_io (register_region e uffd) (\<lambda>_. ret (Some (addr, addr)))))))
       else ret None)))))"

definition shm_client :: "nat \<Rightarrow> (string \<Rightarrow> int \<times> int) \<Rightarrow> env \<Rightarrow> (int \<times> (int \<times> int) option) io" where
  "shm_client n decode e =
     bind_io (need e Socket (\<lambda>r. r = 0) ''socket failed'') (\<lambda>fd.
     bind_io (need e Inet_addr (\<lambda>r. r \<le> 0) ''Invalid Address | Address not supported'') (\<lambda>_.
     bind_io (sys_call e (Connect fd)) (\<lambda>r.
     bind_io (if r < 0 then bind_io (retry_connect n fd e) (\<lambda>_. ret 1) else ret 2) (\<lambda>order.
     bind_io (print_io ''Connection Established'') (\<lambda>_.
       if order = 2 then
         bind_io (recv_call e fd 32) (\<lambda>bytes.
         let (addr, pg_count) = decode bytes in
         bind_io (need e Userfaultfd (\<lambda>r. r = -1) ''userfaultfd'') (\<lambda>uffd.
         bind_io (need e (Mmap (pg_count * shm_page_size)) (\<lambda>r. r = -1) ''mmap'') (\<lambda>recv_addr.
         bind_io (register_region e uffd) (\<lambda>_. ret (order, Some (addr, recv_addr))))))
       else ret (order, None))))))"

section \<open>The menu\<close>

datatype shm_line =
    ReadingNo "64 word"
  | ReadingAll
  | ReadAt int string
  | CantRead
  | CantWrite

text \<open>
  \<open>mch\<close>: the base address the process uses, the number of pages and the length, beside the
  mapped region.
\<close>

record shm =
  reg :: region
  mch_addr :: "64 word"
  pg_size :: "64 word"
  mlength :: nat
  msgbuf :: string
  lines :: "shm_line list"

datatype shm_command =
    MRead int
  | MWrite int string
  | MQuit
  | MOther

text \<open>The offset in the mapped region of \<open>mch.addr + l\<close>.\<close>

definition at_offset :: "shm \<Rightarrow> int \<Rightarrow> nat" where
  "at_offset s l = unat (mch_addr s + word_of_int l - rbase (reg s))"

text \<open>\<open>l += num * page_size\<close>: an \<open>unsigned long\<close> product stored in an \<open>int\<close>.\<close>

definition page_offset :: "64 word \<Rightarrow> nat \<Rightarrow> int" where
  "page_offset num ps = to_int32 (uint (num * word_of_nat ps))"

text \<open>
  \<open>while (l < mch.length) { ...; l += page_size; }\<close>: an \<open>int\<close> that passes 2 ^ 31 becomes
  negative, which as an \<open>unsigned long\<close> is beyond every length, so the loop ends there.
\<close>

function each_page :: "nat \<Rightarrow> (int \<Rightarrow> 's \<Rightarrow> 's res) \<Rightarrow> nat \<Rightarrow> nat \<Rightarrow> 's \<Rightarrow> 's res" where
  "each_page ps body len l s =
     (if l < len \<and> 0 < ps then
        bind_res (body (int l) s) (\<lambda>s. if 2 ^ 31 \<le> l + ps then Inr s else each_page ps body len (l + ps) s)
      else Inr s)"
  by pat_completeness auto
termination by (relation "measure (\<lambda>(ps, body, len, l, s). len - l)") auto

declare each_page.simps [simp del]

definition read_at :: "(nat \<Rightarrow> pf_outcome) \<Rightarrow> int \<Rightarrow> shm \<Rightarrow> shm res" where
  "read_at outs l s =
     bind_res (read_cstr (zero_page (rsize (reg s))) outs (at_offset s l) (reg s)) (\<lambda>(str, r).
       Inr (s\<lparr>reg := r, lines := lines s @ [ReadAt l str]\<rparr>))"

definition mem_read :: "(nat \<Rightarrow> pf_outcome) \<Rightarrow> 64 word \<Rightarrow> shm \<Rightarrow> shm res" where
  "mem_read outs num s0 =
     (let s = s0\<lparr>lines := lines s0 @ [ReadingNo num]\<rparr>
      in if num = -1
         then each_page (rsize (reg s)) (read_at outs) (mlength s) 0 (s\<lparr>lines := lines s @ [ReadingAll]\<rparr>)
         else read_at outs (page_offset num (rsize (reg s))) s)"

fun write_bytes :: "(nat \<Rightarrow> pf_outcome) \<Rightarrow> nat \<Rightarrow> char list \<Rightarrow> region \<Rightarrow> region res" where
  "write_bytes outs l [] r = Inr r"
| "write_bytes outs l (c # cs) r =
     bind_res (write_byte (zero_page (rsize r)) outs l c r) (write_bytes outs (Suc l) cs)"

text \<open>\<open>memcpy(mch.addr + l, msg, strlen(msg))\<close>.\<close>

definition write_at :: "(nat \<Rightarrow> pf_outcome) \<Rightarrow> string \<Rightarrow> int \<Rightarrow> shm \<Rightarrow> shm res" where
  "write_at outs msg l s =
     bind_res (write_bytes outs (at_offset s l) msg (reg s)) (\<lambda>r. Inr (s\<lparr>reg := r\<rparr>))"

definition mem_write :: "(nat \<Rightarrow> pf_outcome) \<Rightarrow> 64 word \<Rightarrow> string \<Rightarrow> shm \<Rightarrow> shm res" where
  "mem_write outs num msg s =
     (if num = -1 then each_page (rsize (reg s)) (write_at outs msg) (mlength s) 0 s
      else write_at outs msg (page_offset num (rsize (reg s))) s)"

text \<open>
  One pass of the menu. \<open>access\<close> is an \<open>unsigned long\<close>, so a negative number is a large page
  number, and -1 means all pages. On \<open>q\<close> the buffer of the command is freed and then compared
  once more.
\<close>

definition access_allowed :: "64 word \<Rightarrow> shm \<Rightarrow> bool" where
  "access_allowed access s \<longleftrightarrow> access < pg_size s \<or> access = -1"

fun shm_menu :: "(nat \<Rightarrow> pf_outcome) \<Rightarrow> shm_command \<Rightarrow> shm \<Rightarrow> shm res" where
  "shm_menu outs (MRead n) s =
     (let access = word_of_int n
      in if access_allowed access s then mem_read outs access s
         else Inr (s\<lparr>lines := lines s @ [CantRead]\<rparr>))"
| "shm_menu outs (MWrite n line) s =
     (let access = word_of_int n
      in if access_allowed access s then
           if rsize (reg s) \<le> length line then Inl OutOfBounds
           else
             let msg = (if line = [] then msgbuf s else takeWhile (\<lambda>c. c \<noteq> NUL) line)
             in mem_write outs access msg (s\<lparr>msgbuf := msg\<rparr>)
         else Inr (s\<lparr>lines := lines s @ [CantWrite]\<rparr>))"
| "shm_menu outs MQuit s = Inl UseAfterFree"
| "shm_menu outs MOther s = Inr s"

definition shm_start :: "nat \<Rightarrow> nat \<Rightarrow> 64 word \<Rightarrow> 64 word \<Rightarrow> string \<Rightarrow> shm" where
  "shm_start ps n addr base msg = \<lparr>reg = fresh_region ps n base, mch_addr = addr,
     pg_size = word_of_nat n, mlength = n * ps, msgbuf = msg, lines = []\<rparr>"

section \<open>The abstract menu\<close>

text \<open>The same over a zeroed array of bytes: what the user sees of the process.\<close>

record page_file =
  bytes :: "char list"
  last_message :: string
  seen :: "shm_line list"

definition page_str :: "nat \<Rightarrow> char list \<Rightarrow> nat \<Rightarrow> string" where
  "page_str ps mem i = takeWhile (\<lambda>c. c \<noteq> NUL) (drop (i * ps) mem)"

definition spec_read_pages :: "nat \<Rightarrow> nat list \<Rightarrow> page_file \<Rightarrow> page_file" where
  "spec_read_pages ps is f =
     f\<lparr>seen := seen f @ map (\<lambda>i. ReadAt (int (i * ps)) (page_str ps (bytes f) i)) is\<rparr>"

definition spec_write_pages :: "nat \<Rightarrow> string \<Rightarrow> nat list \<Rightarrow> page_file \<Rightarrow> page_file" where
  "spec_write_pages ps msg is f = f\<lparr>bytes := fold (\<lambda>i mem. overlay mem (i * ps) msg) is (bytes f)\<rparr>"

fun spec_menu :: "nat \<Rightarrow> nat \<Rightarrow> shm_command \<Rightarrow> page_file \<Rightarrow> page_file" where
  "spec_menu ps n (MRead m) f =
     (let a = (word_of_int m :: 64 word)
      in if a = -1 then spec_read_pages ps [0..<n] (f\<lparr>seen := seen f @ [ReadingNo a, ReadingAll]\<rparr>)
         else if unat a < n then spec_read_pages ps [unat a] (f\<lparr>seen := seen f @ [ReadingNo a]\<rparr>)
         else f\<lparr>seen := seen f @ [CantRead]\<rparr>)"
| "spec_menu ps n (MWrite m line) f =
     (let a = (word_of_int m :: 64 word);
          msg = (if line = [] then last_message f else line)
      in if a = -1 then spec_write_pages ps msg [0..<n] (f\<lparr>last_message := msg\<rparr>)
         else if unat a < n then spec_write_pages ps msg [unat a] (f\<lparr>last_message := msg\<rparr>)
         else f\<lparr>seen := seen f @ [CantWrite]\<rparr>)"
| "spec_menu ps n _ f = f"

end
