(* ===== verification/Shm_Correct.thy ===== *)
theory Shm_Correct
  imports Shm Uffd_Correct Msi_Coherence
begin

text \<open>
  The menu of \<open>Project_3/part3/part3.c\<close> over pages filled on demand behaves as the abstract menu over
  a zeroed array of bytes, for every sequence of commands; in particular it never leaves its
  memory, whatever page numbers are entered.
\<close>

section \<open>Strings in memory filled on demand\<close>

lemma region_ok_flat: "region_ok k n r \<Longrightarrow> length (flat r) = n * 2 ^ k"
  by (simp add: flat_def region_ok_def)

lemma read_byte_zero:
  assumes "region_ok k n r" and "l < n * 2 ^ k" and "all_served outs"
  shows "\<exists>r'. read_byte (zero_page (2 ^ k)) outs l r = Inr (flat r ! l, r') \<and> region_ok k n r' \<and>
    flat r' = flat r \<and> rbase r' = rbase r"
proof -
  obtain r' where r': "touch (zero_page (2 ^ k)) outs l r = Inr r'" "region_ok k n r'"
    "flat r' = flat r" "resident r' (l div 2 ^ k)"
    using touch_zero [OF assms] by blast
  moreover have "rbase r' = rbase r"
    using touch_ok [OF assms, of "zero_page (2 ^ k)"] r'(1)
    by (auto simp: zero_page_def filled_def split: if_splits)
  ultimately show ?thesis
    using flat_resident(1) [OF r'(2) assms(2) r'(4)] by (simp add: read_byte_def)
qed

lemma write_byte_zero:
  assumes "region_ok k n r" and "l < n * 2 ^ k" and "all_served outs"
  shows "\<exists>r'. write_byte (zero_page (2 ^ k)) outs l c r = Inr r' \<and> region_ok k n r' \<and>
    flat r' = (flat r)[l := c] \<and> rbase r' = rbase r"
proof -
  obtain r' where r': "touch (zero_page (2 ^ k)) outs l r = Inr r'" "region_ok k n r'"
    "flat r' = flat r" "resident r' (l div 2 ^ k)"
    using touch_zero [OF assms] by blast
  moreover have "rbase r' = rbase r"
    using touch_ok [OF assms, of "zero_page (2 ^ k)"] r'(1)
    by (auto simp: zero_page_def filled_def split: if_splits)
  moreover have "region_ok k n (r'\<lparr>rbytes := (rbytes r')[l := c]\<rparr>)"
    using r'(2) by (simp add: region_ok_def)
  ultimately show ?thesis
    using flat_resident(2) [OF r'(2) assms(2) r'(4)] by (simp add: write_byte_def)
qed

lemma read_cstr_zero:
  assumes "region_ok k n r" and "all_served outs" and "l \<le> j" and "j < n * 2 ^ k"
    and "flat r ! j = NUL"
  shows "\<exists>r'. read_cstr (zero_page (2 ^ k)) outs l r =
      Inr (takeWhile (\<lambda>c. c \<noteq> NUL) (drop l (flat r)), r') \<and>
    region_ok k n r' \<and> flat r' = flat r \<and> rbase r' = rbase r"
  using assms
proof (induction "j - l" arbitrary: l r)
  case 0
  then have "l = j" by simp
  obtain r' where r': "read_byte (zero_page (2 ^ k)) outs l r = Inr (flat r ! l, r')" "region_ok k n r'"
    "flat r' = flat r" "rbase r' = rbase r"
    using read_byte_zero [OF 0(2) _ 0(3), of l] 0 by auto
  moreover have "drop l (flat r) = NUL # drop (Suc l) (flat r)"
    using 0 \<open>l = j\<close> region_ok_flat [OF 0(2)] by (simp add: Cons_nth_drop_Suc [symmetric])
  ultimately show ?case
    using 0 \<open>l = j\<close> by (subst read_cstr.simps) simp
next
  case (Suc m)
  then have l: "l < n * 2 ^ k" "l < j" by auto
  obtain r1 where r1: "read_byte (zero_page (2 ^ k)) outs l r = Inr (flat r ! l, r1)" "region_ok k n r1"
    "flat r1 = flat r" "rbase r1 = rbase r"
    using read_byte_zero [OF Suc.prems(1) l(1) Suc.prems(2)] by blast
  have split: "drop l (flat r) = flat r ! l # drop (Suc l) (flat r)"
    using l region_ok_flat [OF Suc.prems(1)] by (simp add: Cons_nth_drop_Suc)
  show ?case
  proof (cases "flat r ! l = NUL")
    case True
    then show ?thesis using r1 split by (subst read_cstr.simps) simp
  next
    case False
    have m: "m = j - Suc l" using Suc.hyps(2) by simp
    obtain r2 where "read_cstr (zero_page (2 ^ k)) outs (Suc l) r1 =
        Inr (takeWhile (\<lambda>c. c \<noteq> NUL) (drop (Suc l) (flat r1)), r2)" "region_ok k n r2"
      "flat r2 = flat r1" "rbase r2 = rbase r1"
      using Suc.hyps(1) [OF m r1(2)] Suc.prems r1(3) l by auto
    then show ?thesis using r1 split False by (subst read_cstr.simps) simp
  qed
qed

lemma overlay_Cons:
  assumes "l + length (c # cs) \<le> length mem"
  shows "overlay mem l (c # cs) = overlay (mem[l := c]) (Suc l) cs"
proof -
  have "take (Suc l) (mem[l := c]) = take l mem @ [c]"
    using assms by (simp add: take_Suc_conv_app_nth)
  then show ?thesis using assms by (simp add: overlay_def)
qed

lemma write_bytes_zero:
  assumes "region_ok k n r" and "all_served outs" and "l + length cs \<le> n * 2 ^ k"
  shows "\<exists>r'. write_bytes outs l cs r = Inr r' \<and> region_ok k n r' \<and>
    flat r' = overlay (flat r) l cs \<and> rbase r' = rbase r"
  using assms
proof (induction cs arbitrary: l r)
  case (Cons c cs)
  obtain r1 where r1: "write_byte (zero_page (2 ^ k)) outs l c r = Inr r1" "region_ok k n r1"
    "flat r1 = (flat r)[l := c]" "rbase r1 = rbase r"
    using write_byte_zero [OF Cons.prems(1) _ Cons.prems(2), of l c] Cons.prems(3) by auto
  obtain r2 where "write_bytes outs (Suc l) cs r1 = Inr r2" "region_ok k n r2"
    "flat r2 = overlay (flat r1) (Suc l) cs" "rbase r2 = rbase r1"
    using Cons.IH [OF r1(2) Cons.prems(2), of "Suc l"] Cons.prems(3) by auto
  moreover have "overlay (flat r) l (c # cs) = overlay ((flat r)[l := c]) (Suc l) cs"
    using Cons.prems(3) region_ok_flat [OF Cons.prems(1)] by (intro overlay_Cons) simp
  moreover have "rsize r = 2 ^ k" using Cons.prems(1) by (simp add: region_ok_def)
  ultimately show ?case using r1 by simp
qed (simp add: overlay_def)

section \<open>The invariant\<close>

definition ends_NUL :: "nat \<Rightarrow> nat \<Rightarrow> char list \<Rightarrow> bool" where
  "ends_NUL ps n mem \<longleftrightarrow> length mem = n * ps \<and> (\<forall>i < n. mem ! (i * ps + (ps - 1)) = NUL)"

definition text_ok :: "nat \<Rightarrow> string \<Rightarrow> bool" where
  "text_ok ps s \<longleftrightarrow> length s < ps \<and> NUL \<notin> set s"

definition shm_ok :: "nat \<Rightarrow> nat \<Rightarrow> shm \<Rightarrow> bool" where
  "shm_ok k n s \<longleftrightarrow> region_ok k n (reg s) \<and> mch_addr s = rbase (reg s) \<and>
     pg_size s = word_of_nat n \<and> mlength s = n * 2 ^ k \<and> n * 2 ^ k < 2 ^ 31 \<and>
     text_ok (2 ^ k) (msgbuf s) \<and> ends_NUL (2 ^ k) n (flat (reg s))"

definition page_file_of :: "shm \<Rightarrow> page_file" where
  "page_file_of s = \<lparr>bytes = flat (reg s), last_message = msgbuf s, seen = lines s\<rparr>"

definition command_ok :: "nat \<Rightarrow> shm_command \<Rightarrow> bool" where
  "command_ok ps c = (case c of MWrite m line \<Rightarrow> text_ok ps line | MQuit \<Rightarrow> False | _ \<Rightarrow> True)"

lemma at_offset_ok: "shm_ok k n s \<Longrightarrow> l < 2 ^ 31 \<Longrightarrow> at_offset s (int l) = l"
  by (simp add: at_offset_def shm_ok_def unat_of_nat)

lemma page_below: "i < n \<Longrightarrow> i * 2 ^ k + (2 ^ k - 1) < n * (2 ^ k :: nat)"
  by (rule page_index_bound) simp_all

lemma page_span: "i < n \<Longrightarrow> i * 2 ^ k + 2 ^ k \<le> n * (2 ^ k :: nat)"
proof -
  assume "i < n"
  then have "Suc i * 2 ^ k \<le> n * 2 ^ k" by (intro mult_le_mono1) simp
  then show ?thesis by simp
qed

lemma read_at_ok:
  assumes ok: "shm_ok k n s" and srv: "all_served outs" and i: "i < n"
  shows "\<exists>t. read_at outs (int (i * 2 ^ k)) s = Inr t \<and> shm_ok k n t \<and>
    page_file_of t = spec_read_pages (2 ^ k) [i] (page_file_of s)"
proof -
  have r: "region_ok k n (reg s)" and rs: "rsize (reg s) = 2 ^ k" and small: "n * 2 ^ k < 2 ^ 31"
    and nul: "flat (reg s) ! (i * 2 ^ k + (2 ^ k - 1)) = NUL"
    using ok i by (auto simp: shm_ok_def region_ok_def ends_NUL_def)
  have off: "at_offset s (int (i * 2 ^ k)) = i * 2 ^ k"
    using page_below [OF i, of k] small by (intro at_offset_ok [OF ok]) linarith
  obtain r' where "read_cstr (zero_page (2 ^ k)) outs (i * 2 ^ k) (reg s) =
      Inr (page_str (2 ^ k) (flat (reg s)) i, r')" "region_ok k n r'" "flat r' = flat (reg s)"
    "rbase r' = rbase (reg s)"
    using read_cstr_zero [OF r srv le_add1 page_below [OF i] nul]
    by (auto simp: page_str_def)
  then show ?thesis
    using ok off rs by (auto simp: read_at_def shm_ok_def page_file_of_def spec_read_pages_def)
qed

lemma ends_NUL_overlay:
  assumes "ends_NUL ps n mem" and "text_ok ps msg" and "i < n"
  shows "ends_NUL ps n (overlay mem (i * ps) msg)"
proof -
  have ps: "length msg < ps" "0 < ps" using assms(2) by (auto simp: text_ok_def)
  have room: "i * ps + length msg \<le> length mem"
    using page_index_bound [OF assms(3), of "ps - 1" ps] ps assms(1) by (simp add: ends_NUL_def)
  have "overlay mem (i * ps) msg ! (j * ps + (ps - 1)) = NUL" if "j < n" for j
    using overlay_page_byte [of msg ps i n j "ps - 1" mem] assms ps that
    by (auto simp: ends_NUL_def)
  then show ?thesis using assms(1) room by (simp add: ends_NUL_def)
qed

lemma write_at_ok:
  assumes ok: "shm_ok k n s" and srv: "all_served outs" and i: "i < n" and msg: "text_ok (2 ^ k) msg"
  shows "\<exists>t. write_at outs msg (int (i * 2 ^ k)) s = Inr t \<and> shm_ok k n t \<and>
    page_file_of t = spec_write_pages (2 ^ k) msg [i] (page_file_of s)"
proof -
  have r: "region_ok k n (reg s)" and small: "n * 2 ^ k < 2 ^ 31"
    using ok by (auto simp: shm_ok_def)
  have len: "i * 2 ^ k + length msg \<le> n * 2 ^ k"
    using page_span [OF i, of k] msg by (simp add: text_ok_def)
  have off: "at_offset s (int (i * 2 ^ k)) = i * 2 ^ k"
    using page_below [OF i, of k] small by (intro at_offset_ok [OF ok]) linarith
  obtain r' where "write_bytes outs (i * 2 ^ k) msg (reg s) = Inr r'" "region_ok k n r'"
    "flat r' = overlay (flat (reg s)) (i * 2 ^ k) msg" "rbase r' = rbase (reg s)"
    using write_bytes_zero [OF r srv len] by blast
  moreover have "ends_NUL (2 ^ k) n (overlay (flat (reg s)) (i * 2 ^ k) msg)"
    using ok by (intro ends_NUL_overlay [OF _ msg i]) (simp add: shm_ok_def)
  ultimately show ?thesis
    using ok off by (auto simp: write_at_def shm_ok_def page_file_of_def spec_write_pages_def)
qed

section \<open>All pages\<close>

text \<open>A body that acts on one page, and its effect on the page file.\<close>

definition acts :: "nat \<Rightarrow> nat \<Rightarrow> (int \<Rightarrow> shm \<Rightarrow> shm res) \<Rightarrow> (nat \<Rightarrow> page_file \<Rightarrow> page_file) \<Rightarrow> bool" where
  "acts k n body f \<longleftrightarrow> (\<forall>s i. shm_ok k n s \<longrightarrow> i < n \<longrightarrow>
     (\<exists>t. body (int (i * 2 ^ k)) s = Inr t \<and> shm_ok k n t \<and> page_file_of t = f i (page_file_of s)))"

lemma each_page_acts:
  assumes "acts k n body f" and "n * 2 ^ k < 2 ^ 31" and "shm_ok k n s" and "j \<le> n"
  shows "\<exists>t. each_page (2 ^ k) body (n * 2 ^ k) (j * 2 ^ k) s = Inr t \<and> shm_ok k n t \<and>
    page_file_of t = fold f [j..<n] (page_file_of s)"
  using assms(3,4)
proof (induction "n - j" arbitrary: j s)
  case 0
  then have "j = n" by simp
  then show ?case using 0 by (subst each_page.simps) simp
next
  case (Suc m)
  then have j: "j < n" by simp
  obtain t where t: "body (int (j * 2 ^ k)) s = Inr t" "shm_ok k n t"
    "page_file_of t = f j (page_file_of s)"
    using assms(1) Suc.prems j unfolding acts_def by blast
  have m: "m = n - Suc j" using Suc.hyps(2) by simp
  have lt: "j * 2 ^ k < n * (2 ^ k :: nat)" "j * 2 ^ k + 2 ^ k \<le> n * (2 ^ k :: nat)"
    using j page_span [OF j, of k] by simp_all
  obtain u where "each_page (2 ^ k) body (n * 2 ^ k) (Suc j * 2 ^ k) t = Inr u" "shm_ok k n u"
    "page_file_of u = fold f [Suc j..<n] (page_file_of t)"
    using Suc.hyps(1) [OF m t(2)] j by auto
  then show ?case
    using t lt assms(2) j by (subst each_page.simps) (simp add: upt_conv_Cons add.commute)
qed

lemma spec_read_fold:
  "fold (\<lambda>i. spec_read_pages ps [i]) is f = spec_read_pages ps is f"
  by (induction "is" arbitrary: f) (simp_all add: spec_read_pages_def)

lemma spec_write_fold:
  "fold (\<lambda>i. spec_write_pages ps msg [i]) is f = spec_write_pages ps msg is f"
  by (induction "is" arbitrary: f) (simp_all add: spec_write_pages_def)

lemma page_offset_small:
  assumes "k < 64" and "n * 2 ^ k < 2 ^ 31" and "unat a < n"
  shows "page_offset a (2 ^ k) = int (unat a * 2 ^ k)"
proof -
  have small: "unat a * 2 ^ k < 2 ^ 31"
    using page_below [OF assms(3), of k] assms(2) by linarith
  have k: "(2 :: nat) ^ k < 2 ^ 64"
    using assms(1) by (intro power_strict_increasing) auto
  have "unat (a * word_of_nat (2 ^ k)) = unat a * 2 ^ k"
    using small k by (simp only: unat_word_ariths unat_of_nat) simp
  then have "uint (a * word_of_nat (2 ^ k)) = int (unat a * 2 ^ k)"
    by (simp only: uint_nat)
  moreover have "int (unat a * 2 ^ k) < 2 ^ 31"
    using small by (metis of_nat_less_iff of_nat_numeral of_nat_power)
  then have "to_int32 (int (unat a * 2 ^ k)) = int (unat a * 2 ^ k)"
    by (intro to_int32_id) linarith
  ultimately show ?thesis by (simp only: page_offset_def)
qed

lemma page_offset_ok:
  "shm_ok k n s \<Longrightarrow> unat a < n \<Longrightarrow> page_offset a (2 ^ k) = int (unat a * 2 ^ k)"
  by (rule page_offset_small) (auto simp: shm_ok_def region_ok_def)

lemma acts_read: "all_served outs \<Longrightarrow> acts k n (read_at outs) (\<lambda>i. spec_read_pages (2 ^ k) [i])"
  using read_at_ok by (auto simp: acts_def)

lemma acts_write: "all_served outs \<Longrightarrow> text_ok (2 ^ k) msg \<Longrightarrow>
  acts k n (write_at outs msg) (\<lambda>i. spec_write_pages (2 ^ k) msg [i])"
  using write_at_ok by (auto simp: acts_def)

section \<open>The menu\<close>

lemma shm_few_pages: "shm_ok k n s \<Longrightarrow> n < 2 ^ 31"
proof -
  assume "shm_ok k n s"
  then have "n * 2 ^ k < 2 ^ 31" by (simp add: shm_ok_def)
  moreover have "n * 1 \<le> n * 2 ^ k" by (intro mult_le_mono2) simp
  ultimately show ?thesis by linarith
qed

lemma access_allowed_ok:
  "shm_ok k n s \<Longrightarrow> access_allowed a s \<longleftrightarrow> unat a < n \<or> a = -1"
proof -
  assume ok: "shm_ok k n s"
  then have "n < 2 ^ 64" using shm_few_pages by fastforce
  then show ?thesis
    using ok by (simp add: access_allowed_def shm_ok_def word_less_nat_alt unat_of_nat)
qed

lemma minus_one_not_page: "shm_ok k n s \<Longrightarrow> \<not> unat (-1 :: 64 word) < n"
proof -
  assume "shm_ok k n s"
  then have "n < 2 ^ 31" by (rule shm_few_pages)
  then show ?thesis by (simp add: unsigned_minus_1_eq_mask mask_eq_exp_minus_1)
qed

lemma shm_ok_lines [simp]: "shm_ok k n (s\<lparr>lines := l\<rparr>) = shm_ok k n s"
  by (simp add: shm_ok_def)

lemma page_file_lines [simp]: "page_file_of (s\<lparr>lines := l\<rparr>) = (page_file_of s)\<lparr>seen := l\<rparr>"
  by (simp add: page_file_of_def)

lemma page_file_sel [simp]: "seen (page_file_of s) = lines s" "last_message (page_file_of s) = msgbuf s"
  by (simp_all add: page_file_of_def)

lemma shm_sizes: "shm_ok k n s \<Longrightarrow> rsize (reg s) = 2 ^ k \<and> mlength s = n * 2 ^ k \<and> n * 2 ^ k < 2 ^ 31"
  by (simp add: shm_ok_def region_ok_def)

lemma shm_read_menu:
  assumes ok: "shm_ok k n s" and srv: "all_served outs"
  shows "\<exists>t. shm_menu outs (MRead m) s = Inr t \<and> shm_ok k n t \<and>
    page_file_of t = spec_menu (2 ^ k) n (MRead m) (page_file_of s)"
proof -
  let ?a = "word_of_int m :: 64 word"
  note sz = shm_sizes [OF ok]
  consider "?a = -1" | "?a \<noteq> -1" "unat ?a < n" | "?a \<noteq> -1" "\<not> unat ?a < n" by blast
  then show ?thesis
  proof cases
    case 1
    let ?s = "s\<lparr>lines := lines s @ [ReadingNo ?a, ReadingAll]\<rparr>"
    obtain t where "each_page (2 ^ k) (read_at outs) (n * 2 ^ k) (0 * 2 ^ k) ?s = Inr t" "shm_ok k n t"
      "page_file_of t = fold (\<lambda>i. spec_read_pages (2 ^ k) [i]) [0..<n] (page_file_of ?s)"
      using each_page_acts [OF acts_read [OF srv, of k n], of ?s 0] ok sz by auto
    then show ?thesis
      using 1 sz by (simp add: access_allowed_def mem_read_def spec_read_fold Let_def)
  next
    case 2
    let ?s = "s\<lparr>lines := lines s @ [ReadingNo ?a]\<rparr>"
    have ok': "shm_ok k n ?s" using ok by simp
    show ?thesis
      using read_at_ok [OF ok' srv 2(2)] 2 sz access_allowed_ok [OF ok, of ?a] page_offset_ok [OF ok 2(2)]
      by (simp add: mem_read_def Let_def)
  next
    case 3
    then show ?thesis using access_allowed_ok [OF ok, of ?a] ok by simp
  qed
qed

lemma shm_write_menu:
  assumes ok: "shm_ok k n s" and srv: "all_served outs" and line: "text_ok (2 ^ k) line"
  shows "\<exists>t. shm_menu outs (MWrite m line) s = Inr t \<and> shm_ok k n t \<and>
    page_file_of t = spec_menu (2 ^ k) n (MWrite m line) (page_file_of s)"
proof -
  let ?a = "word_of_int m :: 64 word"
  define msg where "msg = (if line = [] then msgbuf s else line)"
  let ?s = "s\<lparr>msgbuf := msg\<rparr>"
  note sz = shm_sizes [OF ok]
  have msg: "text_ok (2 ^ k) msg" using ok line by (simp add: shm_ok_def msg_def)
  then have ok': "shm_ok k n ?s" using ok by (simp add: shm_ok_def)
  have pf: "page_file_of ?s = (page_file_of s)\<lparr>last_message := msg\<rparr>" by (simp add: page_file_of_def)
  have "takeWhile (\<lambda>c. c \<noteq> NUL) line = line" "length line < 2 ^ k"
    using line by (auto simp: text_ok_def takeWhile_eq_all_conv)
  then have menu: "shm_menu outs (MWrite m line) s =
      (if access_allowed ?a s then mem_write outs ?a msg ?s
       else Inr (s\<lparr>lines := lines s @ [CantWrite]\<rparr>))"
    using sz by (simp only: shm_menu.simps Let_def msg_def) auto
  have spec: "spec_menu (2 ^ k) n (MWrite m line) (page_file_of s) =
      (if ?a = -1 then spec_write_pages (2 ^ k) msg [0..<n] (page_file_of ?s)
       else if unat ?a < n then spec_write_pages (2 ^ k) msg [unat ?a] (page_file_of ?s)
       else (page_file_of s)\<lparr>seen := lines s @ [CantWrite]\<rparr>)"
    unfolding pf by (simp add: Let_def msg_def)
  consider "?a = -1" | "?a \<noteq> -1" "unat ?a < n" | "?a \<noteq> -1" "\<not> unat ?a < n" by blast
  then show ?thesis
  proof cases
    case 1
    obtain t where "each_page (2 ^ k) (write_at outs msg) (n * 2 ^ k) (0 * 2 ^ k) ?s = Inr t" "shm_ok k n t"
      "page_file_of t = fold (\<lambda>i. spec_write_pages (2 ^ k) msg [i]) [0..<n] (page_file_of ?s)"
      using each_page_acts [OF acts_write [OF srv msg] _ ok' le0] sz by auto
    then show ?thesis
      unfolding menu spec using 1 sz by (simp add: access_allowed_def mem_write_def spec_write_fold)
  next
    case 2
    show ?thesis
      unfolding menu spec
      using write_at_ok [OF ok' srv 2(2) msg] 2 sz access_allowed_ok [OF ok, of ?a]
        page_offset_ok [OF ok 2(2)]
      by (simp add: mem_write_def)
  next
    case 3
    then show ?thesis unfolding menu spec using access_allowed_ok [OF ok, of ?a] ok by simp
  qed
qed

interpretation shm: step_refines "shm_menu outs" "\<lambda>s. shm_ok k n s \<and> all_served outs"
  "command_ok (2 ^ k)" page_file_of "spec_menu (2 ^ k) n" for outs k n
proof unfold_locales
  fix s c t
  assume inv: "shm_ok k n s \<and> all_served outs" and c: "command_ok (2 ^ k) c"
  have "\<exists>t. shm_menu outs c s = Inr t \<and> shm_ok k n t \<and>
      page_file_of t = spec_menu (2 ^ k) n c (page_file_of s)"
  proof (cases c)
    case (MRead m)
    then show ?thesis using shm_read_menu [of k n s outs m] inv by simp
  next
    case (MWrite m line)
    then show ?thesis
      using shm_write_menu [of k n s outs line m] inv c by (simp add: command_ok_def)
  qed (use inv c in \<open>simp_all add: command_ok_def\<close>)
  then show "\<exists>t. shm_menu outs c s = Inr t \<and> shm_ok k n t \<and> all_served outs"
    "shm_menu outs c s = Inr t \<Longrightarrow> page_file_of t = spec_menu (2 ^ k) n c (page_file_of s)"
    using inv by auto
qed

lemma shm_start_ok:
  assumes "k < 31" and "n * 2 ^ k < 2 ^ 31" and "unat base + n * 2 ^ k < 2 ^ 64" and "2 ^ k dvd unat base"
    and "text_ok (2 ^ k) msg"
  shows "shm_ok k n (shm_start (2 ^ k) n base base msg)"
proof -
  have "k < 64" using assms(1) by simp
  moreover have "replicate (n * 2 ^ k) NUL ! (i * 2 ^ k + (2 ^ k - 1)) = NUL" if "i < n" for i
    using page_below [OF that, of k] by (intro nth_replicate)
  ultimately show ?thesis
    using assms region_ok_fresh [of k base n]
    by (simp add: shm_ok_def shm_start_def flat_fresh ends_NUL_def) (simp add: fresh_region_def)
qed

text \<open>
  For pages of any power-of-two size, at most 2 GiB in all, mapped where the other machine
  said: every sequence of commands with lines that fit in a page (any page numbers, negative or
  too large ones included) is carried out without a fault, and shows and stores exactly what
  the abstract menu over a zeroed array does.
\<close>

theorem shm_menu_refines:
  assumes "k < 31" and "n * 2 ^ k < 2 ^ 31" and "unat base + n * 2 ^ k < 2 ^ 64" and "2 ^ k dvd unat base"
    and "text_ok (2 ^ k) msg" and "all_served outs" and "list_all (command_ok (2 ^ k)) cs"
  shows "\<exists>t. run_events (shm_menu outs) cs (shm_start (2 ^ k) n base base msg) = Inr t \<and>
    page_file_of t = fold (spec_menu (2 ^ k) n) cs
      \<lparr>bytes = replicate (n * 2 ^ k) NUL, last_message = msg, seen = []\<rparr>"
proof -
  have "page_file_of (shm_start (2 ^ k) n base base msg) =
      \<lparr>bytes = replicate (n * 2 ^ k) NUL, last_message = msg, seen = []\<rparr>"
    by (simp add: page_file_of_def shm_start_def flat_fresh)
  then show ?thesis
    using shm.run_refines [where s = "shm_start (2 ^ k) n base base msg" and k = k and n = n
        and outs = outs and es = cs] shm_start_ok [OF assms(1-5)] assms(6,7) by auto
qed

theorem shm_menu_refines_witness:
  "\<exists>t. run_events (shm_menu (\<lambda>_. served)) [MWrite 1 ''abc'', MRead 1, MRead 7, MRead (-1)]
      (shm_start (2 ^ 3) 2 (2 ^ 20) (2 ^ 20) []) = Inr t \<and>
    page_file_of t = fold (spec_menu (2 ^ 3) 2) [MWrite 1 ''abc'', MRead 1, MRead 7, MRead (-1)]
      \<lparr>bytes = replicate (2 * 2 ^ 3) NUL, last_message = [], seen = []\<rparr>"
  by (rule shm_menu_refines)
    (simp_all add: text_ok_def command_ok_def all_served_def handler_checks_def served_def)

end
