(* ===== verification/Msi_Draft.thy ===== *)
theory Msi_Draft
  imports Shm_Correct Msi_Machine
begin

text \<open>
  \<open>Project_3/part4/part4.c\<close>, the first version of the page-sharing program: each machine has the
  menu of \<open>part3.c\<close> over memory filled on demand, a list of page states, and a set of bus signals
  that its fault handler exchanges before it serves a fault.
\<close>

section \<open>State\<close>

record bus_info =
  BusRd :: int
  BusRdX :: int
  BusUpgr_sig :: int
  cur_var :: int
  bus_uffd :: int

datatype draft_line =
    UpdateBus nat
  | CheckBus nat
  | Received int
  | LocalCopy
  | InvalidPage
  | ReadChar char
  | NoSuchPage
  | PageLine nat MSIList

text \<open>
  The globals of one machine, with the connection: \<open>d_in\<close> what the other machine has sent. On
  machine 1 the region is that of \<open>data\<close>, on machine 2 that of \<open>recv_data\<close>; \<open>data_length\<close> is the
  length in \<open>data\<close> in both cases, 0 on machine 2. \<open>states_list\<close> has 1024 elements. \<open>d_eof\<close> says that
  the other process has ended, so that nothing more arrives after \<open>d_in\<close>, and \<open>d_pipe\<close> that a write to
  it now ends this process too (SIGPIPE).
\<close>

record draft =
  d_order :: nat
  d_uffd :: int
  d_pages :: "64 word"
  d_length :: nat
  data_length :: nat
  states_list :: "MSIList list"
  bus_signal :: bus_info
  recv_signal :: bus_info
  d_in :: "bus_info list"
  d_out :: "bus_info list"
  d_eof :: bool
  d_pipe :: bool
  d_reg :: region
  d_message :: string
  d_lines :: "draft_line list"

definition d_print :: "draft_line \<Rightarrow> draft \<Rightarrow> draft" where
  "d_print l s = s\<lparr>d_lines := d_lines s @ [l]\<rparr>"

section \<open>The bus and the fault handler\<close>

text \<open>
  Machine 2 waits until a whole record has arrived; when the other process has ended, \<open>recv\<close> returns 0,
  \<open>recv_signal\<close> stays as it was and the handler goes on.
\<close>

definition update_bus :: "bus_info \<Rightarrow> draft \<Rightarrow> draft res" where
  "update_bus sigs s =
     (if d_order s = 1 \<and> BusRd sigs = 1 then
        if d_pipe s then Inl (Exit ''SIGPIPE'')
        else Inr (d_print (UpdateBus 1) (s\<lparr>d_out := d_out s @ [sigs]\<rparr>))
      else if d_order s = 1 \<and> BusRdX sigs = 1 then Inr (d_print (UpdateBus 1) s)
      else if d_order s = 1 \<and> BusUpgr_sig sigs = 1 then Inr (d_print (CheckBus 1) s)
      else if d_order s = 2 \<and> BusRd sigs = 1 then
        (case d_in s of
           [] \<Rightarrow>
             if d_eof s then Inr (d_print (Received (bus_uffd (recv_signal s))) (d_print (UpdateBus 2) s))
             else Inl NotEnabled
         | b # bs \<Rightarrow> Inr (d_print (Received (bus_uffd b))
             (d_print (UpdateBus 2) (s\<lparr>d_in := bs, recv_signal := b\<rparr>))))
      else if d_order s = 2 \<and> BusRdX sigs = 1 then Inr (d_print (UpdateBus 2) s)
      else if d_order s = 2 \<and> BusUpgr_sig sigs = 1 then Inr (d_print (CheckBus 2) s)
      else Inr s)"

text \<open>
  One iteration of the handler for an access at offset \<open>l\<close>. After the bus it reads from the
  descriptor in \<open>recv_signal\<close>; which page it copies for a message from another descriptor is not
  determined, since the address is that of the message. \<open>outs\<close> gives the results of the calls by
  fault and descriptor read; the one \<open>poll\<close> is on the handler's own descriptor.
\<close>

definition draft_fault :: "(nat \<Rightarrow> int \<Rightarrow> pf_outcome) \<Rightarrow> nat \<Rightarrow> draft \<Rightarrow> draft res" where
  "draft_fault outs l s =
     (let cnt = fault_cnt (d_reg s)
      in if poll_ret (outs cnt (d_uffd s)) = -1 then Inl (Exit ''poll'')
         else bind_res (update_bus (bus_signal s) s) (\<lambda>s.
           let fd = bus_uffd (recv_signal s)
           in if fd = d_uffd s then
                bind_res (touch (zero_page (rsize (d_reg s))) (\<lambda>c. outs c fd) l (d_reg s)) (\<lambda>r.
                  Inr (s\<lparr>d_reg := r\<rparr>))
              else case first_failure (tl (handler_checks (outs cnt fd))) of
                Some msg \<Rightarrow> Inl (Exit msg)
              | None \<Rightarrow> Inl Indeterminate))"

definition draft_touch :: "(nat \<Rightarrow> int \<Rightarrow> pf_outcome) \<Rightarrow> int \<Rightarrow> draft \<Rightarrow> draft res" where
  "draft_touch outs l s =
     (if l < 0 \<or> length (rbytes (d_reg s)) \<le> nat l then Inl OutOfBounds
      else if resident (d_reg s) (nat l div rsize (d_reg s)) then Inr s
      else draft_fault outs (nat l) s)"

section \<open>The menu\<close>

definition show_at :: "(nat \<Rightarrow> int \<Rightarrow> pf_outcome) \<Rightarrow> int \<Rightarrow> draft \<Rightarrow> draft res" where
  "show_at outs l s =
     bind_res (draft_touch outs l s) (\<lambda>s. Inr (d_print (ReadChar (rbytes (d_reg s) ! nat l)) s))"

fun store_at :: "(nat \<Rightarrow> int \<Rightarrow> pf_outcome) \<Rightarrow> int \<Rightarrow> char list \<Rightarrow> draft \<Rightarrow> draft res" where
  "store_at outs l [] s = Inr s"
| "store_at outs l (c # cs) s =
     bind_res (draft_touch outs l s) (\<lambda>s.
       store_at outs (l + 1) cs (s\<lparr>d_reg := (d_reg s)\<lparr>rbytes := (rbytes (d_reg s))[nat l := c]\<rparr>\<rparr>))"

text \<open>\<open>states_list[accessvar]\<close> with an \<open>unsigned long\<close> index: -1 is far outside.\<close>

definition state_of :: "64 word \<Rightarrow> draft \<Rightarrow> MSIList res" where
  "state_of a s = (if unat a < length (states_list s) then Inr (states_list s ! unat a) else Inl OutOfBounds)"

definition share_all :: "draft \<Rightarrow> draft res" where
  "share_all s =
     (if length (states_list s) < unat (d_pages s) then Inl OutOfBounds
      else Inr (s\<lparr>states_list := replicate (unat (d_pages s)) (\<lparr>M = False, S = True, I = False\<rparr>) @
        drop (unat (d_pages s)) (states_list s)\<rparr>))"

definition draft_allowed :: "64 word \<Rightarrow> draft \<Rightarrow> bool" where
  "draft_allowed a s \<longleftrightarrow> a < d_pages s \<or> a = -1"

definition draft_read :: "(nat \<Rightarrow> int \<Rightarrow> pf_outcome) \<Rightarrow> int \<Rightarrow> draft \<Rightarrow> draft res" where
  "draft_read outs n s0 =
     (let a = word_of_int n; ps = rsize (d_reg s0);
          s = s0\<lparr>bus_signal := (bus_signal s0)\<lparr>cur_var := to_int32 n\<rparr>\<rparr>
      in if \<not> draft_allowed a s then Inr (d_print NoSuchPage s)
         else bind_res (state_of a s) (\<lambda>st.
           if S st \<or> M st then show_at outs (page_offset a ps) (d_print LocalCopy s)
           else if I st then
             show_at outs (page_offset a ps)
               (d_print InvalidPage (s\<lparr>bus_signal := (bus_signal s)\<lparr>BusRd := 1\<rparr>\<rparr>))
           else if a = -1 then
             bind_res (share_all (s\<lparr>bus_signal := (bus_signal s)\<lparr>BusRd := 1\<rparr>\<rparr>)) (\<lambda>s.
               each_page ps (show_at outs) (d_length s) 0 s)
           else Inr s))"

text \<open>
  \<open>memset(addr + l, 0, sizeof(page_size))\<close> clears 8 bytes, the size of the variable. A message
  is read before the page number is looked at.
\<close>

definition draft_write :: "(nat \<Rightarrow> int \<Rightarrow> pf_outcome) \<Rightarrow> int \<Rightarrow> string \<Rightarrow> draft \<Rightarrow> draft res" where
  "draft_write outs n line s0 =
     (let a = word_of_int n; ps = rsize (d_reg s0);
          clear = (\<lambda>l. store_at outs l (replicate 8 NUL))
      in if ps \<le> length line then Inl OutOfBounds
         else
           let msg = (if line = [] then d_message s0 else takeWhile (\<lambda>c. c \<noteq> NUL) line);
               s = s0\<lparr>d_message := msg\<rparr>
           in if \<not> draft_allowed a s then Inr (d_print NoSuchPage s)
              else bind_res (state_of a s) (\<lambda>st.
                if M st then
                  bind_res (clear (page_offset a ps) s) (store_at outs (page_offset a ps) msg)
                else if S st \<or> I st then Inr (s\<lparr>bus_signal := (bus_signal s)\<lparr>BusRdX := 1\<rparr>\<rparr>)
                else if a = -1 then
                  bind_res (each_page ps clear (d_length s) 0 s) (\<lambda>s.
                    each_page ps (\<lambda>l. store_at outs l msg) (data_length s) 0 s)
                else Inr s))"

definition draft_view :: "draft \<Rightarrow> draft res" where
  "draft_view s =
     (if length (states_list s) < unat (d_pages s) then Inl OutOfBounds
      else Inr (s\<lparr>d_lines := d_lines s @
        map (\<lambda>i. PageLine i (states_list s ! i)) [0..<unat (d_pages s)]\<rparr>))"

datatype draft_command =
    DRead int
  | DWrite int string
  | DView
  | DQuit
  | DOther

definition draft_menu :: "(nat \<Rightarrow> int \<Rightarrow> pf_outcome) \<Rightarrow> draft_command \<Rightarrow> draft \<Rightarrow> draft res" where
  "draft_menu outs c s =
     (case c of
        DRead n \<Rightarrow> draft_read outs n s
      | DWrite n line \<Rightarrow> draft_write outs n line s
      | DView \<Rightarrow> draft_view s
      | DQuit \<Rightarrow> Inl (Exit [])
      | DOther \<Rightarrow> Inr s)"

section \<open>Setting up\<close>

definition no_signal :: bus_info where
  "no_signal = \<lparr>BusRd = 0, BusRdX = 0, BusUpgr_sig = 0, cur_var = 0, bus_uffd = 0\<rparr>"

abbreviation invalid :: MSIList where
  "invalid \<equiv> \<lparr>M = False, S = False, I = True\<rparr>"

definition no_state :: MSIList where
  "no_state = \<lparr>M = False, S = False, I = False\<rparr>"

text \<open>
  The handler thread puts its descriptor into \<open>recv_signal\<close>; the states of the pages are set to
  Invalid without a look at the size of \<open>states_list\<close>.
\<close>

definition draft_start :: "nat \<Rightarrow> int \<Rightarrow> nat \<Rightarrow> nat \<Rightarrow> 64 word \<Rightarrow> string \<Rightarrow> draft res" where
  "draft_start order uffd ps n base msg =
     (if 1024 < n then Inl OutOfBounds
      else Inr \<lparr>d_order = order, d_uffd = uffd, d_pages = word_of_nat n, d_length = n * ps,
        data_length = (if order = 1 then n * ps else 0),
        states_list = replicate n invalid @ replicate (1024 - n) no_state,
        bus_signal = no_signal, recv_signal = no_signal\<lparr>bus_uffd := uffd\<rparr>, d_in = [], d_out = [],
        d_eof = False, d_pipe = False, d_reg = fresh_region ps n base, d_message = msg, d_lines = []\<rparr>)"

end
