(* ===== verification/Msi_Draft_Props.thy ===== *)
theory Msi_Draft_Props
  imports Msi_Draft
begin

text \<open>
  What the first version of the page-sharing program does: on machine 1 no command ever changes a
  page or its state, and the commands for all pages leave the list of states.
\<close>

section \<open>Machine 1\<close>

definition draft_served :: "(nat \<Rightarrow> int \<Rightarrow> pf_outcome) \<Rightarrow> int \<Rightarrow> bool" where
  "draft_served outs fd \<longleftrightarrow> all_served (\<lambda>c. outs c fd) \<and> (\<forall>c. poll_ret (outs c fd) \<noteq> -1)"

definition idle :: "nat \<Rightarrow> nat \<Rightarrow> int \<Rightarrow> draft \<Rightarrow> bool" where
  "idle k n fd s \<longleftrightarrow> d_order s = 1 \<and> \<not> d_pipe s \<and> d_uffd s = fd \<and> bus_uffd (recv_signal s) = fd \<and>
     bus_uffd (bus_signal s) = 0 \<and> d_pages s = word_of_nat n \<and> n \<le> 1024 \<and> n * 2 ^ k < 2 ^ 31 \<and>
     states_list s = replicate n invalid @ replicate (1024 - n) no_state \<and>
     region_ok k n (d_reg s) \<and> flat (d_reg s) = replicate (n * 2 ^ k) NUL \<and>
     (\<forall>b \<in> set (d_out s). BusRd b = 1 \<and> bus_uffd b = 0) \<and>
     (\<forall>c. ReadChar c \<in> set (d_lines s) \<longrightarrow> c = NUL)"

text \<open>A command for one page, whose line fits, or one that is not for pages.\<close>

definition one_page :: "nat \<Rightarrow> draft_command \<Rightarrow> bool" where
  "one_page ps c = (case c of
      DRead m \<Rightarrow> (word_of_int m :: 64 word) \<noteq> -1
    | DWrite m line \<Rightarrow> (word_of_int m :: 64 word) \<noteq> -1 \<and> length line < ps
    | DQuit \<Rightarrow> False
    | _ \<Rightarrow> True)"

lemma bus_frame [simp]:
  "draft_allowed a (s\<lparr>bus_signal := b\<rparr>) = draft_allowed a s" "state_of a (s\<lparr>bus_signal := b\<rparr>) = state_of a s"
  by (simp_all add: draft_allowed_def state_of_def)

lemma idle_print:
  "idle k n fd s \<Longrightarrow> (\<And>c. l = ReadChar c \<Longrightarrow> c = NUL) \<Longrightarrow> idle k n fd (d_print l s)"
  by (auto simp: idle_def d_print_def)

lemma idle_signals:
  "idle k n fd s \<Longrightarrow> bus_uffd b = 0 \<Longrightarrow> idle k n fd (s\<lparr>bus_signal := b\<rparr>)"
  "idle k n fd s \<Longrightarrow> idle k n fd (s\<lparr>d_message := msg\<rparr>)"
  by (simp_all add: idle_def)

lemma update_bus_idle:
  "idle k n fd s \<Longrightarrow> \<exists>s'. update_bus (bus_signal s) s = Inr s' \<and> idle k n fd s' \<and> d_reg s' = d_reg s"
  by (auto simp: update_bus_def idle_def d_print_def)

lemma touch_idle:
  assumes ok: "idle k n fd s" and l: "l < n * 2 ^ k" and srv: "draft_served outs fd"
  shows "\<exists>s'. draft_touch outs (int l) s = Inr s' \<and> idle k n fd s' \<and> rbytes (d_reg s') ! l = NUL"
proof -
  have r: "region_ok k n (d_reg s)" "flat (d_reg s) = replicate (n * 2 ^ k) NUL"
    and fd: "d_uffd s = fd" using ok by (auto simp: idle_def)
  then have rs: "rsize (d_reg s) = 2 ^ k" "length (rbytes (d_reg s)) = n * 2 ^ k"
    by (auto simp: region_ok_def)
  show ?thesis
  proof (cases "resident (d_reg s) (l div 2 ^ k)")
    case True
    then have "flat (d_reg s) ! l = rbytes (d_reg s) ! l" by (intro flat_resident(1) [OF r(1) l])
    then show ?thesis using True ok l r(2) rs by (simp add: draft_touch_def)
  next
    case False
    obtain s' where s': "update_bus (bus_signal s) s = Inr s'" "idle k n fd s'" "d_reg s' = d_reg s"
      using update_bus_idle [OF ok] by blast
    obtain r' where r': "touch (zero_page (2 ^ k)) (\<lambda>c. outs c fd) l (d_reg s) = Inr r'"
      "region_ok k n r'" "flat r' = flat (d_reg s)" "resident r' (l div 2 ^ k)"
      using touch_zero [OF r(1) l, of "\<lambda>c. outs c fd"] srv by (auto simp: draft_served_def)
    have fds: "bus_uffd (recv_signal s') = fd" "d_uffd s' = fd" using s'(2) by (auto simp: idle_def)
    have "draft_touch outs (int l) s = Inr (s'\<lparr>d_reg := r'\<rparr>)"
      using False l rs srv s'(1,3) r'(1)
      by (simp add: draft_touch_def draft_fault_def Let_def fds fd draft_served_def)
    moreover have "idle k n fd (s'\<lparr>d_reg := r'\<rparr>)"
      using s'(2) r' r(2) by (simp add: idle_def)
    moreover have "rbytes r' ! l = NUL"
      using flat_resident(1) [OF r'(2) l r'(4)] r'(3) r(2) l by simp
    ultimately show ?thesis by auto
  qed
qed

lemma show_idle:
  assumes "idle k n fd s" and "i < n" and "draft_served outs fd"
  shows "\<exists>s'. show_at outs (int (i * 2 ^ k)) s = Inr s' \<and> idle k n fd s'"
proof -
  have l: "i * 2 ^ k < n * 2 ^ k" using assms(2) by simp
  obtain s' where "draft_touch outs (int (i * 2 ^ k)) s = Inr s'" "idle k n fd s'"
    "rbytes (d_reg s') ! (i * 2 ^ k) = NUL"
    using touch_idle [OF assms(1) l assms(3)] by blast
  then show ?thesis by (auto simp: show_at_def nat_mult_distrib nat_power_eq intro!: idle_print)
qed

lemma few_pages: "n \<le> 1024 \<Longrightarrow> unat (word_of_nat n :: 64 word) = n"
  by (simp add: unat_of_nat)

lemma idle_state:
  assumes "idle k n fd s" and "draft_allowed a s" and "a \<noteq> -1"
  shows "unat a < n" and "state_of a s = Inr invalid"
proof -
  have n: "n \<le> 1024" "d_pages s = word_of_nat n" using assms(1) by (auto simp: idle_def)
  then show "unat a < n"
    using assms(2,3) by (auto simp: draft_allowed_def word_less_nat_alt few_pages)
  then show "state_of a s = Inr invalid"
    using assms(1) n by (simp add: state_of_def idle_def nth_append)
qed

lemma minus_one_state: "idle k n fd s \<Longrightarrow> state_of (-1) s = Inl OutOfBounds"
  by (simp add: idle_def state_of_def unsigned_minus_1_eq_mask mask_eq_exp_minus_1)

lemma idle_menu:
  assumes ok: "idle k n fd s" and srv: "draft_served outs fd" and c: "one_page (2 ^ k) c"
  shows "\<exists>t. draft_menu outs c s = Inr t \<and> idle k n fd t"
proof (cases c)
  case (DRead m)
  let ?a = "word_of_int m :: 64 word"
  let ?s = "s\<lparr>bus_signal := (bus_signal s)\<lparr>cur_var := to_int32 m\<rparr>\<rparr>"
  have ok': "idle k n fd ?s" using ok by (intro idle_signals) (auto simp: idle_def)
  have rs: "rsize (d_reg s) = 2 ^ k" and nk: "k < 64" "n * 2 ^ k < 2 ^ 31"
    using ok by (auto simp: idle_def region_ok_def)
  show ?thesis
  proof (cases "draft_allowed ?a ?s")
    case False
    then show ?thesis
      using ok' DRead by (auto simp: draft_menu_def draft_read_def intro!: idle_print)
  next
    case True
    note st = idle_state [OF ok' True]
    have a: "?a \<noteq> -1" using c DRead by (simp add: one_page_def)
    let ?u = "d_print InvalidPage (?s\<lparr>bus_signal := (bus_signal ?s)\<lparr>BusRd := 1\<rparr>\<rparr>)"
    have "idle k n fd ?u"
      using ok' by (intro idle_print idle_signals) (auto simp: idle_def)
    then obtain t where "show_at outs (int (unat ?a * 2 ^ k)) ?u = Inr t" "idle k n fd t"
      using show_idle [OF _ st(1) [OF a] srv] by blast
    then show ?thesis
      using True st(2) [OF a] page_offset_small [OF nk st(1) [OF a]] DRead rs
      by (simp add: draft_menu_def draft_read_def)
  qed
next
  case (DWrite m line)
  let ?a = "word_of_int m :: 64 word"
  let ?s = "s\<lparr>d_message := (if line = [] then d_message s else takeWhile (\<lambda>c. c \<noteq> NUL) line)\<rparr>"
  have ok': "idle k n fd ?s" using ok by (intro idle_signals)
  have rs: "rsize (d_reg s) = 2 ^ k" using ok by (auto simp: idle_def region_ok_def)
  have a: "?a \<noteq> -1" "length line < 2 ^ k" using c DWrite by (simp_all add: one_page_def)
  show ?thesis
  proof (cases "draft_allowed ?a ?s")
    case False
    then show ?thesis
      using ok' DWrite a rs by (auto simp: draft_menu_def draft_write_def Let_def intro!: idle_print)
  next
    case True
    have "idle k n fd (?s\<lparr>bus_signal := (bus_signal ?s)\<lparr>BusRdX := 1\<rparr>\<rparr>)"
      using ok' by (intro idle_signals) (auto simp: idle_def)
    then show ?thesis
      using True idle_state(2) [OF ok' True a(1)] DWrite a rs
      by (simp add: draft_menu_def draft_write_def Let_def)
  qed
next
  case DView
  then show ?thesis
    using ok by (auto simp: draft_menu_def draft_view_def idle_def few_pages)
qed (use ok c in \<open>auto simp: draft_menu_def one_page_def\<close>)

interpretation draft: step_total "draft_menu outs" "\<lambda>s. idle k n fd s \<and> draft_served outs fd"
  "one_page (2 ^ k)" for outs k n fd
  by unfold_locales (use idle_menu in blast)

lemma draft_start_idle:
  assumes "k < 31" and "n \<le> 1024" and "n * 2 ^ k < 2 ^ 31" and "unat base + n * 2 ^ k < 2 ^ 64"
    and "2 ^ k dvd unat base"
  shows "\<exists>s. draft_start 1 fd (2 ^ k) n base msg = Inr s \<and> idle k n fd s"
  using assms region_ok_fresh [of k base n]
  by (simp add: draft_start_def idle_def no_signal_def flat_fresh)

lemma idle_all_pages:
  "idle k n fd s \<Longrightarrow> draft_menu outs (DRead (-1)) s = Inl OutOfBounds \<and>
     draft_menu outs (DWrite (-1) line) s = Inl OutOfBounds"
proof -
  assume ok: "idle k n fd s"
  have "\<not> unat (-1 :: 64 word) < length (states_list s)"
    using minus_one_state [OF ok] by (auto simp: state_of_def split: if_splits)
  then show ?thesis
    by (simp add: draft_menu_def draft_read_def draft_write_def draft_allowed_def state_of_def Let_def)
qed

text \<open>
  C29. On machine 1 of the first version, with at most 1024 pages of less than 2 GiB in all,
  commands for single pages (any page number but -1, lines shorter than a page, no quit), with a
  fault handler whose calls succeed and an other machine that is still there, return and do nothing
  to the pages: every page stays Invalid (also one that is read, which the comment in that branch
  says is kept shared), every byte is still zero, every character shown is NUL. After them a read or
  write of all pages, -1, uses an element outside the list of states.
\<close>

theorem draft_keeps_nothing:
  assumes "k < 31" and "n \<le> 1024" and "n * 2 ^ k < 2 ^ 31" and "unat base + n * 2 ^ k < 2 ^ 64"
    and "2 ^ k dvd unat base" and "draft_served outs fd" and "list_all (one_page (2 ^ k)) cs"
  shows "\<exists>t. bind_res (draft_start 1 fd (2 ^ k) n base msg) (run_events (draft_menu outs) cs) = Inr t \<and>
    take n (states_list t) = replicate n \<lparr>M = False, S = False, I = True\<rparr> \<and>
    flat (d_reg t) = replicate (n * 2 ^ k) NUL \<and>
    {c. ReadChar c \<in> set (d_lines t)} \<subseteq> {NUL} \<and>
    draft_menu outs (DRead (-1)) t = Inl OutOfBounds \<and>
    draft_menu outs (DWrite (-1) line) t = Inl OutOfBounds"
proof -
  obtain s where s: "draft_start 1 fd (2 ^ k) n base msg = Inr s" "idle k n fd s"
    using draft_start_idle [OF assms(1-5)] by blast
  obtain t where t: "run_events (draft_menu outs) cs s = Inr t" "idle k n fd t"
    using draft.run_returns [of k n fd s outs cs] s(2) assms(6,7) by auto
  then have "take n (states_list t) = replicate n invalid" "flat (d_reg t) = replicate (n * 2 ^ k) NUL"
    "{c. ReadChar c \<in> set (d_lines t)} \<subseteq> {NUL}"
    by (auto simp: idle_def)
  then show ?thesis using s(1) t idle_all_pages by auto
qed

theorem draft_keeps_nothing_witness:
  "\<exists>t. bind_res (draft_start 1 9 (2 ^ 12) 3 (2 ^ 20) [])
        (run_events (draft_menu (\<lambda>c fd. served)) [DWrite 1 ''abc'', DRead 1, DRead (-5), DView]) = Inr t \<and>
    take 3 (states_list t) = replicate 3 \<lparr>M = False, S = False, I = True\<rparr> \<and>
    flat (d_reg t) = replicate (3 * 2 ^ 12) NUL \<and>
    {c. ReadChar c \<in> set (d_lines t)} \<subseteq> {NUL} \<and>
    draft_menu (\<lambda>c fd. served) (DRead (-1)) t = Inl OutOfBounds \<and>
    draft_menu (\<lambda>c fd. served) (DWrite (-1) ''x'') t = Inl OutOfBounds"
  by (rule draft_keeps_nothing)
    (simp_all add: draft_served_def all_served_def handler_checks_def served_def one_page_def)

text \<open>A descriptor 0, such as a terminal, that gives other bytes than a message of \<open>userfaultfd\<close>.\<close>

definition keyboard_at_0 :: "nat \<Rightarrow> int \<Rightarrow> pf_outcome" where
  "keyboard_at_0 c fd = (if fd = 0 then served\<lparr>event_pagefault := False\<rparr> else served)"

end
