(* ===== verification/Msi_Draft_Pair.thy ===== *)
theory Msi_Draft_Pair
  imports Msi_Draft_Props
begin

text \<open>
  The two machines of \<open>Project_3/part4/part4.c\<close> together: machine 1 sends the size of its memory,
  machine 2 maps as much, and the signals that machine 1's fault handler writes are those machine 2's
  receives.
\<close>

section \<open>The pair\<close>

text \<open>The record \<open>stuff\<close>, without its number \<open>message\<close>, which nothing uses.\<close>

record stuff =
  stuff_addr :: "64 word"
  stuff_uffd :: int
  pg_size :: "64 word"
  stuff_length :: nat

text \<open>What machine 1 sends, before it has opened its descriptor.\<close>

definition draft_offer :: "nat \<Rightarrow> nat \<Rightarrow> 64 word \<Rightarrow> stuff" where
  "draft_offer ps n base = \<lparr>stuff_addr = base, stuff_uffd = 0, pg_size = word_of_nat n, stuff_length = n * ps\<rparr>"

text \<open>
  Machine 2's set-up: the length is computed from the page count received, the address received is
  only a hint to \<open>mmap\<close>, which gives \<open>base\<close>.
\<close>

definition draft_join :: "int \<Rightarrow> nat \<Rightarrow> stuff \<Rightarrow> 64 word \<Rightarrow> string \<Rightarrow> draft res" where
  "draft_join uffd ps recv_data base msg = draft_start 2 uffd ps (unat (pg_size recv_data)) base msg"

record pair_env =
  outs_one :: "nat \<Rightarrow> int \<Rightarrow> pf_outcome"
  outs_two :: "nat \<Rightarrow> int \<Rightarrow> pf_outcome"
  fd_one :: int
  fd_two :: int
  base_one :: "64 word"
  base_two :: "64 word"
  msg_one :: string
  msg_two :: string

definition pair_start :: "pair_env \<Rightarrow> nat \<Rightarrow> nat \<Rightarrow> (draft \<times> draft) res" where
  "pair_start e ps n =
     bind_res (draft_start 1 (fd_one e) ps n (base_one e) (msg_one e)) (\<lambda>a.
     bind_res (draft_join (fd_two e) ps (draft_offer ps n (base_one e)) (base_two e) (msg_two e)) (\<lambda>b.
       Inr (a, b)))"

text \<open>A command on one side; what machine 1 wrote to the socket is then there for machine 2.\<close>

fun pair_step :: "pair_env \<Rightarrow> nat \<times> draft_command \<Rightarrow> draft \<times> draft \<Rightarrow> (draft \<times> draft) res" where
  "pair_step e (m, c) (a, b) =
     (if m = 1
      then bind_res (draft_menu (outs_one e) c a) (\<lambda>a. Inr (a\<lparr>d_out := []\<rparr>, b\<lparr>d_in := d_in b @ d_out a\<rparr>))
      else bind_res (draft_menu (outs_two e) c b) (\<lambda>b. Inr (a, b)))"

section \<open>Machine 2 until its first read\<close>

definition waiting :: "nat \<Rightarrow> nat \<Rightarrow> int \<Rightarrow> draft \<Rightarrow> bool" where
  "waiting k n fd s \<longleftrightarrow> d_order s = 2 \<and> d_uffd s = fd \<and> 0 < fd \<and> \<not> d_eof s \<and>
     d_pages s = word_of_nat n \<and> n \<le> 1024 \<and> k < 31 \<and> n * 2 ^ k < 2 ^ 31 \<and>
     states_list s = replicate n invalid @ replicate (1024 - n) no_state \<and>
     rsize (d_reg s) = 2 ^ k \<and> rbytes (d_reg s) = replicate (n * 2 ^ k) NUL \<and>
     fault_cnt (d_reg s) = 0 \<and> (\<forall>p. \<not> resident (d_reg s) p) \<and>
     (\<forall>b \<in> set (d_in s). bus_uffd b = 0) \<and> (\<forall>c. ReadChar c \<notin> set (d_lines s))"

lemma waiting_state:
  assumes "waiting k n fd s" and "draft_allowed a s" and "a \<noteq> -1"
  shows "unat a < n" and "state_of a s = Inr invalid"
proof -
  have n: "n \<le> 1024" "d_pages s = word_of_nat n" using assms(1) by (auto simp: waiting_def)
  then show "unat a < n"
    using assms(2,3) by (auto simp: draft_allowed_def word_less_nat_alt few_pages)
  then show "state_of a s = Inr invalid"
    using assms(1) n by (simp add: state_of_def waiting_def nth_append)
qed

text \<open>
  The end of its first fault: it waits as long as machine 1 has sent no signal, and with a signal
  reads from descriptor 0, the number in it.
\<close>

definition first_end :: "(nat \<Rightarrow> int \<Rightarrow> pf_outcome) \<Rightarrow> int \<Rightarrow> bool \<Rightarrow> fault" where
  "first_end outs fd signalled =
     (if poll_ret (outs 0 fd) = -1 then Exit ''poll''
      else if \<not> signalled then NotEnabled
      else case first_failure (tl (handler_checks (outs 0 0))) of Some m \<Rightarrow> Exit m | None \<Rightarrow> Indeterminate)"

lemma waiting_fault:
  assumes "waiting k n fd s" and "BusRd (bus_signal s) = 1"
  shows "draft_fault outs l s = Inl (first_end outs fd (d_in s \<noteq> []))"
  using assms
  by (cases "d_in s")
    (auto simp: draft_fault_def update_bus_def waiting_def d_print_def first_end_def Let_def
      simp del: first_failure_None split: option.splits)

lemma waiting_touch: "waiting k n fd s \<Longrightarrow> l < n * 2 ^ k \<Longrightarrow> draft_touch outs (int l) s = draft_fault outs l s"
  by (simp add: draft_touch_def waiting_def)

lemma waiting_read:
  assumes w: "waiting k n fd s" and al: "draft_allowed (word_of_int m) s" and m: "(word_of_int m :: 64 word) \<noteq> -1"
  shows "draft_menu outs (DRead m) s = Inl (first_end outs fd (d_in s \<noteq> []))"
proof -
  let ?a = "word_of_int m :: 64 word"
  let ?u = "d_print InvalidPage (s\<lparr>bus_signal := (bus_signal s)\<lparr>cur_var := to_int32 m, BusRd := 1\<rparr>\<rparr>)"
  have wu: "waiting k n fd ?u" using w by (auto simp: waiting_def d_print_def)
  note st = waiting_state [OF w al m]
  have rs: "rsize (d_reg s) = 2 ^ k" using w by (simp add: waiting_def)
  have k: "k < 64" "n * 2 ^ k < 2 ^ 31" using w by (auto simp: waiting_def)
  have off: "page_offset ?a (2 ^ k) = int (unat ?a * 2 ^ k)" using page_offset_small [OF k st(1)] by simp
  have lt: "unat ?a * 2 ^ k < n * 2 ^ k" using st(1) by simp
  have "draft_menu outs (DRead m) s = show_at outs (int (unat ?a * 2 ^ k)) ?u"
    using al st(2) off rs by (simp add: draft_menu_def draft_read_def Let_def)
  moreover have "draft_touch outs (int (unat ?a * 2 ^ k)) ?u = Inl (first_end outs fd (d_in s \<noteq> []))"
    using waiting_touch [OF wu lt] waiting_fault [OF wu] by (simp add: d_print_def)
  ultimately show ?thesis by (simp only: show_at_def bind_res_simps)
qed

text \<open>The reads of pages that exist.\<close>

definition real_read :: "nat \<Rightarrow> draft_command \<Rightarrow> bool" where
  "real_read n c = (case c of DRead m \<Rightarrow> unat (word_of_int m :: 64 word) < n | _ \<Rightarrow> False)"

lemma waiting_menu:
  assumes w: "waiting k n fd s" and c: "one_page (2 ^ k) c"
  shows "if real_read n c then draft_menu outs c s = Inl (first_end outs fd (d_in s \<noteq> []))
    else \<exists>t. draft_menu outs c s = Inr t \<and> waiting k n fd t \<and> d_in t = d_in s"
proof (cases c)
  case (DRead m)
  let ?a = "word_of_int m :: 64 word"
  have a: "?a \<noteq> -1" using c DRead by (simp add: one_page_def)
  have al: "draft_allowed ?a s \<longleftrightarrow> unat ?a < n"
    using w a by (auto simp: draft_allowed_def waiting_def word_less_nat_alt few_pages)
  show ?thesis
  proof (cases "unat ?a < n")
    case True
    then show ?thesis using waiting_read [OF w _ a] al DRead by (simp add: real_read_def)
  next
    case False
    then have "draft_menu outs c s = Inr (d_print NoSuchPage (s\<lparr>bus_signal := (bus_signal s)\<lparr>cur_var := to_int32 m\<rparr>\<rparr>))"
      using al DRead by (simp add: draft_menu_def draft_read_def)
    then show ?thesis using False w DRead by (auto simp: real_read_def waiting_def d_print_def)
  qed
next
  case (DWrite m line)
  let ?a = "word_of_int m :: 64 word"
  let ?s = "s\<lparr>d_message := (if line = [] then d_message s else takeWhile (\<lambda>c. c \<noteq> NUL) line)\<rparr>"
  have w': "waiting k n fd ?s" and rs: "rsize (d_reg s) = 2 ^ k" using w by (simp_all add: waiting_def)
  have a: "?a \<noteq> -1" "length line < 2 ^ k" using c DWrite by (simp_all add: one_page_def)
  show ?thesis
  proof (cases "draft_allowed ?a ?s")
    case False
    have "waiting k n fd (d_print NoSuchPage ?s)" "d_in (d_print NoSuchPage ?s) = d_in s"
      using w' by (auto simp: waiting_def d_print_def)
    then show ?thesis
      using False DWrite a rs by (simp add: draft_menu_def draft_write_def real_read_def Let_def)
  next
    case True
    have "waiting k n fd (?s\<lparr>bus_signal := (bus_signal ?s)\<lparr>BusRdX := 1\<rparr>\<rparr>)"
      using w' by (simp add: waiting_def)
    then show ?thesis
      using True waiting_state(2) [OF w' True a(1)] DWrite a rs
      by (simp add: draft_menu_def draft_write_def real_read_def Let_def)
  qed
next
  case DView
  then show ?thesis
    using w by (auto simp: draft_menu_def draft_view_def waiting_def few_pages real_read_def)
qed (use w c in \<open>auto simp: draft_menu_def one_page_def real_read_def\<close>)

section \<open>What machine 1 sends\<close>

text \<open>Only a read of an existing page accesses memory; the first one faults and sends a signal.\<close>

lemma idle_sends:
  assumes ok: "idle k n fd s" and srv: "draft_served outs fd" and c: "one_page (2 ^ k) c" and k: "k < 31"
    and t: "draft_menu outs c s = Inr t"
  shows "if real_read n c then (\<forall>p. \<not> resident (d_reg s) p) \<longrightarrow> d_out t \<noteq> []
    else d_reg t = d_reg s \<and> d_out t = d_out s"
proof (cases c)
  case (DRead m)
  let ?a = "word_of_int m :: 64 word"
  let ?s = "s\<lparr>bus_signal := (bus_signal s)\<lparr>cur_var := to_int32 m\<rparr>\<rparr>"
  let ?u = "d_print InvalidPage (?s\<lparr>bus_signal := (bus_signal ?s)\<lparr>BusRd := 1\<rparr>\<rparr>)"
  have ok': "idle k n fd ?s" using ok by (intro idle_signals) (auto simp: idle_def)
  have a: "?a \<noteq> -1" using c DRead by (simp add: one_page_def)
  have al: "draft_allowed ?a s \<longleftrightarrow> unat ?a < n"
    using ok a by (auto simp: draft_allowed_def idle_def word_less_nat_alt few_pages)
  have rs: "rsize (d_reg s) = 2 ^ k" "length (rbytes (d_reg s)) = n * 2 ^ k" and nk: "k < 64" "n * 2 ^ k < 2 ^ 31"
    using ok k by (auto simp: idle_def region_ok_def)
  show ?thesis
  proof (cases "unat ?a < n")
    case False
    then show ?thesis
      using al t DRead by (auto simp: draft_menu_def draft_read_def real_read_def d_print_def)
  next
    case True
    note st = idle_state [OF ok' _ a]
    have lt: "unat ?a * 2 ^ k < n * 2 ^ k" using True by simp
    have menu: "show_at outs (int (unat ?a * 2 ^ k)) ?u = Inr t"
      using True al st page_offset_small [OF nk True] t DRead rs
      by (simp add: draft_menu_def draft_read_def)
    have "d_out t \<noteq> []" if fresh: "\<forall>p. \<not> resident (d_reg s) p"
    proof -
      define l where "l = unat ?a * 2 ^ k"
      have "draft_touch outs (int l) ?u = draft_fault outs l ?u" if "l < n * 2 ^ k" for l
        using fresh that rs by (simp add: draft_touch_def d_print_def)
      then have "draft_touch outs (int l) ?u = draft_fault outs l ?u" using lt unfolding l_def .
      moreover have "show_at outs (int l) ?u = Inr t" using menu unfolding l_def .
      ultimately
      show ?thesis
        using ok' by (auto simp: show_at_def draft_fault_def update_bus_def idle_def d_print_def Let_def
            bind_res_Inr_iff split: if_splits option.splits)
    qed
    then show ?thesis using True DRead by (simp add: real_read_def)
  qed
next
  case (DWrite m line)
  then have "(word_of_int m :: 64 word) \<noteq> -1" "length line < 2 ^ k" using c by (simp_all add: one_page_def)
  then show ?thesis
    using t DWrite ok idle_state [of k n fd "s\<lparr>d_message := (if line = [] then d_message s else takeWhile (\<lambda>c. c \<noteq> NUL) line)\<rparr>"]
      idle_signals(2) [OF ok]
    by (auto simp: draft_menu_def draft_write_def real_read_def d_print_def Let_def idle_def region_ok_def split: if_splits)
qed (use t c ok in \<open>auto simp: draft_menu_def draft_view_def one_page_def real_read_def split: if_splits\<close>)

section \<open>Runs of both\<close>

definition second_reads :: "nat \<Rightarrow> nat \<times> draft_command \<Rightarrow> bool" where
  "second_reads n mc \<longleftrightarrow> fst mc \<noteq> 1 \<and> real_read n (snd mc)"

definition first_reads :: "nat \<Rightarrow> nat \<times> draft_command \<Rightarrow> bool" where
  "first_reads n mc \<longleftrightarrow> fst mc = 1 \<and> real_read n (snd mc)"

text \<open>Machine 1 has read a page before machine 2 does.\<close>

definition first_comes_first :: "nat \<Rightarrow> (nat \<times> draft_command) list \<Rightarrow> bool" where
  "first_comes_first n cs \<longleftrightarrow> list_ex (first_reads n) (takeWhile (\<lambda>mc. \<not> second_reads n mc) cs)"

definition pair_inv :: "nat \<Rightarrow> nat \<Rightarrow> pair_env \<Rightarrow> bool \<Rightarrow> draft \<times> draft \<Rightarrow> bool" where
  "pair_inv k n e h ab \<longleftrightarrow> idle k n (fd_one e) (fst ab) \<and> waiting k n (fd_two e) (snd ab) \<and>
     draft_served (outs_one e) (fd_one e) \<and> (d_in (snd ab) \<noteq> [] \<longleftrightarrow> h) \<and> d_out (fst ab) = [] \<and>
     (\<not> h \<longrightarrow> (\<forall>p. \<not> resident (d_reg (fst ab)) p))"

lemma waiting_receives:
  "waiting k n fd b \<Longrightarrow> \<forall>x \<in> set sigs. bus_uffd x = 0 \<Longrightarrow> waiting k n fd (b\<lparr>d_in := d_in b @ sigs\<rparr>)"
  by (auto simp: waiting_def)

lemma pair_step_ok:
  assumes inv: "pair_inv k n e h ab" and c: "one_page (2 ^ k) (snd mc)"
  shows "if second_reads n mc then pair_step e mc ab = Inl (first_end (outs_two e) (fd_two e) h)
    else \<exists>ab'. pair_step e mc ab = Inr ab' \<and> pair_inv k n e (h \<or> first_reads n mc) ab'"
proof -
  obtain a b where ab: "ab = (a, b)" by (cases ab)
  obtain m c where mc: "mc = (m, c)" by (cases mc)
  have i: "idle k n (fd_one e) a" "waiting k n (fd_two e) b" "draft_served (outs_one e) (fd_one e)"
    and h: "d_in b \<noteq> [] \<longleftrightarrow> h" "d_out a = []" "\<not> h \<longrightarrow> (\<forall>p. \<not> resident (d_reg a) p)"
    using inv by (simp_all add: pair_inv_def ab)
  show ?thesis
  proof (cases "m = 1")
    case True
    obtain t where t: "draft_menu (outs_one e) c a = Inr t" "idle k n (fd_one e) t"
      using idle_menu [OF i(1,3), of c] assms(2) mc by auto
    then have u: "\<forall>x \<in> set (d_out t). bus_uffd x = 0" "idle k n (fd_one e) (t\<lparr>d_out := []\<rparr>)"
      by (auto simp: idle_def)
    have "k < 31" using i(2) by (simp add: waiting_def)
    then have s: "if real_read n c then (\<forall>p. \<not> resident (d_reg a) p) \<longrightarrow> d_out t \<noteq> []
        else d_reg t = d_reg a \<and> d_out t = d_out a"
      using idle_sends [OF i(1,3) _ _ t(1)] assms(2) mc by simp
    then show ?thesis
      using t True i(3) u waiting_receives [OF i(2) u(1)] h
      by (auto simp: ab mc second_reads_def first_reads_def pair_inv_def split: if_splits)
  next
    case False
    have "if real_read n c then draft_menu (outs_two e) c b = Inl (first_end (outs_two e) (fd_two e) h)
        else \<exists>t. draft_menu (outs_two e) c b = Inr t \<and> waiting k n (fd_two e) t \<and> d_in t = d_in b"
      using waiting_menu [OF i(2), of c] assms(2) mc h(1) by simp
    then show ?thesis
      using False i h by (auto simp: ab mc second_reads_def first_reads_def pair_inv_def split: if_splits)
  qed
qed

lemma pair_run_ok:
  assumes "pair_inv k n e h ab" and "list_all (\<lambda>mc. one_page (2 ^ k) (snd mc)) cs"
  shows "if list_ex (second_reads n) cs
    then run_events (pair_step e) cs ab = Inl (first_end (outs_two e) (fd_two e) (h \<or> first_comes_first n cs))
    else \<exists>ab' h'. run_events (pair_step e) cs ab = Inr ab' \<and> pair_inv k n e h' ab'"
  using assms
proof (induction cs arbitrary: h ab)
  case (Cons mc cs)
  note one = pair_step_ok [OF Cons.prems(1), of mc]
  show ?case
  proof (cases "second_reads n mc")
    case True
    then show ?thesis using one Cons.prems(2) by (simp add: first_comes_first_def)
  next
    case False
    then obtain ab' where ab': "pair_step e mc ab = Inr ab'" "pair_inv k n e (h \<or> first_reads n mc) ab'"
      using one Cons.prems(2) by auto
    have "list_all (\<lambda>mc. one_page (2 ^ k) (snd mc)) cs" using Cons.prems(2) by simp
    from Cons.IH [OF ab'(2) this] show ?thesis
      using False by (simp add: ab'(1) first_comes_first_def disj_assoc cong: if_cong del: split_paired_Ex)
  qed
qed (auto simp del: split_paired_Ex)

lemma pair_start_inv:
  assumes "k < 31" and "n \<le> 1024" and "n * 2 ^ k < 2 ^ 31" and "unat (base_one e) + n * 2 ^ k < 2 ^ 64"
    and "2 ^ k dvd unat (base_one e)" and "draft_served (outs_one e) (fd_one e)" and "0 < fd_two e"
  shows "\<exists>ab. pair_start e (2 ^ k) n = Inr ab \<and> pair_inv k n e False ab"
proof -
  obtain a where a: "draft_start 1 (fd_one e) (2 ^ k) n (base_one e) (msg_one e) = Inr a" "idle k n (fd_one e) a"
    using draft_start_idle [OF assms(1-5)] by blast
  then have fresh: "d_out a = []" "\<forall>p. \<not> resident (d_reg a) p"
    using assms(2) by (auto simp: draft_start_def fresh_region_def)
  obtain b where "draft_join (fd_two e) (2 ^ k) (draft_offer (2 ^ k) n (base_one e)) (base_two e) (msg_two e) = Inr b"
    "waiting k n (fd_two e) b" "d_in b = []"
    using assms by (simp add: draft_join_def draft_offer_def draft_start_def few_pages waiting_def fresh_region_def)
  then show ?thesis using a fresh assms(6) by (simp add: pair_start_def pair_inv_def)
qed

text \<open>
  C30. Both machines of the first version together, neither of which quits, with commands for single
  pages (any page number but -1, lines shorter than a page) on either side in any order, at most 1024
  pages of less than 2 GiB in all, calls of machine 1's fault handler that succeed and a \<open>poll\<close> of machine 2
  that does. As long as machine 2 reads no existing page, every
  command returns, both memories stay zero and every page Invalid, machine 1 shows NUL characters
  only and machine 2 none at all. The first read of an existing page on machine 2 does not return:
  it waits for a signal if machine 1 has read no page before; otherwise machine 2's handler reads a
  message from descriptor 0 instead of its own, which ends the process when any check of the message
  fails and copies a page to the address in that message when none does (left undetermined here).
\<close>

theorem draft_pair_shares_nothing:
  assumes "k < 31" and "n \<le> 1024" and "n * 2 ^ k < 2 ^ 31" and "unat (base_one e) + n * 2 ^ k < 2 ^ 64"
    and "2 ^ k dvd unat (base_one e)" and "draft_served (outs_one e) (fd_one e)" and "0 < fd_two e"
    and "poll_ret (outs_two e 0 (fd_two e)) \<noteq> -1" and "list_all (\<lambda>mc. one_page (2 ^ k) (snd mc)) cs"
  shows "case bind_res (pair_start e (2 ^ k) n) (run_events (pair_step e) cs) of
      Inl f \<Rightarrow> list_ex (second_reads n) cs \<and>
        f = (if \<not> first_comes_first n cs then NotEnabled
             else case first_failure (tl (handler_checks (outs_two e 0 0))) of
               Some m \<Rightarrow> Exit m | None \<Rightarrow> Indeterminate)
    | Inr (a, b) \<Rightarrow> \<not> list_ex (second_reads n) cs \<and>
        list_all (\<lambda>d. take n (states_list d) = replicate n \<lparr>M = False, S = False, I = True\<rparr>) [a, b] \<and>
        flat (d_reg a) = replicate (n * 2 ^ k) NUL \<and> rbytes (d_reg b) = replicate (n * 2 ^ k) NUL \<and>
        {c. ReadChar c \<in> set (d_lines a)} \<subseteq> {NUL} \<and> {c. ReadChar c \<in> set (d_lines b)} = {}"
proof -
  obtain ab where ab: "pair_start e (2 ^ k) n = Inr ab" "pair_inv k n e False ab"
    using pair_start_inv [OF assms(1-7)] by blast
  note run = pair_run_ok [OF ab(2) assms(9)]
  show ?thesis
  proof (cases "list_ex (second_reads n) cs")
    case True
    then show ?thesis using run ab(1) assms(8) by (simp add: first_end_def)
  next
    case False
    then obtain ab' h where "run_events (pair_step e) cs ab = Inr ab'" "pair_inv k n e h ab'" using run by auto
    then show ?thesis
      using False ab(1) by (cases ab') (auto simp: pair_inv_def idle_def waiting_def)
  qed
qed

definition sample_pair :: pair_env where
  "sample_pair = \<lparr>outs_one = (\<lambda>c fd. served), outs_two = keyboard_at_0, fd_one = 9, fd_two = 8,
     base_one = 2 ^ 20, base_two = 2 ^ 21, msg_one = [], msg_two = []\<rparr>"

definition sample_reads :: "(nat \<times> draft_command) list" where
  "sample_reads = [(2, DWrite 0 ''abc''), (1, DRead 1), (2, DView), (2, DRead 1)]"

theorem draft_pair_shares_nothing_witness:
  "case bind_res (pair_start sample_pair (2 ^ 3) 2) (run_events (pair_step sample_pair) sample_reads) of
      Inl f \<Rightarrow> list_ex (second_reads 2) sample_reads \<and>
        f = (if \<not> first_comes_first 2 sample_reads then NotEnabled
             else case first_failure (tl (handler_checks (outs_two sample_pair 0 0))) of
               Some m \<Rightarrow> Exit m | None \<Rightarrow> Indeterminate)
    | Inr (a, b) \<Rightarrow> \<not> list_ex (second_reads 2) sample_reads \<and>
        list_all (\<lambda>d. take 2 (states_list d) = replicate 2 \<lparr>M = False, S = False, I = True\<rparr>) [a, b] \<and>
        flat (d_reg a) = replicate (2 * 2 ^ 3) NUL \<and> rbytes (d_reg b) = replicate (2 * 2 ^ 3) NUL \<and>
        {c. ReadChar c \<in> set (d_lines a)} \<subseteq> {NUL} \<and> {c. ReadChar c \<in> set (d_lines b)} = {}"
  by (rule draft_pair_shares_nothing)
    (simp_all add: sample_pair_def sample_reads_def draft_served_def all_served_def handler_checks_def served_def
      keyboard_at_0_def one_page_def)

end
