(* ===== verification/Msi_Draft_Old.thy ===== *)
theory Msi_Draft_Old
  imports Msi_Draft_Props
begin

text \<open>
  The two states before \<open>Project_3/part4/part4.c\<close>: \<open>backup3.c\<close>, whose fault handler waits for the
  other machine at every fault that no bus signal explains, and \<open>backup4.c\<close>, which differs from
  \<open>part4.c\<close> in the write command of machine 2. The rest of \<open>backup4.c\<close> is that of \<open>part4.c\<close> (\<open>Msi_Draft\<close>).
\<close>

section \<open>Accesses\<close>

text \<open>An access to memory, given what an access to one byte does.\<close>

definition old_show :: "(int \<Rightarrow> draft \<Rightarrow> draft res) \<Rightarrow> int \<Rightarrow> draft \<Rightarrow> draft res" where
  "old_show tch l s = bind_res (tch l s) (\<lambda>s. Inr (d_print (ReadChar (rbytes (d_reg s) ! nat l)) s))"

fun old_store :: "(int \<Rightarrow> draft \<Rightarrow> draft res) \<Rightarrow> int \<Rightarrow> char list \<Rightarrow> draft \<Rightarrow> draft res" where
  "old_store tch l [] s = Inr s"
| "old_store tch l (c # cs) s =
     bind_res (tch l s) (\<lambda>s.
       old_store tch (l + 1) cs (s\<lparr>d_reg := (d_reg s)\<lparr>rbytes := (rbytes (d_reg s))[nat l := c]\<rparr>\<rparr>))"

definition old_clear :: "(int \<Rightarrow> draft \<Rightarrow> draft res) \<Rightarrow> int \<Rightarrow> draft \<Rightarrow> draft res" where
  "old_clear tch l = old_store tch l (replicate 8 NUL)"

definition old_scan :: "string \<Rightarrow> draft \<Rightarrow> draft res" where
  "old_scan line s =
     (if line = [] then Inr s
      else if rsize (d_reg s) \<le> length line then Inl OutOfBounds
      else Inr (s\<lparr>d_message := takeWhile (\<lambda>c. c \<noteq> NUL) line\<rparr>))"

text \<open>
  The write command of machine 2, the same in both: a message for all pages is copied over them
  without clearing. \<open>tch a\<close> is an access while \<open>accessvar\<close> is \<open>a\<close>.
\<close>

definition old_write :: "(64 word \<Rightarrow> int \<Rightarrow> draft \<Rightarrow> draft res) \<Rightarrow> int \<Rightarrow> string \<Rightarrow> draft \<Rightarrow> draft res" where
  "old_write tch n line s =
     (let a = word_of_int n; ps = rsize (d_reg s); l = page_offset a ps
      in if \<not> draft_allowed a s then Inr (d_print NoSuchPage s)
         else bind_res (old_scan line s) (\<lambda>s.
           if a = -1
           then each_page ps (\<lambda>l s. old_store (tch a) l (d_message s) s) (d_length s) 0 s
           else bind_res (old_clear (tch a) l s) (\<lambda>s. old_store (tch a) l (d_message s) s)))"

section \<open>The bus of backup3\<close>

text \<open>
  Without a signal the handler waits for one from the other machine, unless all pages are
  accessed; no machine ever sends any. It goes on when the other process has ended.
\<close>

definition b3_update_bus :: "64 word \<Rightarrow> bus_info \<Rightarrow> draft \<Rightarrow> draft res" where
  "b3_update_bus a sigs s =
     (if d_order s = 1 \<and> BusRd sigs = 1 then Inr (d_print (UpdateBus 1) s)
      else if d_order s = 1 \<and> BusRdX sigs = 1 then Inr (d_print (UpdateBus 1) s)
      else if d_order s = 1 \<and> BusUpgr_sig sigs = 1 then Inr (d_print (CheckBus 1) s)
      else if d_order s = 2 \<and> BusRd sigs = 1 then Inr (d_print (UpdateBus 2) s)
      else if d_order s = 2 \<and> BusRdX sigs = 1 then Inr (d_print (UpdateBus 2) s)
      else if d_order s = 2 \<and> BusUpgr_sig sigs = 1 then Inr (d_print (CheckBus 2) s)
      else if a \<noteq> -1 \<and> (d_order s = 1 \<or> d_order s = 2) then
        (case d_in s of [] \<Rightarrow> if d_eof s then Inr s else Inl NotEnabled | b # bs \<Rightarrow> Inr (s\<lparr>d_in := bs, recv_signal := b\<rparr>))
      else Inr s)"

text \<open>An iteration of the handler: the bus comes between \<open>read\<close> and the checks of its result.\<close>

definition b3_fault :: "(nat \<Rightarrow> pf_outcome) \<Rightarrow> 64 word \<Rightarrow> nat \<Rightarrow> draft \<Rightarrow> draft res" where
  "b3_fault outs a l s =
     (if poll_ret (outs (fault_cnt (d_reg s))) = -1 then Inl (Exit ''poll'')
      else bind_res (b3_update_bus a (bus_signal s) s) (\<lambda>s.
        bind_res (touch (zero_page (rsize (d_reg s))) outs l (d_reg s)) (\<lambda>r. Inr (s\<lparr>d_reg := r\<rparr>))))"

definition b3_touch :: "(nat \<Rightarrow> pf_outcome) \<Rightarrow> 64 word \<Rightarrow> int \<Rightarrow> draft \<Rightarrow> draft res" where
  "b3_touch outs a l s =
     (if l < 0 \<or> length (rbytes (d_reg s)) \<le> nat l then Inl OutOfBounds
      else if resident (d_reg s) (nat l div rsize (d_reg s)) then Inr s
      else b3_fault outs a (nat l) s)"

section \<open>The menus of backup3\<close>

definition b3_read_one :: "(nat \<Rightarrow> pf_outcome) \<Rightarrow> int \<Rightarrow> draft \<Rightarrow> draft res" where
  "b3_read_one outs n s0 =
     (let a = word_of_int n; ps = rsize (d_reg s0); l = page_offset a ps;
          s = s0\<lparr>bus_signal := (bus_signal s0)\<lparr>cur_var := to_int32 n\<rparr>\<rparr>
      in if \<not> draft_allowed a s then Inr (d_print NoSuchPage s)
         else bind_res (state_of a s) (\<lambda>st.
           if S st \<or> M st then old_show (b3_touch outs a) l (d_print LocalCopy s)
           else if I st then
             old_show (b3_touch outs a) l
               (d_print InvalidPage (s\<lparr>bus_signal := (bus_signal s)\<lparr>BusRd := 1\<rparr>\<rparr>))
           else if a = -1 then
             bind_res (share_all s) (each_page ps (old_show (b3_touch outs a)) (d_length s) 0)
           else Inr s))"

text \<open>Machine 2 marks what it reads as Shared and raises no signal; Modified is left as it is.\<close>

definition b3_share :: "nat \<Rightarrow> MSIList list \<Rightarrow> MSIList list" where
  "b3_share i l = l[i := (l ! i)\<lparr>S := True, I := False\<rparr>]"

definition b3_read_two :: "(nat \<Rightarrow> pf_outcome) \<Rightarrow> int \<Rightarrow> draft \<Rightarrow> draft res" where
  "b3_read_two outs n s =
     (let a = word_of_int n; ps = rsize (d_reg s); l = page_offset a ps
      in if \<not> draft_allowed a s then Inr (d_print NoSuchPage s)
         else if a = -1 then
           if length (states_list s) < unat (d_pages s) then Inl OutOfBounds
           else each_page ps (old_show (b3_touch outs a)) (d_length s) 0
             (s\<lparr>states_list := fold b3_share [0..<unat (d_pages s)] (states_list s)\<rparr>)
         else if length (states_list s) \<le> unat a then Inl OutOfBounds
         else old_show (b3_touch outs a) l (s\<lparr>states_list := b3_share (unat a) (states_list s)\<rparr>))"

text \<open>Machine 1 reads the line before it looks at the page number, and clears all pages first.\<close>

definition b3_write_one :: "(nat \<Rightarrow> pf_outcome) \<Rightarrow> int \<Rightarrow> string \<Rightarrow> draft \<Rightarrow> draft res" where
  "b3_write_one outs n line s =
     (let a = word_of_int n; ps = rsize (d_reg s); l = page_offset a ps; tch = b3_touch outs a
      in bind_res (old_scan line s) (\<lambda>s.
           if \<not> draft_allowed a s then Inr (d_print NoSuchPage s)
           else if a = -1 then
             bind_res (each_page ps (old_clear tch) (d_length s) 0 s) (\<lambda>s.
               each_page ps (\<lambda>l s. old_store tch l (d_message s) s) (d_length s) 0 s)
           else bind_res (old_clear tch l s) (\<lambda>s. old_store tch l (d_message s) s)))"

fun b3_menu :: "nat \<Rightarrow> (nat \<Rightarrow> pf_outcome) \<Rightarrow> draft_command \<Rightarrow> draft \<Rightarrow> draft res" where
  "b3_menu m outs (DRead n) s = (if m = 1 then b3_read_one outs n s else b3_read_two outs n s)"
| "b3_menu m outs (DWrite n line) s =
     (if m = 1 then b3_write_one outs n line s else old_write (b3_touch outs) n line s)"
| "b3_menu m outs DView s = draft_view s"
| "b3_menu m outs DQuit s = Inl (Exit [])"
| "b3_menu m outs DOther s = Inr s"

section \<open>The menu of machine 2 in backup4\<close>

fun b4_menu :: "(nat \<Rightarrow> int \<Rightarrow> pf_outcome) \<Rightarrow> draft_command \<Rightarrow> draft \<Rightarrow> draft res" where
  "b4_menu outs (DWrite n line) s = old_write (\<lambda>a. draft_touch outs) n line s"
| "b4_menu outs c s = draft_menu outs c s"

section \<open>The first characters of the pages\<close>

text \<open>
  What a read of a page shows of memory filled on demand: its first character, once the page is
  there.
\<close>

definition firsts :: "nat \<Rightarrow> nat \<Rightarrow> draft \<Rightarrow> nat \<Rightarrow> char option" where
  "firsts k n s i = (if i < n \<and> resident (d_reg s) i then Some (rbytes (d_reg s) ! (i * 2 ^ k)) else None)"

text \<open>The effect of a write on the message in the buffer and on the first characters.\<close>

fun first_write :: "nat \<Rightarrow> int \<times> string \<Rightarrow> string \<times> (nat \<Rightarrow> char option) \<Rightarrow> string \<times> (nat \<Rightarrow> char option)" where
  "first_write n (m, line) (msg, f) =
     (let a = (word_of_int m :: 64 word); msg' = (if line = [] then msg else line)
      in if a = -1 then (msg', fold (\<lambda>i f. if msg' = [] then f else f(i \<mapsto> hd msg')) [0..<n] f)
         else if unat a < n then (msg', f(unat a \<mapsto> (if msg' = [] then NUL else hd msg')))
         else (msg, f))"

text \<open>
  An access that brings the page in, filled with zeros, and changes nothing else that matters:
  the contract of the touch functions on which the stores and the loops rely.
\<close>

locale drafted_memory =
  fixes k n :: nat
    and tch :: "int \<Rightarrow> draft \<Rightarrow> draft res"
    and inv :: "draft \<Rightarrow> bool"
  assumes tch_page: "inv s \<Longrightarrow> l < n * 2 ^ k \<Longrightarrow>
      \<exists>s'. tch (int l) s = Inr s' \<and> inv s' \<and> d_message s' = d_message s \<and> d_lines s' = d_lines s \<and>
        resident (d_reg s') = (resident (d_reg s))(l div 2 ^ k := True) \<and>
        (\<forall>j < n * 2 ^ k. rbytes (d_reg s') ! j =
          (if j div 2 ^ k = l div 2 ^ k \<and> \<not> resident (d_reg s) (l div 2 ^ k) then NUL else rbytes (d_reg s) ! j))"
    and inv_length: "inv s \<Longrightarrow> length (rbytes (d_reg s)) = n * 2 ^ k"
    and inv_bytes: "inv s \<Longrightarrow> l < n * 2 ^ k \<Longrightarrow>
      inv (s\<lparr>d_reg := (d_reg s)\<lparr>rbytes := (rbytes (d_reg s))[l := c]\<rparr>\<rparr>)"
    and inv_lines: "inv s \<Longrightarrow> inv (s\<lparr>d_lines := ls\<rparr>)"
    and inv_message: "inv s \<Longrightarrow> inv (s\<lparr>d_message := msg\<rparr>)"
    and inv_sizes: "inv s \<Longrightarrow> rsize (d_reg s) = 2 ^ k \<and> d_pages s = word_of_nat n \<and> d_length s = n * 2 ^ k \<and>
      n * 2 ^ k < 2 ^ 31 \<and> 3 \<le> k \<and> k < 64"
begin

lemma store_page:
  assumes "inv s" and "i < n" and "off + length bs \<le> 2 ^ k"
  shows "\<exists>s'. old_store tch (int (i * 2 ^ k + off)) bs s = Inr s' \<and> inv s' \<and>
    d_message s' = d_message s \<and> d_lines s' = d_lines s \<and>
    resident (d_reg s') = (if bs = [] then resident (d_reg s) else (resident (d_reg s))(i := True)) \<and>
    (\<forall>j < n * 2 ^ k. j div 2 ^ k \<noteq> i \<longrightarrow> rbytes (d_reg s') ! j = rbytes (d_reg s) ! j) \<and>
    (\<forall>j. off \<le> j \<and> j < off + length bs \<longrightarrow> rbytes (d_reg s') ! (i * 2 ^ k + j) = bs ! (j - off)) \<and>
    (\<forall>j < off. resident (d_reg s) i \<longrightarrow> rbytes (d_reg s') ! (i * 2 ^ k + j) = rbytes (d_reg s) ! (i * 2 ^ k + j))"
  using assms(1,3)
proof (induction bs arbitrary: off s)
  case Nil
  then show ?case by auto
next
  case (Cons c bs)
  let ?l = "i * 2 ^ k + off"
  have page: "?l div 2 ^ k = i" using Cons.prems(2) by simp
  have l: "?l < n * 2 ^ k" using page_index_bound [OF assms(2), of off "2 ^ k"] Cons.prems(2) by simp
  obtain s1 where s1: "tch (int ?l) s = Inr s1" "inv s1" "d_message s1 = d_message s" "d_lines s1 = d_lines s"
    "resident (d_reg s1) = (resident (d_reg s))(i := True)"
    "\<forall>j < n * 2 ^ k. rbytes (d_reg s1) ! j =
      (if j div 2 ^ k = i \<and> \<not> resident (d_reg s) i then NUL else rbytes (d_reg s) ! j)"
    using tch_page [OF Cons.prems(1) l] unfolding page by blast
  let ?s = "s1\<lparr>d_reg := (d_reg s1)\<lparr>rbytes := (rbytes (d_reg s1))[?l := c]\<rparr>\<rparr>"
  have len: "length (rbytes (d_reg s1)) = n * 2 ^ k" by (rule inv_length [OF s1(2)])
  have room: "Suc off + length bs \<le> 2 ^ k" using Cons.prems(2) by simp
  obtain s2 where s2: "old_store tch (int (i * 2 ^ k + Suc off)) bs ?s = Inr s2" "inv s2"
    "d_message s2 = d_message ?s" "d_lines s2 = d_lines ?s"
    "resident (d_reg s2) = (if bs = [] then resident (d_reg ?s) else (resident (d_reg ?s))(i := True))"
    "\<forall>j < n * 2 ^ k. j div 2 ^ k \<noteq> i \<longrightarrow> rbytes (d_reg s2) ! j = rbytes (d_reg ?s) ! j"
    "\<forall>j. Suc off \<le> j \<and> j < Suc off + length bs \<longrightarrow> rbytes (d_reg s2) ! (i * 2 ^ k + j) = bs ! (j - Suc off)"
    "\<forall>j < Suc off. resident (d_reg ?s) i \<longrightarrow>
       rbytes (d_reg s2) ! (i * 2 ^ k + j) = rbytes (d_reg ?s) ! (i * 2 ^ k + j)"
    using Cons.IH [OF inv_bytes [OF s1(2) l] room] by blast
  have here: "i * 2 ^ k + j < n * 2 ^ k" "(i * 2 ^ k + j) div 2 ^ k = i" if "j < 2 ^ k" for j
    using page_index_bound [OF assms(2) that] that by simp_all
  have step: "old_store tch (int ?l) (c # bs) s = Inr s2"
    using s1(1) s2(1) by (simp add: add.commute nat_add_distrib nat_mult_distrib nat_power_eq)
  have far: "rbytes (d_reg s2) ! j = rbytes (d_reg s) ! j" if "j < n * 2 ^ k" "j div 2 ^ k \<noteq> i" for j
  proof -
    have "?l \<noteq> j" using that(2) page by auto
    then show ?thesis using s2(6) s1(6) that by simp
  qed
  have new: "rbytes (d_reg s2) ! (i * 2 ^ k + j) = (c # bs) ! (j - off)" if "off \<le> j" "j < off + length (c # bs)" for j
  proof (cases "j = off")
    case True
    then show ?thesis using s2(8) s1(5) len l by simp
  next
    case False
    then have "Suc off \<le> j" "j < Suc off + length bs" "j - off = Suc (j - Suc off)" using that by auto
    then show ?thesis using s2(7) by simp
  qed
  have old: "rbytes (d_reg s2) ! (i * 2 ^ k + j) = rbytes (d_reg s) ! (i * 2 ^ k + j)"
    if "j < off" "resident (d_reg s) i" for j
    using s2(8) s1(5,6) here(1) [of j] that Cons.prems(2) by simp
  have "resident (d_reg s2) = (resident (d_reg s))(i := True)" using s2(5) s1(5) by simp
  then show ?case using step s2(2-4) s1(3,4) far new old by (intro exI [of _ s2]) simp
qed

lemma page_start: "i < n \<Longrightarrow> i * 2 ^ k < n * 2 ^ k \<and> i * 2 ^ k div 2 ^ k = (i :: nat)"
  by simp

text \<open>A store at the start of a page sets its first character.\<close>

lemma store_first:
  assumes "inv s" and "i < n" and "length bs \<le> 2 ^ k"
  shows "\<exists>s'. old_store tch (int (i * 2 ^ k)) bs s = Inr s' \<and> inv s' \<and> d_message s' = d_message s \<and>
    d_lines s' = d_lines s \<and> firsts k n s' = (if bs = [] then firsts k n s else (firsts k n s)(i \<mapsto> hd bs))"
proof -
  obtain s' where s': "old_store tch (int (i * 2 ^ k)) bs s = Inr s'" "inv s'" "d_message s' = d_message s"
    "d_lines s' = d_lines s"
    "resident (d_reg s') = (if bs = [] then resident (d_reg s) else (resident (d_reg s))(i := True))"
    "\<forall>j < n * 2 ^ k. j div 2 ^ k \<noteq> i \<longrightarrow> rbytes (d_reg s') ! j = rbytes (d_reg s) ! j"
    "\<forall>j < length bs. rbytes (d_reg s') ! (i * 2 ^ k + j) = bs ! j"
    using store_page [OF assms(1,2), of 0 bs] assms(3) by auto
  have "firsts k n s' = (if bs = [] then firsts k n s else (firsts k n s)(i \<mapsto> hd bs))"
  proof (cases bs)
    case Nil
    then have "s' = s" using s'(1) by simp
    then show ?thesis using Nil by simp
  next
    case (Cons c cs)
    have "rbytes (d_reg s') ! (i * 2 ^ k) = c" using s'(7) [rule_format, of 0] Cons by simp
    moreover have "rbytes (d_reg s') ! (p * 2 ^ k) = rbytes (d_reg s) ! (p * 2 ^ k)" if "p < n" "p \<noteq> i" for p
      using s'(6) page_start [OF that(1)] that(2) by simp
    ultimately show ?thesis using s'(5) Cons assms(2) by (intro ext) (simp add: firsts_def)
  qed
  then show ?thesis using s' by blast
qed

lemma show_first:
  assumes "inv s" and "i < n"
  shows "\<exists>s'. old_show tch (int (i * 2 ^ k)) s = Inr s' \<and> inv s' \<and> d_message s' = d_message s \<and>
    (\<exists>c. firsts k n s' = (firsts k n s)(i \<mapsto> c) \<and> c = (case firsts k n s i of None \<Rightarrow> NUL | Some c \<Rightarrow> c) \<and>
      d_lines s' = d_lines s @ [ReadChar c])"
proof -
  note st = page_start [OF assms(2)]
  obtain s' where s': "tch (int (i * 2 ^ k)) s = Inr s'" "inv s'" "d_message s' = d_message s" "d_lines s' = d_lines s"
    "resident (d_reg s') = (resident (d_reg s))(i := True)"
    "\<forall>j < n * 2 ^ k. rbytes (d_reg s') ! j =
      (if j div 2 ^ k = i \<and> \<not> resident (d_reg s) i then NUL else rbytes (d_reg s) ! j)"
    using tch_page [OF assms(1), of "i * 2 ^ k"] st by auto
  let ?c = "case firsts k n s i of None \<Rightarrow> NUL | Some c \<Rightarrow> c"
  have c: "rbytes (d_reg s') ! (i * 2 ^ k) = ?c"
    using s'(6) st assms(2) by (simp add: firsts_def)
  have "rbytes (d_reg s') ! (p * 2 ^ k) = rbytes (d_reg s) ! (p * 2 ^ k)" if "p < n" "p \<noteq> i" for p
    using s'(6) page_start [OF that(1)] that(2) by simp
  then have "firsts k n s' = (firsts k n s)(i \<mapsto> ?c)"
    using s'(5) c assms(2) by (intro ext) (simp add: firsts_def)
  moreover have "firsts k n (d_print l s') = firsts k n s'" for l by (intro ext) (simp add: firsts_def d_print_def)
  moreover have "nat (int (i * 2 ^ k)) = i * 2 ^ k" by (rule nat_int)
  ultimately show ?thesis
    using s' c inv_lines [OF s'(2)] by (simp add: old_show_def d_print_def del: of_nat_mult)
qed

text \<open>Loops over all pages, for a body that acts on the first characters by \<open>act\<close>.\<close>

lemma pages_first:
  assumes "\<And>s i. inv s \<Longrightarrow> P s \<Longrightarrow> i < n \<Longrightarrow> \<exists>s'. body (int (i * 2 ^ k)) s = Inr s' \<and> inv s' \<and> P s' \<and>
      firsts k n s' = act i (firsts k n s)"
    and "inv s" and "P s" and "j \<le> n"
  shows "\<exists>s'. each_page (2 ^ k) body (n * 2 ^ k) (j * 2 ^ k) s = Inr s' \<and> inv s' \<and> P s' \<and>
    firsts k n s' = fold act [j..<n] (firsts k n s)"
  using assms(2-4)
proof (induction "n - j" arbitrary: j s)
  case 0
  then have "j = n" by simp
  then show ?case using 0 by (subst each_page.simps) simp
next
  case (Suc m)
  then have j: "j < n" by simp
  obtain t where t: "body (int (j * 2 ^ k)) s = Inr t" "inv t" "P t" "firsts k n t = act j (firsts k n s)"
    using assms(1) [OF Suc.prems(1,2) j] by blast
  have m: "m = n - Suc j" using Suc.hyps(2) by simp
  have lt: "j * 2 ^ k < n * (2 ^ k :: nat)" "j * 2 ^ k + 2 ^ k \<le> n * (2 ^ k :: nat)"
    using j page_span [OF j, of k] by simp_all
  have "\<exists>s'. each_page (2 ^ k) body (n * 2 ^ k) (Suc j * 2 ^ k) t = Inr s' \<and> inv s' \<and> P s' \<and>
      firsts k n s' = fold act [Suc j..<n] (firsts k n t)"
    using Suc.hyps(1) [OF m t(2,3)] j by simp
  then show ?case
    using t lt j inv_sizes [OF t(2)] by (subst each_page.simps) (simp add: upt_conv_Cons add.commute)
qed

lemma inv_allowed: "inv s \<Longrightarrow> draft_allowed a s \<longleftrightarrow> a = -1 \<or> unat a < n"
proof -
  assume i: "inv s"
  have "n * 1 \<le> n * 2 ^ k" by (intro mult_le_mono2) simp
  then have "n < 2 ^ 31" using inv_sizes [OF i] by linarith
  then have "n < 2 ^ 64" by simp
  then show ?thesis using inv_sizes [OF i] by (auto simp: draft_allowed_def word_less_nat_alt unat_of_nat)
qed

lemma firsts_message [simp]: "firsts k n (s\<lparr>d_message := msg\<rparr>) = firsts k n s"
  by (intro ext) (simp add: firsts_def)

lemma write_first:
  assumes i: "inv s" and msg: "length (d_message s) \<le> 2 ^ k" and line: "text_ok (2 ^ k) line"
    and tchs: "tchs (word_of_int m) = tch"
  shows "\<exists>s'. old_write tchs m line s = Inr s' \<and> inv s' \<and> length (d_message s') \<le> 2 ^ k \<and>
    (d_message s', firsts k n s') = first_write n (m, line) (d_message s, firsts k n s)"
proof -
  let ?a = "word_of_int m :: 64 word"
  let ?msg = "if line = [] then d_message s else line"
  let ?s = "s\<lparr>d_message := ?msg\<rparr>"
  note sz = inv_sizes [OF i]
  have "takeWhile (\<lambda>c. c \<noteq> NUL) line = line" "length line < 2 ^ k"
    using line by (auto simp: text_ok_def takeWhile_eq_all_conv)
  then have scan: "old_scan line s = Inr ?s" using sz by (simp add: old_scan_def)
  have len: "length ?msg \<le> 2 ^ k" using msg \<open>length line < 2 ^ k\<close> by simp
  note i' = inv_message [OF i, of ?msg]
  have eight: "(8 :: nat) \<le> 2 ^ k" using sz power_increasing [of 3 k "2 :: nat"] by simp
  consider "?a = -1" | "?a \<noteq> -1" "unat ?a < n" | "?a \<noteq> -1" "\<not> unat ?a < n" by blast
  then show ?thesis
  proof cases
    case 1
    let ?act = "\<lambda>i f. if ?msg = [] then f else f(i \<mapsto> hd ?msg)"
    have "\<exists>s'. each_page (2 ^ k) (\<lambda>l s. old_store tch l (d_message s) s) (n * 2 ^ k) (0 * 2 ^ k) ?s = Inr s' \<and>
        inv s' \<and> d_message s' = ?msg \<and> firsts k n s' = fold ?act [0..<n] (firsts k n ?s)"
    proof (rule pages_first)
      fix t i assume t: "inv t" "d_message t = ?msg" "i < n"
      show "\<exists>s'. old_store tch (int (i * 2 ^ k)) (d_message t) t = Inr s' \<and> inv s' \<and> d_message s' = ?msg \<and>
          firsts k n s' = ?act i (firsts k n t)"
        using store_first [OF t(1,3), of "d_message t"] len unfolding t(2) by auto
    qed (use i' in simp_all)
    then show ?thesis
      using 1 scan sz len tchs inv_allowed [OF i, of ?a] by (auto simp: old_write_def Let_def)
  next
    case 2
    have off: "page_offset ?a (2 ^ k) = int (unat ?a * 2 ^ k)" using sz 2 by (intro page_offset_small) auto
    obtain t where t: "old_clear tch (int (unat ?a * 2 ^ k)) ?s = Inr t" "inv t" "d_message t = ?msg"
      "firsts k n t = (firsts k n s)(unat ?a \<mapsto> NUL)"
      using store_first [OF i' 2(2), of "replicate 8 NUL"] eight by (auto simp: old_clear_def)
    obtain u where u: "old_store tch (int (unat ?a * 2 ^ k)) ?msg t = Inr u" "inv u" "d_message u = ?msg"
      "firsts k n u = (if ?msg = [] then firsts k n t else (firsts k n t)(unat ?a \<mapsto> hd ?msg))"
      using store_first [OF t(2) 2(2) len] t(3) by auto
    have "old_write tchs m line s = Inr u"
      using 2 scan sz tchs inv_allowed [OF i, of ?a] t(1,3) u(1) off by (simp add: old_write_def Let_def)
    then show ?thesis
      using u t(4) 2 len by (intro exI [of _ u]) (simp add: Let_def)
  next
    case 3
    have "firsts k n (d_print NoSuchPage s) = firsts k n s" by (intro ext) (simp add: firsts_def d_print_def)
    then show ?thesis
      using 3 inv_allowed [OF i, of ?a] inv_lines [OF i] msg by (simp add: old_write_def d_print_def)
  qed
qed

lemma writes_first:
  assumes "inv s" and "length (d_message s) \<le> 2 ^ k" and "list_all (\<lambda>(m, line). text_ok (2 ^ k) line) ws"
    and "\<And>a. tchs a = tch"
  shows "\<exists>s'. run_events (\<lambda>(m, line). old_write tchs m line) ws s = Inr s' \<and> inv s' \<and>
    (d_message s', firsts k n s') = fold (first_write n) ws (d_message s, firsts k n s)"
  using assms(1-3)
proof (induction ws arbitrary: s)
  case (Cons w ws)
  obtain m line where w: "w = (m, line)" by (cases w)
  have line: "text_ok (2 ^ k) line" using Cons.prems(3) by (simp add: w)
  obtain t where t: "old_write tchs m line s = Inr t" "inv t" "length (d_message t) \<le> 2 ^ k"
    "(d_message t, firsts k n t) = first_write n w (d_message s, firsts k n s)"
    using write_first [where tchs = tchs and m = m, OF Cons.prems(1,2) line assms(4)] w by (auto simp del: first_write.simps)
  then show ?case using Cons.IH [OF t(2,3)] Cons.prems(3) by (simp add: w t(4) [symmetric] del: first_write.simps)
qed simp

end

section \<open>Machine 2 without a signal\<close>

definition quiet :: "nat \<Rightarrow> nat \<Rightarrow> int \<Rightarrow> MSIList list \<Rightarrow> draft \<Rightarrow> bool" where
  "quiet k n fd sts s \<longleftrightarrow> d_order s = 2 \<and> d_uffd s = fd \<and> bus_uffd (recv_signal s) = fd \<and>
     BusRd (bus_signal s) = 0 \<and> BusRdX (bus_signal s) = 0 \<and> BusUpgr_sig (bus_signal s) = 0 \<and> d_in s = [] \<and>
     \<not> d_eof s \<and> d_pages s = word_of_nat n \<and> n \<le> 1024 \<and> states_list s = sts \<and> length sts = 1024 \<and> d_length s = n * 2 ^ k \<and>
     n * 2 ^ k < 2 ^ 31 \<and> 3 \<le> k \<and> region_ok k n (d_reg s)"

lemma quiet_frame [simp]:
  "quiet k n fd sts (s\<lparr>d_lines := ls\<rparr>) = quiet k n fd sts s"
  "quiet k n fd sts (s\<lparr>d_message := msg\<rparr>) = quiet k n fd sts s"
  by (simp_all add: quiet_def)

lemma quiet_region: "quiet k n fd sts s \<Longrightarrow> region_ok k n r \<Longrightarrow> quiet k n fd sts (s\<lparr>d_reg := r\<rparr>)"
  by (simp add: quiet_def)

lemma quiet_bytes: "quiet k n fd sts s \<Longrightarrow> quiet k n fd sts (s\<lparr>d_reg := (d_reg s)\<lparr>rbytes := (rbytes (d_reg s))[l := c]\<rparr>\<rparr>)"
  by (simp add: quiet_def region_ok_def)

lemma quiet_sizes: "quiet k n fd sts s \<Longrightarrow> region_ok k n (d_reg s) \<and> rsize (d_reg s) = 2 ^ k \<and>
    length (rbytes (d_reg s)) = n * 2 ^ k \<and> d_pages s = word_of_nat n \<and> d_length s = n * 2 ^ k \<and>
    n * 2 ^ k < 2 ^ 31 \<and> 3 \<le> k \<and> k < 64"
  by (simp add: quiet_def region_ok_def)

text \<open>A fault served with a page of zeros.\<close>

lemma touch_zero_page:
  assumes r: "region_ok k n r" and l: "l < n * 2 ^ k" and srv: "all_served outs"
  shows "\<exists>r'. touch (zero_page (2 ^ k)) outs l r = Inr r' \<and> region_ok k n r' \<and>
    resident r' = (resident r)(l div 2 ^ k := True) \<and>
    (\<forall>j < n * 2 ^ k. rbytes r' ! j =
      (if j div 2 ^ k = l div 2 ^ k \<and> \<not> resident r (l div 2 ^ k) then NUL else rbytes r ! j))"
proof (cases "resident r (l div 2 ^ k)")
  case True
  then show ?thesis
    using touch_ok [OF r l srv, of "zero_page (2 ^ k)"] r by (auto simp: zero_page_def fun_upd_idem)
next
  case False
  let ?r = "filled k (l div 2 ^ k) (zero_page (2 ^ k) (fault_cnt r)) r"
  note p = page_end(1) [OF l]
  have ok: "region_ok k n ?r" by (rule region_ok_filled [OF r p]) (simp add: zero_page_def)
  have "rbytes ?r ! j = (if j div 2 ^ k = l div 2 ^ k then NUL else rbytes r ! j)" if "j < n * 2 ^ k" for j
    using filled_byte [OF r p _ that, of "zero_page (2 ^ k) (fault_cnt r)"] by (simp add: zero_page_def)
  then show ?thesis
    using touch_ok [OF r l srv, of "zero_page (2 ^ k)"] False ok by (simp add: zero_page_def) (simp add: filled_def)
qed

lemma quiet_touch:
  assumes q: "quiet k n fd sts s" and l: "l < n * 2 ^ k" and srv: "all_served outs"
    and tch: "\<And>r. touch (zero_page (2 ^ k)) outs l (d_reg s) = Inr r \<Longrightarrow>
      tch (int l) s = Inr (s\<lparr>d_reg := r\<rparr>)"
  shows "\<exists>s'. tch (int l) s = Inr s' \<and> quiet k n fd sts s' \<and> d_message s' = d_message s \<and> d_lines s' = d_lines s \<and>
    resident (d_reg s') = (resident (d_reg s))(l div 2 ^ k := True) \<and>
    (\<forall>j < n * 2 ^ k. rbytes (d_reg s') ! j =
      (if j div 2 ^ k = l div 2 ^ k \<and> \<not> resident (d_reg s) (l div 2 ^ k) then NUL else rbytes (d_reg s) ! j))"
  using touch_zero_page [OF _ l srv, of "d_reg s"] quiet_sizes [OF q] tch quiet_region [OF q] by fastforce

text \<open>\<open>backup4.c\<close>: without a read there is no signal, and the handler serves every fault.\<close>

lemma b4_touch:
  assumes q: "quiet k n fd sts s" and l: "l < n * 2 ^ k" and srv: "draft_served outs fd"
    and r: "touch (zero_page (2 ^ k)) (\<lambda>c. outs c fd) l (d_reg s) = Inr r"
  shows "draft_touch outs (int l) s = Inr (s\<lparr>d_reg := r\<rparr>)"
proof (cases "resident (d_reg s) (l div 2 ^ k)")
  case True
  then have "r = d_reg s" using r l quiet_sizes [OF q] by (simp add: touch_def)
  then show ?thesis using True l quiet_sizes [OF q] by (simp add: draft_touch_def)
next
  case False
  then show ?thesis
    using r l q quiet_sizes [OF q] srv
    by (simp add: draft_touch_def draft_fault_def update_bus_def quiet_def draft_served_def Let_def)
qed

interpretation b4: drafted_memory k n "draft_touch outs" "\<lambda>s. quiet k n fd sts s \<and> draft_served outs fd" for k n outs fd sts
proof unfold_locales
  fix s l assume i: "quiet k n fd sts s \<and> draft_served outs fd" and l: "l < n * 2 ^ k"
  have srv: "all_served (\<lambda>c. outs c fd)" using i by (simp add: draft_served_def)
  show "\<exists>s'. draft_touch outs (int l) s = Inr s' \<and> (quiet k n fd sts s' \<and> draft_served outs fd) \<and>
      d_message s' = d_message s \<and> d_lines s' = d_lines s \<and>
      resident (d_reg s') = (resident (d_reg s))(l div 2 ^ k := True) \<and>
      (\<forall>j < n * 2 ^ k. rbytes (d_reg s') ! j =
        (if j div 2 ^ k = l div 2 ^ k \<and> \<not> resident (d_reg s) (l div 2 ^ k) then NUL else rbytes (d_reg s) ! j))"
    using quiet_touch [where tch = "draft_touch outs", OF conjunct1 [OF i] l srv
        b4_touch [OF conjunct1 [OF i] l conjunct2 [OF i]]] conjunct2 [OF i] by blast
qed (auto dest: quiet_sizes intro: quiet_bytes)

text \<open>\<open>backup3.c\<close>: an access to all pages does not wait, and no access waits once all pages are there.\<close>

lemma b3_touch:
  assumes q: "quiet k n fd sts s" and l: "l < n * 2 ^ k" and srv: "all_served outs"
    and a: "a = -1 \<or> resident (d_reg s) (l div 2 ^ k)"
    and r: "touch (zero_page (2 ^ k)) outs l (d_reg s) = Inr r"
  shows "b3_touch outs a (int l) s = Inr (s\<lparr>d_reg := r\<rparr>)"
proof (cases "resident (d_reg s) (l div 2 ^ k)")
  case True
  then have "r = d_reg s" using r l quiet_sizes [OF q] by (simp add: touch_def)
  then show ?thesis using True l quiet_sizes [OF q] by (simp add: b3_touch_def)
next
  case False
  moreover have "poll_ret (outs (fault_cnt (d_reg s))) \<noteq> -1"
    using srv by (auto simp: all_served_def handler_checks_def)
  ultimately show ?thesis
    using r l q a quiet_sizes [OF q] by (simp add: b3_touch_def b3_fault_def b3_update_bus_def quiet_def)
qed

definition all_here :: "nat \<Rightarrow> draft \<Rightarrow> bool" where
  "all_here n s \<longleftrightarrow> (\<forall>i < n. resident (d_reg s) i)"

interpretation b3_all: drafted_memory k n "b3_touch outs (-1)" "\<lambda>s. quiet k n fd sts s \<and> all_served outs" for k n outs fd sts
proof unfold_locales
  fix s l assume i: "quiet k n fd sts s \<and> all_served outs" and l: "l < n * 2 ^ k"
  then show "\<exists>s'. b3_touch outs (-1) (int l) s = Inr s' \<and> (quiet k n fd sts s' \<and> all_served outs) \<and>
      d_message s' = d_message s \<and> d_lines s' = d_lines s \<and>
      resident (d_reg s') = (resident (d_reg s))(l div 2 ^ k := True) \<and>
      (\<forall>j < n * 2 ^ k. rbytes (d_reg s') ! j =
        (if j div 2 ^ k = l div 2 ^ k \<and> \<not> resident (d_reg s) (l div 2 ^ k) then NUL else rbytes (d_reg s) ! j))"
    using quiet_touch [of k n fd sts s l outs "b3_touch outs (-1)"] b3_touch [of k n fd sts s l outs "-1"] by simp
qed (auto dest: quiet_sizes intro: quiet_bytes)

interpretation b3_any: drafted_memory k n "b3_touch outs a" "\<lambda>s. quiet k n fd sts s \<and> all_served outs \<and> all_here n s"
  for k n outs fd sts a
proof unfold_locales
  fix s l assume i: "quiet k n fd sts s \<and> all_served outs \<and> all_here n s" and l: "l < n * 2 ^ k"
  then have here: "resident (d_reg s) (l div 2 ^ k)" using page_end(1) [OF l] by (simp add: all_here_def)
  have "\<exists>s'. b3_touch outs a (int l) s = Inr s' \<and> quiet k n fd sts s' \<and>
      d_message s' = d_message s \<and> d_lines s' = d_lines s \<and>
      resident (d_reg s') = (resident (d_reg s))(l div 2 ^ k := True) \<and>
      (\<forall>j < n * 2 ^ k. rbytes (d_reg s') ! j =
        (if j div 2 ^ k = l div 2 ^ k \<and> \<not> resident (d_reg s) (l div 2 ^ k) then NUL else rbytes (d_reg s) ! j))"
    using quiet_touch [of k n fd sts s l outs "b3_touch outs a"] b3_touch [of k n fd sts s l outs a] i l here by simp
  then show "\<exists>s'. b3_touch outs a (int l) s = Inr s' \<and> (quiet k n fd sts s' \<and> all_served outs \<and> all_here n s') \<and>
      d_message s' = d_message s \<and> d_lines s' = d_lines s \<and>
      resident (d_reg s') = (resident (d_reg s))(l div 2 ^ k := True) \<and>
      (\<forall>j < n * 2 ^ k. rbytes (d_reg s') ! j =
        (if j div 2 ^ k = l div 2 ^ k \<and> \<not> resident (d_reg s) (l div 2 ^ k) then NUL else rbytes (d_reg s) ! j))"
    using i by (auto simp: all_here_def)
qed (auto dest: quiet_sizes intro: quiet_bytes simp: all_here_def)

lemma start_quiet:
  assumes "3 \<le> k" and "k < 31" and "n \<le> 1024" and "n * 2 ^ k < 2 ^ 31" and "unat base + n * 2 ^ k < 2 ^ 64"
    and "2 ^ k dvd unat base"
  shows "\<exists>s. draft_start 2 fd (2 ^ k) n base msg = Inr s \<and> d_message s = msg \<and>
    quiet k n fd (replicate n invalid @ replicate (1024 - n) no_state) s \<and> firsts k n s = Map.empty \<and>
    (\<forall>i. \<not> resident (d_reg s) i)"
  using assms region_ok_fresh [of k base n]
  by (simp add: draft_start_def quiet_def no_signal_def firsts_def fun_eq_iff) (simp add: fresh_region_def)

lemma old_clear_step: "tch l s = Inl e \<Longrightarrow> old_clear tch l s = Inl e"
  by (simp add: old_clear_def numeral_eq_Suc)

lemma page_number:
  assumes "i < n" and "n \<le> 1024"
  shows "unat (word_of_int (int i) :: 64 word) = i" and "(word_of_int (int i) :: 64 word) \<noteq> -1"
proof -
  show "unat (word_of_int (int i) :: 64 word) = i" using assms by (simp add: unat_of_nat)
  moreover have "unat (-1 :: 64 word) = 2 ^ 64 - 1" by (simp add: unsigned_minus_1_eq_mask mask_eq_exp_minus_1)
  ultimately show "(word_of_int (int i) :: 64 word) \<noteq> -1" using assms by auto
qed

lemma offset_of_page:
  assumes "i < n" and "n \<le> 1024" and "k < 31" and "n * 2 ^ k < 2 ^ 31"
  shows "page_offset (word_of_int (int i)) (2 ^ k) = int (i * 2 ^ k)"
proof -
  note p = page_number(1) [OF assms(1,2)]
  have "unat (word_of_int (int i) :: 64 word) < n" unfolding p by (rule assms(1))
  moreover have "k < 64" using assms(3) by simp
  ultimately have "page_offset (word_of_int (int i)) (2 ^ k) = int (unat (word_of_int (int i) :: 64 word) * 2 ^ k)"
    using page_offset_small assms(4) by blast
  then show ?thesis by (simp only: p)
qed

text \<open>
  In \<open>backup3.c\<close> a machine hangs at its first access to a page: a write to a page on either
  machine, or a read of a page on machine 2, faults without a bus signal, and the handler then
  waits for a record that no machine sends.
\<close>

theorem b3_first_access_hangs:
  assumes "3 \<le> k" and "k < 31" and "n \<le> 1024" and "n * 2 ^ k < 2 ^ 31" and "unat base + n * 2 ^ k < 2 ^ 64"
    and "2 ^ k dvd unat base" and "all_served outs" and "m = 1 \<or> m = 2" and "i < n"
    and "c = DWrite (int i) line \<and> text_ok (2 ^ k) line \<or> m = 2 \<and> c = DRead (int i)"
  shows "bind_res (draft_start m fd (2 ^ k) n base msg) (b3_menu m outs c) = Inl NotEnabled"
proof -
  let ?a = "word_of_int (int i) :: 64 word"
  obtain s where s: "draft_start m fd (2 ^ k) n base msg = Inr s" "d_order s = m" "bus_signal s = no_signal"
    "d_in s = []" "\<not> d_eof s" "d_pages s = word_of_nat n" "d_reg s = fresh_region (2 ^ k) n base" "length (states_list s) = 1024"
    using assms(3) by (simp add: draft_start_def)
  note p = page_number [OF assms(9,3)]
  have off: "page_offset ?a (2 ^ k) = int (i * 2 ^ k)" by (rule offset_of_page [OF assms(9,3,2,4)])
  have here: "i * 2 ^ k < n * 2 ^ k" using assms(9) by simp
  have poll: "poll_ret (outs 0) \<noteq> -1" using assms(7) by (auto simp: all_served_def handler_checks_def)
  have hang: "b3_touch outs ?a (int (i * 2 ^ k)) t = Inl NotEnabled"
    if "d_order t = m" "bus_signal t = no_signal" "d_in t = []" "\<not> d_eof t" "d_reg t = fresh_region (2 ^ k) n base" for t
    using that here p(2) poll assms(8)
    by (auto simp: b3_touch_def b3_fault_def b3_update_bus_def no_signal_def fresh_region_def simp del: of_nat_mult)
  have al: "draft_allowed ?a s"
    using s(6) p(1) assms(3,9) by (simp add: draft_allowed_def word_less_nat_alt few_pages)
  have rs: "rsize (d_reg s) = 2 ^ k" using s(7) by (simp add: fresh_region_def)
  from assms(10) show ?thesis
  proof
    assume c: "c = DWrite (int i) line \<and> text_ok (2 ^ k) line"
    define t where "t = (if line = [] then s else s\<lparr>d_message := takeWhile (\<lambda>c. c \<noteq> NUL) line\<rparr>)"
    have t: "old_scan line s = Inr t" "d_order t = m" "bus_signal t = no_signal" "d_in t = []" "\<not> d_eof t"
      "d_reg t = d_reg s" "d_pages t = d_pages s"
      using c s(2-5) rs by (simp_all add: t_def old_scan_def text_ok_def)
    then have "draft_allowed ?a t" "old_clear (b3_touch outs ?a) (int (i * 2 ^ k)) t = Inl NotEnabled"
      using al hang [of t] s(7) by (simp_all add: draft_allowed_def old_clear_step)
    then show ?thesis
      using c t(1) al off rs p(2) s(1) assms(8)
      by (auto simp: b3_write_one_def old_write_def Let_def simp del: of_nat_mult of_int_of_nat_eq)
  next
    assume c: "m = 2 \<and> c = DRead (int i)"
    let ?t = "s\<lparr>states_list := b3_share (unat ?a) (states_list s)\<rparr>"
    have "old_show (b3_touch outs ?a) (int (i * 2 ^ k)) ?t = Inl NotEnabled"
      using hang [of ?t] s(2-5,7) by (simp add: old_show_def)
    moreover have "\<not> length (states_list s) \<le> unat ?a" using s(8) p(1) assms(3,9) by simp
    ultimately show ?thesis
      using c al off rs p(2) s(1) by (simp add: b3_read_two_def Let_def del: of_nat_mult of_int_of_nat_eq)
  qed
qed

theorem b3_first_access_hangs_witness:
  "bind_res (draft_start 2 9 (2 ^ 3) 2 (2 ^ 20) []) (b3_menu 2 (\<lambda>_. served) (DRead (int 1))) = Inl NotEnabled"
  by (rule b3_first_access_hangs [where i = 1])
    (simp_all add: all_served_def handler_checks_def served_def)

lemma firsts_frame [simp]:
  "firsts k n (s\<lparr>states_list := l\<rparr>) = firsts k n s" "firsts k n (s\<lparr>bus_signal := b\<rparr>) = firsts k n s"
  "firsts k n (s\<lparr>d_lines := ls\<rparr>) = firsts k n s"
  by (intro ext; simp add: firsts_def)+

lemma length_b3_share [simp]: "length (b3_share i l) = length l"
  by (simp add: b3_share_def)

lemma length_b3_shares [simp]: "length (fold b3_share is l) = length l"
  by (induction "is" arbitrary: l) simp_all

lemma fold_first_reads:
  "fold (\<lambda>i f. f(i \<mapsto> (case f i of None \<Rightarrow> NUL | Some c \<Rightarrow> c))) [0..<n] Map.empty =
    (\<lambda>i. if i < n then Some NUL else None)"
  by (induction n) (auto simp: fun_eq_iff)

text \<open>The read of all pages of machine 2, with \<open>accessvar\<close> -1, brings all of them in.\<close>

lemma b3_read_all:
  assumes q: "quiet k n fd sts s" and f: "firsts k n s = Map.empty" and srv: "all_served outs"
  shows "\<exists>t sts'. b3_menu 2 outs (DRead (-1)) s = Inr t \<and> quiet k n fd sts' t \<and> d_message t = d_message s \<and>
    all_here n t \<and> firsts k n t = (\<lambda>i. if i < n then Some NUL else None)"
proof -
  let ?sts = "fold b3_share [0..<n] sts"
  let ?s = "s\<lparr>states_list := ?sts\<rparr>"
  have q': "quiet k n fd ?sts ?s" using q by (simp add: quiet_def)
  have n: "n \<le> 1024" "unat (d_pages s) = n" "states_list s = sts" "length sts = 1024" "rsize (d_reg s) = 2 ^ k"
    "d_length s = n * 2 ^ k"
    using q by (auto simp: quiet_def few_pages region_ok_def)
  let ?act = "\<lambda>i f. f(i \<mapsto> (case f i of None \<Rightarrow> NUL | Some c \<Rightarrow> c)) :: nat \<Rightarrow> char option"
  have "\<exists>t. each_page (2 ^ k) (old_show (b3_touch outs (-1))) (n * 2 ^ k) (0 * 2 ^ k) ?s = Inr t \<and>
      (quiet k n fd ?sts t \<and> all_served outs) \<and> d_message t = d_message s \<and>
      firsts k n t = fold ?act [0..<n] (firsts k n ?s)"
  proof (rule b3_all.pages_first)
    fix t i assume t: "quiet k n fd ?sts t \<and> all_served outs" "d_message t = d_message s" "i < n"
    show "\<exists>u. old_show (b3_touch outs (-1)) (int (i * 2 ^ k)) t = Inr u \<and>
        (quiet k n fd ?sts u \<and> all_served outs) \<and> d_message u = d_message s \<and>
        firsts k n u = ?act i (firsts k n t)"
      using b3_all.show_first [OF t(1,3)] t(2) by auto
  qed (use q' srv in simp_all)
  then obtain t where t: "each_page (2 ^ k) (old_show (b3_touch outs (-1))) (n * 2 ^ k) 0 ?s = Inr t"
    "quiet k n fd ?sts t" "d_message t = d_message s" "firsts k n t = (\<lambda>i. if i < n then Some NUL else None)"
    using f fold_first_reads [of n] by auto
  have "all_here n t" unfolding all_here_def
  proof (intro allI impI)
    fix i assume "i < n"
    then have "firsts k n t i \<noteq> None" by (simp add: t(4))
    then show "resident (d_reg t) i" by (simp add: firsts_def split: if_splits)
  qed
  moreover have "b3_menu 2 outs (DRead (-1)) s = Inr t"
    using t(1) n by (simp add: b3_read_two_def draft_allowed_def)
  ultimately show ?thesis using t by blast
qed

lemma b3_writes:
  assumes "quiet k n fd sts s" and "all_served outs" and "all_here n s" and "length (d_message s) \<le> 2 ^ k"
    and "list_all (\<lambda>(m, line). text_ok (2 ^ k) line) ws"
  shows "\<exists>t. run_events (\<lambda>(m, line). old_write (b3_touch outs) m line) ws s = Inr t \<and>
    (quiet k n fd sts t \<and> all_served outs \<and> all_here n t) \<and>
    (d_message t, firsts k n t) = fold (first_write n) ws (d_message s, firsts k n s)"
  using assms
proof (induction ws arbitrary: s)
  case (Cons w ws)
  obtain m line where w: "w = (m, line)" by (cases w)
  have line: "text_ok (2 ^ k) line" using Cons.prems(5) by (simp add: w)
  have i: "quiet k n fd sts s \<and> all_served outs \<and> all_here n s" using Cons.prems(1-3) by simp
  obtain t where t: "old_write (b3_touch outs) m line s = Inr t"
    "quiet k n fd sts t \<and> all_served outs \<and> all_here n t" "length (d_message t) \<le> 2 ^ k"
    "(d_message t, firsts k n t) = first_write n w (d_message s, firsts k n s)"
    using b3_any.write_first [where tchs = "b3_touch outs" and m = m, OF i Cons.prems(4) line refl] w
    by (auto simp del: first_write.simps)
  then show ?case
    using Cons.IH [of t] Cons.prems(5) by (simp add: w t(4) [symmetric] del: first_write.simps)
qed simp

text \<open>A setting for one machine: pages of at least 8 bytes, at most 1024 of them and 2 GiB in all.\<close>

definition old_setting :: "nat \<Rightarrow> nat \<Rightarrow> 64 word \<Rightarrow> string \<Rightarrow> bool" where
  "old_setting k n base msg \<longleftrightarrow> 3 \<le> k \<and> k < 31 \<and> n \<le> 1024 \<and> n * 2 ^ k < 2 ^ 31 \<and>
     unat base + n * 2 ^ k < 2 ^ 64 \<and> 2 ^ k dvd unat base \<and> length msg \<le> 2 ^ k"

text \<open>
  Once machine 2 of \<open>backup3.c\<close> has read all pages, it does not hang any more: after any writes, a
  read of a page shows the first character of what was last written to it, or NUL.
\<close>

theorem b3_reads_last_message:
  assumes "old_setting k n base msg" and "all_served outs" and "list_all (\<lambda>(m, line). text_ok (2 ^ k) line) ws"
    and "i < n"
  shows "\<exists>t u. bind_res (bind_res (draft_start 2 fd (2 ^ k) n base msg) (b3_menu 2 outs (DRead (-1))))
      (run_events (\<lambda>(m, line). b3_menu 2 outs (DWrite m line)) ws) = Inr t \<and>
    b3_menu 2 outs (DRead (int i)) t = Inr u \<and>
    d_lines u = d_lines t @ [ReadChar (the (snd (fold (first_write n) ws
      (msg, \<lambda>j. if j < n then Some NUL else None)) i))]"
proof -
  note st = assms(1) [unfolded old_setting_def]
  obtain s where s: "draft_start 2 fd (2 ^ k) n base msg = Inr s" "d_message s = msg"
    "quiet k n fd (replicate n invalid @ replicate (1024 - n) no_state) s" "firsts k n s = Map.empty"
    using start_quiet [of k n base fd msg] st by blast
  obtain r sts where r: "b3_menu 2 outs (DRead (-1)) s = Inr r" "quiet k n fd sts r" "d_message r = msg"
    "all_here n r" "firsts k n r = (\<lambda>i. if i < n then Some NUL else None)"
    using b3_read_all [OF s(3,4) assms(2)] s(2) by auto
  let ?P = "\<lambda>t. quiet k n fd sts t \<and> all_served outs \<and> all_here n t"
  have same: "(\<lambda>(m, line). b3_menu 2 outs (DWrite m line)) = (\<lambda>(m, line). old_write (b3_touch outs) m line)"
    by (intro ext) auto
  have "\<exists>t. run_events (\<lambda>(m, line). old_write (b3_touch outs) m line) ws r = Inr t \<and> ?P t \<and>
      (d_message t, firsts k n t) = fold (first_write n) ws (msg, firsts k n r)"
    using b3_writes [of k n fd sts r outs ws] r assms(2,3) st by simp
  then obtain t where t: "run_events (\<lambda>(m, line). old_write (b3_touch outs) m line) ws r = Inr t" "?P t"
    "firsts k n t = snd (fold (first_write n) ws (msg, firsts k n r))"
    by (metis snd_conv)
  let ?t = "t\<lparr>states_list := b3_share i (states_list t)\<rparr>" and ?a = "word_of_int (int i) :: 64 word"
  have P: "quiet k n fd (b3_share i sts) ?t \<and> all_served outs \<and> all_here n ?t"
    using t(2) by (auto simp: quiet_def all_here_def)
  obtain u where u: "old_show (b3_touch outs ?a) (int (i * 2 ^ k)) ?t = Inr u"
    "d_lines u = d_lines t @ [ReadChar (case firsts k n ?t i of None \<Rightarrow> NUL | Some c \<Rightarrow> c)]"
    using b3_any.show_first [OF P assms(4), of ?a] by auto
  have c: "(case firsts k n ?t i of None \<Rightarrow> NUL | Some c \<Rightarrow> c) = the (firsts k n t i)"
    using t(2) assms(4) by (simp add: firsts_def all_here_def)
  have n: "n \<le> 1024" "k < 31" "n * 2 ^ k < 2 ^ 31" using st by auto
  have sz: "d_pages t = word_of_nat n" "rsize (d_reg t) = 2 ^ k" "length (states_list t) = 1024"
    using t(2) by (auto simp: quiet_def region_ok_def)
  note p = page_number [OF assms(4) n(1)] offset_of_page [OF assms(4) n]
  have "draft_allowed ?a t" "\<not> length (states_list t) \<le> unat ?a"
    using p(1) sz n(1) assms(4) by (simp_all only: draft_allowed_def word_less_nat_alt few_pages) simp
  then have "b3_menu 2 outs (DRead (int i)) t = Inr u"
    using p sz u(1) by (simp add: b3_read_two_def Let_def del: of_nat_mult of_int_of_nat_eq)
  then show ?thesis
    using s(1) r(1) t(1,3) u(2) c r(5) same by (simp del: b3_menu.simps)
qed

theorem b3_reads_last_message_witness:
  "\<exists>t u. bind_res (bind_res (draft_start 2 9 (2 ^ 3) 2 (2 ^ 20) []) (b3_menu 2 (\<lambda>_. served) (DRead (-1))))
      (run_events (\<lambda>(m, line). b3_menu 2 (\<lambda>_. served) (DWrite m line)) [(1, ''abc''), (-1, ''xy''), (7, ''z'')]) = Inr t \<and>
    b3_menu 2 (\<lambda>_. served) (DRead (int 1)) t = Inr u \<and>
    d_lines u = d_lines t @ [ReadChar (the (snd (fold (first_write 2) [(1, ''abc''), (-1, ''xy''), (7, ''z'')]
      ([], \<lambda>j. if j < 2 then Some NUL else None)) 1))]"
  by (rule b3_reads_last_message)
    (simp_all add: old_setting_def all_served_def handler_checks_def served_def text_ok_def)

section \<open>Machine 2 in backup4\<close>

lemma b4_read_page:
  assumes q: "quiet k n fd (replicate n invalid @ replicate (1024 - n) no_state) t" and k: "k < 31" and i: "i < n"
    and srv: "draft_served outs fd"
  shows "case firsts k n t i of
      None \<Rightarrow> b4_menu outs (DRead (int i)) t = Inl NotEnabled
    | Some c \<Rightarrow> \<exists>u. b4_menu outs (DRead (int i)) t = Inr u \<and> d_lines u = d_lines t @ [InvalidPage, ReadChar c]"
proof -
  let ?a = "word_of_int (int i) :: 64 word"
  let ?s = "d_print InvalidPage (t\<lparr>bus_signal := (bus_signal t)\<lparr>cur_var := to_int32 (int i), BusRd := 1\<rparr>\<rparr>)"
  have n: "n \<le> 1024" "n * 2 ^ k < 2 ^ 31" using q by (auto simp: quiet_def)
  note p = page_number [OF i n(1)] and off = offset_of_page [OF i n(1) k n(2)] and sz = quiet_sizes [OF q]
  have al: "draft_allowed ?a t"
    using p(1) sz n(1) i by (simp only: draft_allowed_def word_less_nat_alt few_pages simp_thms)
  have "state_of ?a t = Inr invalid"
    using q p(1) i n(1) by (simp only: state_of_def quiet_def) (simp add: nth_append)
  then have menu: "b4_menu outs (DRead (int i)) t = show_at outs (int (i * 2 ^ k)) ?s"
    using al off sz by (simp add: draft_menu_def draft_read_def Let_def del: of_nat_mult of_int_of_nat_eq)
  have l: "i * 2 ^ k < n * 2 ^ k" "i * 2 ^ k div 2 ^ k = i" using i by simp_all
  show ?thesis
  proof (cases "resident (d_reg t) i")
    case True
    then have "draft_touch outs (int (i * 2 ^ k)) ?s = Inr ?s"
      using l sz by (simp add: draft_touch_def d_print_def del: of_nat_mult)
    then show ?thesis
      using True i menu by (simp add: firsts_def show_at_def del: of_nat_mult) (simp add: d_print_def del: of_nat_mult)
  next
    case False
    have "draft_touch outs (int (i * 2 ^ k)) ?s = Inl NotEnabled"
      using False l sz q srv by (simp add: draft_touch_def draft_fault_def update_bus_def d_print_def quiet_def draft_served_def del: of_nat_mult)
    then show ?thesis using False menu by (simp add: firsts_def show_at_def)
  qed
qed

text \<open>
  In \<open>backup4.c\<close>, unlike \<open>part4.c\<close>, machine 2 keeps what it writes: after any writes, a read of a page
  that some message was written to shows the first character of the last one, though the page
  still counts as Invalid; the read of any other page waits for a signal from machine 1.
\<close>

theorem b4_reads_own_writes:
  assumes "old_setting k n base msg" and "draft_served outs fd"
    and "list_all (\<lambda>(m, line). text_ok (2 ^ k) line) ws" and "i < n"
  shows "\<exists>t. bind_res (draft_start 2 fd (2 ^ k) n base msg)
      (run_events (\<lambda>(m, line). b4_menu outs (DWrite m line)) ws) = Inr t \<and>
    (case snd (fold (first_write n) ws (msg, Map.empty)) i of
      None \<Rightarrow> b4_menu outs (DRead (int i)) t = Inl NotEnabled
    | Some c \<Rightarrow> \<exists>u. b4_menu outs (DRead (int i)) t = Inr u \<and> d_lines u = d_lines t @ [InvalidPage, ReadChar c])"
proof -
  note st = assms(1) [unfolded old_setting_def]
  let ?sts = "replicate n invalid @ replicate (1024 - n) no_state"
  obtain s where s: "draft_start 2 fd (2 ^ k) n base msg = Inr s" "d_message s = msg" "quiet k n fd ?sts s"
    "firsts k n s = Map.empty"
    using start_quiet [of k n base fd msg] st by blast
  have i: "quiet k n fd ?sts s \<and> draft_served outs fd" using s(3) assms(2) by simp
  have "length (d_message s) \<le> 2 ^ k" using s(2) st by simp
  from b4.writes_first [OF i this assms(3), where tchs = "\<lambda>a. draft_touch outs"]
  obtain t where t: "run_events (\<lambda>(m, line). old_write (\<lambda>a. draft_touch outs) m line) ws s = Inr t"
    "quiet k n fd ?sts t" "firsts k n t = snd (fold (first_write n) ws (msg, Map.empty))"
    using s(2,4) by (metis snd_conv)
  have same: "(\<lambda>(m, line). b4_menu outs (DWrite m line)) = (\<lambda>(m, line). old_write (\<lambda>a. draft_touch outs) m line)"
    by (intro ext) auto
  have "k < 31" using st by simp
  from b4_read_page [OF t(2) this assms(4,2)] show ?thesis
    using s(1) t(1,3) same by (simp del: b4_menu.simps)
qed

theorem b4_reads_own_writes_witness:
  "\<exists>t. bind_res (draft_start 2 9 (2 ^ 3) 2 (2 ^ 20) [])
      (run_events (\<lambda>(m, line). b4_menu (\<lambda>c fd. served) (DWrite m line)) [(1, ''abc''), (1, ''xy'')]) = Inr t \<and>
    (case snd (fold (first_write 2) [(1, ''abc''), (1, ''xy'')] ([], Map.empty)) 1 of
      None \<Rightarrow> b4_menu (\<lambda>c fd. served) (DRead (int 1)) t = Inl NotEnabled
    | Some c \<Rightarrow> \<exists>u. b4_menu (\<lambda>c fd. served) (DRead (int 1)) t = Inr u \<and>
        d_lines u = d_lines t @ [InvalidPage, ReadChar c])"
  by (rule b4_reads_own_writes)
    (simp_all add: old_setting_def draft_served_def all_served_def handler_checks_def served_def text_ok_def)

end
