(* ===== verification/Msg_Pages.thy ===== *)
theory Msg_Pages
  imports Shm_Correct
begin

text \<open>
  What the message versions of the page-sharing program have in common
  (\<open>Project_3/part4/backup2.c\<close> and \<open>backup.c\<close>): a process with its pages filled on demand, the
  buffers of the message typed and of the message received, and the bytes on the connection;
  the accesses to a page, and what they do to an array of bytes.
\<close>

section \<open>A process\<close>

datatype node_line =
    Opened "64 word"
  | AllPages
  | Arrived string
  | ReadString string
  | NoRead
  | NoWrite

text \<open>
  On machine 1 the fields are those of \<open>data\<close>, on machine 2 those of \<open>recv_data\<close>, whose address is
  the one machine 1 has sent and need not be the base of the mapping. \<open>n_in\<close> holds the bytes
  the other machine has sent and this one has not read, \<open>n_out\<close> those just sent, \<open>n_room\<close> is how many
  more bytes the buffers of the connection take from this machine, and \<open>n_eof\<close> says that the other
  process has ended.
\<close>

record node =
  n_reg :: region
  n_addr :: "64 word"
  n_pages :: "64 word"
  n_length :: nat
  n_flag :: int
  n_message :: "char list"
  n_recv :: "char list"
  n_in :: "char list"
  n_out :: "char list"
  n_room :: nat
  n_eof :: bool
  n_lines :: "node_line list"

definition n_print :: "node_line \<Rightarrow> node \<Rightarrow> node" where
  "n_print l s = s\<lparr>n_lines := n_lines s @ [l]\<rparr>"

section \<open>Access to the pages\<close>

definition n_offset :: "node \<Rightarrow> int \<Rightarrow> nat" where
  "n_offset s l = unat (n_addr s + word_of_int l - rbase (n_reg s))"

text \<open>\<open>printf("%s", &data.addr[l])\<close>.\<close>

definition n_show :: "(nat \<Rightarrow> pf_outcome) \<Rightarrow> int \<Rightarrow> node \<Rightarrow> node res" where
  "n_show outs l s =
     bind_res (read_cstr (zero_page (rsize (n_reg s))) outs (n_offset s l) (n_reg s)) (\<lambda>(str, r).
       Inr (n_print (ReadString str) (s\<lparr>n_reg := r\<rparr>)))"

definition n_store :: "(nat \<Rightarrow> pf_outcome) \<Rightarrow> char list \<Rightarrow> int \<Rightarrow> node \<Rightarrow> node res" where
  "n_store outs bs l s =
     bind_res (write_bytes outs (n_offset s l) bs (n_reg s)) (\<lambda>r. Inr (s\<lparr>n_reg := r\<rparr>))"

text \<open>\<open>memset(data.addr+l, 0, sizeof(page_size))\<close>: the size of the variable, 8 bytes.\<close>

definition n_clear :: "(nat \<Rightarrow> pf_outcome) \<Rightarrow> int \<Rightarrow> node \<Rightarrow> node res" where
  "n_clear outs = n_store outs (replicate 8 NUL)"

text \<open>\<open>memcpy(data.addr+l, message, strlen(message))\<close>, and the same with \<open>recv_message\<close>.\<close>

definition n_copy :: "(nat \<Rightarrow> pf_outcome) \<Rightarrow> int \<Rightarrow> node \<Rightarrow> node res" where
  "n_copy outs l s = bind_res (cstr (n_message s)) (\<lambda>msg. n_store outs msg l s)"

definition n_copy_recv :: "(nat \<Rightarrow> pf_outcome) \<Rightarrow> int \<Rightarrow> node \<Rightarrow> node res" where
  "n_copy_recv outs l s = bind_res (cstr (n_recv s)) (\<lambda>msg. n_store outs msg l s)"

text \<open>
  \<open>scanf("%[^\n]s", message)\<close> into a buffer of one page: an empty line leaves it as it was, and
  the bytes behind the end of a line are kept.
\<close>

definition scan_line :: "string \<Rightarrow> node \<Rightarrow> node res" where
  "scan_line line s =
     (if line = [] then Inr s
      else if rsize (n_reg s) \<le> length line then Inl OutOfBounds
      else Inr (s\<lparr>n_message := overlay (n_message s) 0 (line @ [NUL])\<rparr>))"

text \<open>
  \<open>write(new_socket, message, sizeof(char)*page_size)\<close>: it waits until the buffers of the connection
  have room; to a process that has ended, it is lost or ends this process (SIGPIPE).
\<close>

definition n_send :: "node \<Rightarrow> node res" where
  "n_send s =
     (if n_eof s then Inl Indeterminate
      else if n_room s < length (n_message s) then Inl NotEnabled
      else Inr (s\<lparr>n_out := n_out s @ n_message s, n_room := n_room s - length (n_message s)\<rparr>))"

text \<open>
  The connection after a command that took one machine from \<open>a\<close> to \<open>a'\<close>: what it sent is there for
  the other machine \<open>b\<close>, and what it received has made room.
\<close>

definition hand_over :: "node \<Rightarrow> node \<Rightarrow> node \<Rightarrow> node \<times> node" where
  "hand_over a a' b =
     (a'\<lparr>n_out := []\<rparr>,
      b\<lparr>n_in := n_in b @ n_out a', n_room := n_room b + (length (n_in a) - length (n_in a'))\<rparr>)"

definition n_allowed :: "64 word \<Rightarrow> node \<Rightarrow> bool" where
  "n_allowed a s \<longleftrightarrow> a < n_pages s \<or> a = -1"

definition fresh_node :: "nat \<Rightarrow> nat \<Rightarrow> nat \<Rightarrow> 64 word \<Rightarrow> 64 word \<Rightarrow> char list \<Rightarrow> char list \<Rightarrow> node" where
  "fresh_node room ps n addr base msg recv = \<lparr>n_reg = fresh_region ps n base, n_addr = addr,
     n_pages = word_of_nat n, n_length = n * ps, n_flag = 0, n_message = msg, n_recv = recv,
     n_in = [], n_out = [], n_room = room, n_eof = False, n_lines = []\<rparr>"

text \<open>
  \<open>base\<close> and \<open>base2\<close> are where the two machines map; the buffers are as \<open>malloc\<close> gives them, and those
  of either connection take \<open>room\<close> bytes.
\<close>

definition share_start :: "nat \<Rightarrow> nat \<Rightarrow> nat \<Rightarrow> 64 word \<Rightarrow> 64 word \<Rightarrow> (nat \<Rightarrow> char list) \<Rightarrow> (nat \<Rightarrow> char list) \<Rightarrow> node \<times> node" where
  "share_start room ps n base base2 msgs recvs =
     (fresh_node room ps n base base (msgs 1) (recvs 1), fresh_node room ps n base base2 (msgs 2) (recvs 2))"

section \<open>The abstract process\<close>

text \<open>
  An array of bytes, the last message typed, and messages instead of bytes on the connection;
  \<open>b_room\<close> counts the messages it still takes.
\<close>

record board =
  b_bytes :: "char list"
  b_text :: string
  b_in :: "string list"
  b_out :: "string list"
  b_room :: nat
  b_lines :: "node_line list"

definition b_print :: "node_line \<Rightarrow> board \<Rightarrow> board" where
  "b_print l f = f\<lparr>b_lines := b_lines f @ [l]\<rparr>"

definition b_show :: "nat \<Rightarrow> nat \<Rightarrow> board \<Rightarrow> board" where
  "b_show ps i f = b_print (ReadString (page_str ps (b_bytes f) i)) f"

definition b_store :: "nat \<Rightarrow> char list \<Rightarrow> nat \<Rightarrow> board \<Rightarrow> board" where
  "b_store ps bs i f = f\<lparr>b_bytes := overlay (b_bytes f) (i * ps) bs\<rparr>"

definition b_clear :: "nat \<Rightarrow> nat \<Rightarrow> board \<Rightarrow> board" where
  "b_clear ps = b_store ps (replicate 8 NUL)"

definition b_scan :: "string \<Rightarrow> board \<Rightarrow> board" where
  "b_scan line f = (if line = [] then f else f\<lparr>b_text := line\<rparr>)"

definition b_send :: "board \<Rightarrow> board res" where
  "b_send f =
     (if b_room f = 0 then Inl NotEnabled
      else Inr (f\<lparr>b_out := b_out f @ [b_text f], b_room := b_room f - 1\<rparr>))"

definition b_hand_over :: "board \<Rightarrow> board \<Rightarrow> board \<Rightarrow> board \<times> board" where
  "b_hand_over f f' g =
     (f'\<lparr>b_out := []\<rparr>, g\<lparr>b_in := b_in g @ b_out f', b_room := b_room g + (length (b_in f) - length (b_in f'))\<rparr>)"

definition fresh_board :: "nat \<Rightarrow> nat \<Rightarrow> nat \<Rightarrow> string \<Rightarrow> board" where
  "fresh_board room ps n msg =
     \<lparr>b_bytes = replicate (n * ps) NUL, b_text = msg, b_in = [], b_out = [], b_room = room div ps, b_lines = []\<rparr>"

section \<open>The relation between them\<close>

abbreviation str_of :: "char list \<Rightarrow> string" where
  "str_of buf \<equiv> takeWhile (\<lambda>c. c \<noteq> NUL) buf"

definition buffer_ok :: "nat \<Rightarrow> char list \<Rightarrow> bool" where
  "buffer_ok ps buf \<longleftrightarrow> length buf = ps \<and> NUL \<in> set buf"

definition packets :: "nat \<Rightarrow> char list \<Rightarrow> string list \<Rightarrow> bool" where
  "packets ps bs ms \<longleftrightarrow>
     (\<exists>bufs. bs = concat bufs \<and> ms = map str_of bufs \<and> list_all (buffer_ok ps) bufs)"

definition node_rel :: "nat \<Rightarrow> nat \<Rightarrow> node \<Rightarrow> board \<Rightarrow> bool" where
  "node_rel k n s f \<longleftrightarrow> region_ok k n (n_reg s) \<and> n_addr s = rbase (n_reg s) \<and>
     n_pages s = word_of_nat n \<and> n_length s = n * 2 ^ k \<and> n * 2 ^ k < 2 ^ 31 \<and> 3 \<le> k \<and>
     buffer_ok (2 ^ k) (n_message s) \<and> length (n_recv s) = 2 ^ k \<and>
     ends_NUL (2 ^ k) n (flat (n_reg s)) \<and> b_bytes f = flat (n_reg s) \<and>
     b_text f = str_of (n_message s) \<and> packets (2 ^ k) (n_in s) (b_in f) \<and>
     packets (2 ^ k) (n_out s) (b_out f) \<and> b_room f = n_room s div 2 ^ k \<and> \<not> n_eof s \<and> b_lines f = n_lines s"

lemma cstr_buffer: "buffer_ok ps buf \<Longrightarrow> cstr buf = Inr (str_of buf)"
  by (simp add: buffer_ok_def cstr_def)

lemma text_ok_buffer: "buffer_ok ps buf \<Longrightarrow> text_ok ps (str_of buf)"
proof -
  assume b: "buffer_ok ps buf"
  then obtain i where "i < length buf" "buf ! i = NUL" by (auto simp: buffer_ok_def in_set_conv_nth)
  then have "length (str_of buf) \<le> i" by (intro length_takeWhile_less_nth) auto
  then show ?thesis using b \<open>i < length buf\<close> by (auto simp: text_ok_def buffer_ok_def dest: set_takeWhileD)
qed

lemma packets_Nil [simp]: "packets ps [] []"
  by (auto simp: packets_def intro: exI [of _ "[]"])

lemma packets_append: "packets ps xs ms \<Longrightarrow> packets ps ys ms' \<Longrightarrow> packets ps (xs @ ys) (ms @ ms')"
  unfolding packets_def by (metis concat_append list_all_append map_append)

lemma packets_one: "buffer_ok ps buf \<Longrightarrow> packets ps buf [str_of buf]"
  unfolding packets_def by (intro exI [of _ "[buf]"]) simp

text \<open>An empty stream is an empty queue; a full read takes the first message and leaves the rest.\<close>

lemma packets_cases:
  assumes "packets ps bs ms" and "0 < ps"
  obtains "bs = []" "ms = []"
  | m ms' where "buffer_ok ps (take ps bs)" "m = str_of (take ps bs)" "ms = m # ms'"
      "packets ps (drop ps bs) ms'" "ps \<le> length bs" "bs \<noteq> []"
proof -
  obtain bufs where b: "bs = concat bufs" "ms = map str_of bufs" "list_all (buffer_ok ps) bufs"
    using assms(1) by (auto simp: packets_def)
  show thesis
  proof (cases bufs)
    case Nil
    then show thesis using that(1) b by simp
  next
    case (Cons buf rest)
    then have len: "length buf = ps" "buffer_ok ps buf" "buf \<noteq> []"
      using b assms(2) by (auto simp: buffer_ok_def)
    moreover have "packets ps (concat rest) (map str_of rest)"
      using b Cons by (auto simp: packets_def)
    ultimately show thesis using that(2) b Cons by simp
  qed
qed

section \<open>The accesses keep the relation\<close>

lemma node_rel_sizes: "node_rel k n s f \<Longrightarrow> rsize (n_reg s) = 2 ^ k \<and> n_length s = n * 2 ^ k \<and>
    n * 2 ^ k < 2 ^ 31 \<and> k < 64 \<and> (8 :: nat) \<le> 2 ^ k"
  using power_increasing [of 3 k "2 :: nat"] by (simp add: node_rel_def region_ok_def)

lemma n_offset_ok: "node_rel k n s f \<Longrightarrow> i < n \<Longrightarrow> n_offset s (int (i * 2 ^ k)) = i * 2 ^ k"
proof -
  assume r: "node_rel k n s f" and i: "i < n"
  have "n_offset s (int l) = l" if "l < 2 ^ 31" for l
    using r that by (simp add: n_offset_def node_rel_def unat_of_nat)
  moreover have "i * 2 ^ k < 2 ^ 31" using page_below [OF i, of k] node_rel_sizes [OF r] by linarith
  ultimately show ?thesis by blast
qed

lemma node_rel_print: "node_rel k n s f \<Longrightarrow> node_rel k n (n_print l s) (b_print l f)"
  by (simp add: node_rel_def n_print_def b_print_def)

lemma node_rel_send:
  assumes r: "node_rel k n s f"
  shows "rel_sum (=) (node_rel k n) (n_send s) (b_send f)"
proof -
  have len: "length (n_message s) = 2 ^ k" and room: "b_room f = n_room s div 2 ^ k"
    using r by (auto simp: node_rel_def buffer_ok_def)
  show ?thesis
  proof (cases "n_room s < 2 ^ k")
    case True
    then show ?thesis using r len room by (simp add: n_send_def b_send_def node_rel_def)
  next
    case False
    then have "0 < n_room s div 2 ^ k" "(n_room s - 2 ^ k) div 2 ^ k = n_room s div 2 ^ k - 1"
      by (simp_all add: div_greater_zero_iff le_div_geq)
    then show ?thesis
      using r len room False by (simp add: n_send_def b_send_def node_rel_def packets_append packets_one)
  qed
qed

lemma packets_length: "packets ps bs ms \<Longrightarrow> length bs = ps * length ms"
proof -
  have "length (concat bufs) = ps * length bufs" if "list_all (buffer_ok ps) bufs" for bufs
    using that by (induction bufs) (auto simp: buffer_ok_def)
  then show "packets ps bs ms \<Longrightarrow> length bs = ps * length ms" by (auto simp: packets_def)
qed

lemma node_rel_queue: "node_rel k n s f \<Longrightarrow> length (n_in s) = 2 ^ k * length (b_in f)"
  using packets_length by (auto simp: node_rel_def)

lemma hand_over_rel:
  assumes "node_rel k n s f" and "node_rel k n s' f'" and "node_rel k n t g"
  shows "rel_prod (node_rel k n) (node_rel k n) (hand_over s s' t) (b_hand_over f f' g)"
proof -
  have "(n_room t + (2 ^ k * length (b_in f) - 2 ^ k * length (b_in f'))) div 2 ^ k =
      n_room t div 2 ^ k + (length (b_in f) - length (b_in f'))"
    by (simp flip: diff_mult_distrib2)
  then show ?thesis
    using assms node_rel_queue [OF assms(1)] node_rel_queue [OF assms(2)]
    by (simp add: hand_over_def b_hand_over_def node_rel_def packets_append)
qed

lemma n_show_rel:
  assumes r: "node_rel k n s f" and srv: "all_served outs" and i: "i < n"
  shows "rel_sum (=) (node_rel k n) (n_show outs (int (i * 2 ^ k)) s) (Inr (b_show (2 ^ k) i f))"
proof -
  have ok: "region_ok k n (n_reg s)" and nul: "flat (n_reg s) ! (i * 2 ^ k + (2 ^ k - 1)) = NUL"
    and f: "b_bytes f = flat (n_reg s)"
    using r i by (auto simp: node_rel_def ends_NUL_def)
  obtain r' where r': "read_cstr (zero_page (2 ^ k)) outs (i * 2 ^ k) (n_reg s) =
      Inr (page_str (2 ^ k) (flat (n_reg s)) i, r')" "region_ok k n r'" "flat r' = flat (n_reg s)"
    "rbase r' = rbase (n_reg s)"
    using read_cstr_zero [OF ok srv le_add1 page_below [OF i] nul] by (auto simp: page_str_def)
  then have "node_rel k n (s\<lparr>n_reg := r'\<rparr>) f" using r by (simp add: node_rel_def)
  then show ?thesis
    using r' f node_rel_sizes [OF r] n_offset_ok [OF r i] by (simp add: n_show_def b_show_def node_rel_print)
qed

lemma ends_NUL_store:
  assumes "ends_NUL ps n mem" and "length bs \<le> ps" and "length bs = ps \<Longrightarrow> bs ! (ps - 1) = NUL"
    and "i < n" and "0 < ps"
  shows "ends_NUL ps n (overlay mem (i * ps) bs)"
proof -
  have "i * ps + ps \<le> n * ps"
    using mult_le_mono1 [of "Suc i" n ps] assms(4) by (simp add: add.commute)
  then have room: "i * ps + length bs \<le> length mem" using assms(1,2) by (simp add: ends_NUL_def)
  have "overlay mem (i * ps) bs ! (j * ps + (ps - 1)) = NUL" if "j < n" for j
    using overlay_page_byte [of bs ps i n j "ps - 1" mem] assms that
    by (cases "length bs = ps") (auto simp: ends_NUL_def)
  then show ?thesis using assms(1) room by (simp add: ends_NUL_def)
qed

lemma n_store_rel:
  assumes r: "node_rel k n s f" and srv: "all_served outs" and i: "i < n"
    and bs: "length bs \<le> 2 ^ k" "length bs = 2 ^ k \<Longrightarrow> bs ! (2 ^ k - 1) = NUL"
  shows "rel_sum (=) (node_rel k n) (n_store outs bs (int (i * 2 ^ k)) s) (Inr (b_store (2 ^ k) bs i f))"
proof -
  have ok: "region_ok k n (n_reg s)" and e: "ends_NUL (2 ^ k) n (flat (n_reg s))"
    using r by (auto simp: node_rel_def)
  have "i * 2 ^ k + length bs \<le> n * 2 ^ k" using page_span [OF i, of k] bs(1) by simp
  then obtain r' where r': "write_bytes outs (i * 2 ^ k) bs (n_reg s) = Inr r'" "region_ok k n r'"
    "flat r' = overlay (flat (n_reg s)) (i * 2 ^ k) bs" "rbase r' = rbase (n_reg s)"
    using write_bytes_zero [OF ok srv] by blast
  moreover have "ends_NUL (2 ^ k) n (overlay (flat (n_reg s)) (i * 2 ^ k) bs)"
    using ends_NUL_store [OF e bs(1) bs(2) i] by simp
  ultimately show ?thesis
    using r n_offset_ok [OF r i] by (simp add: n_store_def b_store_def node_rel_def)
qed

lemma n_clear_rel:
  assumes "node_rel k n s f" and "all_served outs" and "i < n"
  shows "rel_sum (=) (node_rel k n) (n_clear outs (int (i * 2 ^ k)) s) (Inr (b_clear (2 ^ k) i f))"
proof -
  have "(8 :: nat) \<le> 2 ^ k" using node_rel_sizes [OF assms(1)] by simp
  moreover have "replicate 8 NUL ! (2 ^ k - 1) = NUL" if "(8 :: nat) = 2 ^ k"
    by (simp add: that [symmetric])
  ultimately show ?thesis
    unfolding n_clear_def b_clear_def by (intro n_store_rel [OF assms]) simp_all
qed

lemma n_copy_rel:
  assumes r: "node_rel k n s f" and "all_served outs" and "i < n"
  shows "rel_sum (=) (node_rel k n) (n_copy outs (int (i * 2 ^ k)) s) (Inr (b_store (2 ^ k) (b_text f) i f))"
proof -
  have m: "buffer_ok (2 ^ k) (n_message s)" "b_text f = str_of (n_message s)"
    using r by (auto simp: node_rel_def)
  then have "length (str_of (n_message s)) < 2 ^ k" using text_ok_buffer [OF m(1)] by (simp add: text_ok_def)
  then show ?thesis
    using n_store_rel [OF assms, of "str_of (n_message s)"] m by (simp add: n_copy_def cstr_buffer)
qed

lemma n_copy_recv_rel:
  assumes r: "node_rel k n s f" and "all_served outs" and "i < n" and b: "buffer_ok (2 ^ k) (n_recv s)"
  shows "rel_sum (=) (node_rel k n) (n_copy_recv outs (int (i * 2 ^ k)) s)
    (Inr (b_store (2 ^ k) (str_of (n_recv s)) i f))"
proof -
  have "length (str_of (n_recv s)) < 2 ^ k" using text_ok_buffer [OF b] by (simp add: text_ok_def)
  then show ?thesis
    using n_store_rel [OF assms(1-3), of "str_of (n_recv s)"] b by (simp add: n_copy_recv_def cstr_buffer)
qed

lemma buffer_ok_line:
  assumes "buffer_ok ps buf" and "text_ok ps line"
  shows "buffer_ok ps (overlay buf 0 (line @ [NUL]))" and "str_of (overlay buf 0 (line @ [NUL])) = line"
proof -
  have "overlay buf 0 (line @ [NUL]) = line @ NUL # drop (length line + 1) buf"
    by (simp add: overlay_def)
  moreover have "NUL \<notin> set line" "length line < ps" using assms(2) by (auto simp: text_ok_def)
  ultimately show "buffer_ok ps (overlay buf 0 (line @ [NUL]))" "str_of (overlay buf 0 (line @ [NUL])) = line"
    using assms(1) by (auto simp: buffer_ok_def takeWhile_append takeWhile_eq_all_conv)
qed

lemma scan_line_rel:
  assumes r: "node_rel k n s f" and t: "text_ok (2 ^ k) line"
  shows "rel_sum (=) (node_rel k n) (scan_line line s) (Inr (b_scan line f))"
proof -
  have "buffer_ok (2 ^ k) (n_message s)" using r by (simp add: node_rel_def)
  note b = buffer_ok_line [OF this t]
  have "length line < 2 ^ k" using t by (simp add: text_ok_def)
  then show ?thesis
    using r b node_rel_sizes [OF r] by (auto simp: scan_line_def b_scan_def node_rel_def)
qed

section \<open>All pages\<close>

text \<open>A body that keeps the relation page by page, over all of them.\<close>

lemma each_page_rel:
  assumes "\<And>s f i. node_rel k n s f \<Longrightarrow> i < n \<Longrightarrow> P s f \<Longrightarrow>
      rel_sum (=) (\<lambda>t g. node_rel k n t g \<and> P t g) (body (int (i * 2 ^ k)) s) (Inr (act i f))"
    and "node_rel k n s f" and "P s f" and "j \<le> n"
  shows "rel_sum (=) (\<lambda>t g. node_rel k n t g \<and> P t g)
    (each_page (2 ^ k) body (n * 2 ^ k) (j * 2 ^ k) s) (Inr (fold act [j..<n] f))"
  using assms(2-4)
proof (induction "n - j" arbitrary: j s f)
  case 0
  then have "j = n" by simp
  then show ?case using 0 by (subst each_page.simps) simp
next
  case (Suc m)
  then have j: "j < n" by simp
  obtain t where t: "body (int (j * 2 ^ k)) s = Inr t" "node_rel k n t (act j f)" "P t (act j f)"
    using assms(1) [OF Suc.prems(1) j Suc.prems(2)] by (cases "body (int (j * 2 ^ k)) s") auto
  have m: "m = n - Suc j" using Suc.hyps(2) by simp
  have lt: "j * 2 ^ k < n * (2 ^ k :: nat)" "j * 2 ^ k + 2 ^ k \<le> n * (2 ^ k :: nat)" "n * 2 ^ k < (2 ^ 31 :: nat)"
    using j page_span [OF j, of k] node_rel_sizes [OF Suc.prems(1)] by simp_all
  have "rel_sum (=) (\<lambda>t g. node_rel k n t g \<and> P t g)
      (each_page (2 ^ k) body (n * 2 ^ k) (Suc j * 2 ^ k) t) (Inr (fold act [Suc j..<n] (act j f)))"
    using Suc.hyps(1) [OF m t(2,3)] j by simp
  then show ?case
    using t lt j by (subst each_page.simps) (simp add: upt_conv_Cons add.commute)
qed

lemma each_page_all:
  assumes "\<And>s f i. node_rel k n s f \<Longrightarrow> i < n \<Longrightarrow>
      rel_sum (=) (node_rel k n) (body (int (i * 2 ^ k)) s) (Inr (act i f))"
    and "node_rel k n s f"
  shows "rel_sum (=) (node_rel k n) (each_page (2 ^ k) body (n * 2 ^ k) 0 s) (Inr (fold act [0..<n] f))"
  using each_page_rel [of k n "\<lambda>_ _. True" body act s f 0] assms by simp

lemma each_show_rel:
  "node_rel k n s f \<Longrightarrow> all_served outs \<Longrightarrow> rel_sum (=) (node_rel k n)
    (each_page (2 ^ k) (n_show outs) (n * 2 ^ k) 0 s) (Inr (fold (b_show (2 ^ k)) [0..<n] f))"
  by (rule each_page_all [where act = "b_show (2 ^ k)"]) (auto intro: n_show_rel simp del: of_nat_mult)

lemma each_clear_rel:
  "node_rel k n s f \<Longrightarrow> all_served outs \<Longrightarrow> rel_sum (=) (node_rel k n)
    (each_page (2 ^ k) (n_clear outs) (n * 2 ^ k) 0 s) (Inr (fold (b_clear (2 ^ k)) [0..<n] f))"
  by (rule each_page_all [where act = "b_clear (2 ^ k)"]) (auto intro: n_clear_rel simp del: of_nat_mult)

lemma each_copy_rel:
  "node_rel k n s f \<Longrightarrow> all_served outs \<Longrightarrow> rel_sum (=) (node_rel k n)
    (each_page (2 ^ k) (n_copy outs) (n * 2 ^ k) 0 s)
    (Inr (fold (\<lambda>i f. b_store (2 ^ k) (b_text f) i f) [0..<n] f))"
  by (rule each_page_all [where act = "\<lambda>i f. b_store (2 ^ k) (b_text f) i f"])
    (auto intro: n_copy_rel simp del: of_nat_mult)

lemma n_allowed_ok: "node_rel k n s f \<Longrightarrow> n_allowed a s \<longleftrightarrow> a = -1 \<or> unat a < n"
proof -
  assume r: "node_rel k n s f"
  have "n * 1 \<le> n * 2 ^ k" by (intro mult_le_mono2) simp
  then have "n < 2 ^ 31" using node_rel_sizes [OF r] by linarith
  then have "n < 2 ^ 64" by simp
  then show ?thesis using r by (auto simp: n_allowed_def node_rel_def word_less_nat_alt unat_of_nat)
qed

lemma node_page_offset:
  "node_rel k n s f \<Longrightarrow> unat a < n \<Longrightarrow> page_offset a (2 ^ k) = int (unat a * 2 ^ k)"
  using node_rel_sizes [of k n s f] by (intro page_offset_small) auto

lemma fresh_node_rel:
  assumes "3 \<le> k" and "n * 2 ^ k < 2 ^ 31" and "k < 64" and "unat base + n * 2 ^ k < 2 ^ 64"
    and "2 ^ k dvd unat base" and "buffer_ok (2 ^ k) msg" and "length recv = 2 ^ k"
  shows "node_rel k n (fresh_node room (2 ^ k) n base base msg recv) (fresh_board room (2 ^ k) n (str_of msg))"
proof -
  have "replicate (n * 2 ^ k) NUL ! (i * 2 ^ k + (2 ^ k - 1)) = NUL" if "i < n" for i
    using page_below [OF that, of k] by (intro nth_replicate)
  then show ?thesis
    using assms region_ok_fresh [of k base n]
    by (simp add: node_rel_def fresh_node_def fresh_board_def flat_fresh ends_NUL_def)
      (simp add: fresh_region_def)
qed

section \<open>Strings in a page that is written again\<close>

lemma drop_rewrite:
  assumes "i * ps + ps \<le> length mem" and "length msg \<le> ps" and "8 \<le> ps"
  shows "drop (i * ps) (overlay (overlay mem (i * ps) (replicate 8 NUL)) (i * ps) msg) =
    msg @ drop (length msg) (replicate 8 NUL @ drop 8 (drop (i * ps) mem))"
proof -
  let ?mem = "overlay mem (i * ps) (replicate 8 NUL)"
  have "drop (i * ps) ?mem = replicate 8 NUL @ drop 8 (drop (i * ps) mem)"
    using assms by (subst drop_overlay_same) (simp_all add: add.commute)
  moreover have "drop (i * ps + length msg) ?mem = drop (length msg) (drop (i * ps) ?mem)"
    by (simp add: add.commute)
  moreover have "i * ps + length msg \<le> length ?mem" using assms by simp
  ultimately show ?thesis by (simp only: drop_overlay_same)
qed

lemma str_append: "NUL \<notin> set m \<Longrightarrow> str_of (m @ xs) = m @ str_of xs"
  by (rule takeWhile_append2) auto

lemma str_zeros: "0 < z \<Longrightarrow> str_of (replicate z NUL @ xs) = []"
  by (cases z) simp_all

lemma str_rewrite_gen:
  assumes "NUL \<notin> set msg"
  shows "str_of (msg @ drop (length msg) (replicate z NUL @ drop z page)) =
    msg @ (if length msg < z then [] else str_of (drop (length msg) page))"
proof (cases "length msg < z")
  case True
  then show ?thesis by (simp add: str_append [OF assms] str_zeros)
next
  case False
  then have "drop (length msg) (replicate z NUL @ drop z page) = drop (length msg) page" by simp
  then show ?thesis using False by (simp only: str_append [OF assms] if_False)
qed

lemmas str_rewrite = str_rewrite_gen [where z = 8]

lemma str_append_zeros:
  assumes "NUL \<notin> set m"
  shows "str_of (drop j (m @ replicate l NUL)) = drop j m"
proof -
  have "NUL \<notin> set (drop j m)" using assms by (auto dest: in_set_dropD)
  moreover have "drop j (m @ replicate l NUL) = drop j m @ replicate (l - (j - length m)) NUL" by simp
  moreover have "str_of (replicate z NUL) = []" for z by (cases z) simp_all
  ultimately show ?thesis using str_append [of "drop j m"] by simp
qed

section \<open>Two processes\<close>

text \<open>
  Pages of \<open>2 ^ k\<close> bytes, at least 8, at most 2 GiB in all, both machines mapped at the aligned
  address \<open>base\<close>, every fault served, buffers of one page that hold a NUL.
\<close>

definition share_setting :: "nat \<Rightarrow> nat \<Rightarrow> 64 word \<Rightarrow> (nat \<Rightarrow> nat \<Rightarrow> pf_outcome) \<Rightarrow>
    (nat \<Rightarrow> char list) \<Rightarrow> (nat \<Rightarrow> char list) \<Rightarrow> bool" where
  "share_setting k n base outs msgs recvs \<longleftrightarrow> 3 \<le> k \<and> k < 31 \<and> n * 2 ^ k < 2 ^ 31 \<and>
     unat base + n * 2 ^ k < 2 ^ 64 \<and> 2 ^ k dvd unat base \<and> all_served (outs 1) \<and> all_served (outs 2) \<and>
     buffer_ok (2 ^ k) (msgs 1) \<and> buffer_ok (2 ^ k) (msgs 2) \<and>
     length (recvs 1) = 2 ^ k \<and> length (recvs 2) = 2 ^ k"

lemma share_few: "share_setting k n base outs msgs recvs \<Longrightarrow> n < 2 ^ 31"
proof -
  assume "share_setting k n base outs msgs recvs"
  then have "n * 2 ^ k < 2 ^ 31" by (simp add: share_setting_def)
  moreover have "n * 1 \<le> n * 2 ^ k" by (intro mult_le_mono2) simp
  ultimately show ?thesis by linarith
qed

lemma node_rel_seen: "node_rel k n s f \<Longrightarrow> flat (n_reg s) = b_bytes f \<and> n_lines s = b_lines f"
  by (simp add: node_rel_def)

end
