(* ===== verification/Msg_Share.thy ===== *)
theory Msg_Share
  imports Msg_Pages
begin

text \<open>
  \<open>Project_3/part4/backup2.c\<close>, the page-sharing program before it had page states: a machine that
  writes to one page also sends the message to the other machine, and certain reads of the other
  machine first wait for a message, show it, and then show the machine's own pages.
\<close>

section \<open>Setting up\<close>

definition share_main :: "env \<Rightarrow> unit io" where
  "share_main e =
     bind_io (need e Pthread_create (\<lambda>r. r \<noteq> 0) ''pthread_create'') (\<lambda>_.
     bind_io (need e Pthread_create (\<lambda>r. r \<noteq> 0) ''pthread_create'') (\<lambda>_. ret ()))"

text \<open>
  The server thread: it prepares the memory only where the client thread has already found out
  that this is machine 1, and gives the address it maps.
\<close>

definition share_server :: "int \<Rightarrow> int \<Rightarrow> env \<Rightarrow> int option io" where
  "share_server order pg_count e =
     bind_io (draft_accept e) (\<lambda>new_socket.
       if new_socket \<noteq> 0 \<and> order = 1 then
         bind_io (sys_call e Sleep) (\<lambda>_.
         bind_io (need e (Mmap (pg_count * shm_page_size)) (\<lambda>r. r = -1) ''mmap'') (\<lambda>addr.
         bind_io (sys_call e (Write_addr new_socket addr)) (\<lambda>_.
         bind_io (need e Userfaultfd (\<lambda>r. r = -1) ''userfaultfd'') (\<lambda>uffd.
         bind_io (register_region e uffd) (\<lambda>_.
         bind_io (need e Pthread_create (\<lambda>r. r \<noteq> 0) ''pthread_create'') (\<lambda>_. ret (Some addr)))))))
       else ret None)"

text \<open>The client thread; \<open>decode\<close> reads the record of 40 bytes. Machine 2 uses the address it received.\<close>

definition share_client :: "nat \<Rightarrow> (string \<Rightarrow> int \<times> int) \<Rightarrow> env \<Rightarrow> (int \<times> (int \<times> int) option) io" where
  "share_client n decode e =
     bind_io (need e Socket (\<lambda>r. r = 0) ''socket failed'') (\<lambda>fd.
     bind_io (need e Inet_addr (\<lambda>r. r \<le> 0) ''Invalid Address | Address not supported'') (\<lambda>_.
     bind_io (sys_call e (Connect fd)) (\<lambda>r.
     bind_io (if r < 0 then bind_io (retry_connect n fd e) (\<lambda>_. ret 1) else ret 2) (\<lambda>order.
     bind_io (print_io ''Connection Established'') (\<lambda>_.
       if order = 2 then
         bind_io (recv_call e fd 40) (\<lambda>bytes.
         let (addr, pg_count) = decode bytes in
         bind_io (need e Userfaultfd (\<lambda>r. r = -1) ''userfaultfd'') (\<lambda>uffd.
         bind_io (need e (Mmap (pg_count * shm_page_size)) (\<lambda>r. r = -1) ''mmap'') (\<lambda>recv_addr.
         bind_io (register_region e uffd) (\<lambda>_.
         bind_io (need e Pthread_create (\<lambda>r. r \<noteq> 0) ''pthread_create'') (\<lambda>_.
           ret (order, Some (addr, recv_addr)))))))
       else ret (order, None))))))"

section \<open>The menus\<close>

text \<open>
  The number in a read is what the \<open>read\<close> from the connection returns, if the command makes one;
  it waits while nothing is there. When the other process has ended (\<open>SGone\<close>, after which that machine
  has no more commands) and nothing is left, \<open>read\<close> returns 0 and the buffer is printed as it is.
\<close>

datatype share_command =
    SRead int nat
  | SWrite int string
  | SQuit
  | SGone
  | SOther

definition n_receive :: "nat \<Rightarrow> node \<Rightarrow> node res" where
  "n_receive got s =
     (if n_in s = [] \<and> n_eof s then bind_res (cstr (n_recv s)) (\<lambda>m. Inr (n_print (Arrived m) s))
      else if got = 0 \<or> rsize (n_reg s) < got \<or> length (n_in s) < got then Inl NotEnabled
      else
        let recv = overlay (n_recv s) 0 (take got (n_in s))
        in bind_res (cstr recv) (\<lambda>m.
             Inr (n_print (Arrived m) (s\<lparr>n_recv := recv, n_in := drop got (n_in s)\<rparr>))))"

definition share_show :: "(nat \<Rightarrow> pf_outcome) \<Rightarrow> 64 word \<Rightarrow> node \<Rightarrow> node res" where
  "share_show outs a s =
     (let ps = rsize (n_reg s)
      in if a = -1 then each_page ps (n_show outs) (n_length s) 0 (n_print AllPages s)
         else n_show outs (page_offset a ps) s)"

text \<open>Machine 1 waits for a message when it reads all pages, machine 2 before it looks at the page number.\<close>

definition share_read_one :: "(nat \<Rightarrow> pf_outcome) \<Rightarrow> int \<Rightarrow> nat \<Rightarrow> node \<Rightarrow> node res" where
  "share_read_one outs n got s =
     (let a = word_of_int n
      in if \<not> n_allowed a s then Inr (n_print NoRead s)
         else bind_res
           (if a = -1 then n_receive got (n_print (Opened a) s) else Inr (n_print (Opened a) s))
           (share_show outs a))"

definition share_read_two :: "(nat \<Rightarrow> pf_outcome) \<Rightarrow> int \<Rightarrow> nat \<Rightarrow> node \<Rightarrow> node res" where
  "share_read_two outs n got s =
     (let a = word_of_int n
      in bind_res (n_receive got s) (\<lambda>s.
           if n_allowed a s then share_show outs a (n_print (Opened a) s) else Inr (n_print NoRead s)))"

text \<open>A message for all pages is not sent.\<close>

definition share_store :: "(nat \<Rightarrow> pf_outcome) \<Rightarrow> 64 word \<Rightarrow> node \<Rightarrow> node res" where
  "share_store outs a s =
     (let ps = rsize (n_reg s); l = page_offset a ps
      in if a = -1 then
           bind_res (each_page ps (n_clear outs) (n_length s) 0 s) (\<lambda>s.
             each_page ps (n_copy outs) (n_length s) 0 s)
         else
           bind_res (n_clear outs l s) (\<lambda>s.
           bind_res (n_copy outs l s) n_send))"

definition share_write_one :: "(nat \<Rightarrow> pf_outcome) \<Rightarrow> int \<Rightarrow> string \<Rightarrow> node \<Rightarrow> node res" where
  "share_write_one outs n line s =
     (let a = word_of_int n
      in if n_allowed a s
         then bind_res (scan_line line s) (\<lambda>s. share_store outs a (s\<lparr>n_flag := 1\<rparr>))
         else Inr (n_print NoWrite s))"

definition share_write_two :: "(nat \<Rightarrow> pf_outcome) \<Rightarrow> int \<Rightarrow> string \<Rightarrow> node \<Rightarrow> node res" where
  "share_write_two outs n line s =
     (let a = word_of_int n
      in if n_allowed a s then bind_res (scan_line line s) (share_store outs a)
         else Inr (n_print NoWrite s))"

text \<open>On \<open>q\<close> the buffer of the command is freed and then compared once more.\<close>

fun share_menu :: "nat \<Rightarrow> (nat \<Rightarrow> pf_outcome) \<Rightarrow> share_command \<Rightarrow> node \<Rightarrow> node res" where
  "share_menu m outs (SRead n got) s =
     (if m = 1 then share_read_one outs n got s else share_read_two outs n got s)"
| "share_menu m outs (SWrite n line) s =
     (if m = 1 then share_write_one outs n line s else share_write_two outs n line s)"
| "share_menu m outs SQuit s = Inl UseAfterFree"
| "share_menu m outs SGone s = Inr (s\<lparr>n_eof := True\<rparr>)"
| "share_menu m outs SOther s = Inr s"

section \<open>The two machines\<close>

text \<open>What one machine sends is then on the connection for the other.\<close>

fun share_step :: "(nat \<Rightarrow> nat \<Rightarrow> pf_outcome) \<Rightarrow> nat \<times> share_command \<Rightarrow> node \<times> node \<Rightarrow> (node \<times> node) res" where
  "share_step outs (m, c) (a, b) =
     (if m = 1
      then bind_res (share_menu 1 (outs 1) c a) (\<lambda>a'. Inr (hand_over a a' b))
      else bind_res (share_menu 2 (outs 2) c b) (\<lambda>b'. Inr (prod.swap (hand_over b b' a))))"

text \<open>
  The menus of the two machines run side by side, each with the commands \<open>q m\<close> that its user types: at
  its turn a machine goes on with its next command, and a command that waits, for a message or for
  room on the connection, is still there at the next turn, while the other machine goes on. (What a
  waiting command has stored before it waits is seen by no other.)
\<close>

definition turn_of :: "(nat \<times> 'c \<Rightarrow> 's \<Rightarrow> 's res) \<Rightarrow> nat \<Rightarrow> (nat \<Rightarrow> 'c list) \<times> 's \<Rightarrow> ((nat \<Rightarrow> 'c list) \<times> 's) res" where
  "turn_of step m = (\<lambda>(q, s). case q m of
     [] \<Rightarrow> Inr (q, s)
   | c # cs \<Rightarrow> (case step (m, c) s of
       Inl f \<Rightarrow> if f = NotEnabled then Inr (q, s) else Inl f
     | Inr s' \<Rightarrow> Inr (q(m := cs), s')))"

definition share_turn :: "(nat \<Rightarrow> nat \<Rightarrow> pf_outcome) \<Rightarrow> nat \<Rightarrow> (nat \<Rightarrow> share_command list) \<times> node \<times> node \<Rightarrow>
    ((nat \<Rightarrow> share_command list) \<times> node \<times> node) res" where
  "share_turn outs = turn_of (share_step outs)"

section \<open>Two boards and two queues\<close>

definition b_receive :: "board \<Rightarrow> board res" where
  "b_receive f = (case b_in f of
     [] \<Rightarrow> Inl NotEnabled | m # ms \<Rightarrow> Inr (b_print (Arrived m) (f\<lparr>b_in := ms\<rparr>)))"

definition spec_show :: "nat \<Rightarrow> nat \<Rightarrow> 64 word \<Rightarrow> board \<Rightarrow> board" where
  "spec_show ps n a f =
     (if a = -1 then fold (b_show ps) [0..<n] (b_print AllPages f) else b_show ps (unat a) f)"

definition spec_store_page :: "nat \<Rightarrow> nat \<Rightarrow> 64 word \<Rightarrow> board \<Rightarrow> board" where
  "spec_store_page ps n a f =
     (if a = -1 then fold (\<lambda>i f. b_store ps (b_text f) i f) [0..<n] (fold (b_clear ps) [0..<n] f)
      else (let f = b_clear ps (unat a) f in b_store ps (b_text f) (unat a) f))"

fun share_spec_menu :: "nat \<Rightarrow> nat \<Rightarrow> nat \<Rightarrow> share_command \<Rightarrow> board \<Rightarrow> board res" where
  "share_spec_menu m ps n (SRead j _) f =
     (let a = word_of_int j; there = (a = -1 \<or> unat a < n)
      in if m = 1 then
           if \<not> there then Inr (b_print NoRead f)
           else bind_res (if a = -1 then b_receive (b_print (Opened a) f) else Inr (b_print (Opened a) f))
             (\<lambda>f. Inr (spec_show ps n a f))
         else bind_res (b_receive f) (\<lambda>f.
           Inr (if there then spec_show ps n a (b_print (Opened a) f) else b_print NoRead f)))"
| "share_spec_menu m ps n (SWrite j line) f =
     (let a = word_of_int j; g = spec_store_page ps n a (b_scan line f)
      in if a = -1 then Inr g else if unat a < n then b_send g else Inr (b_print NoWrite f))"
| "share_spec_menu m ps n SQuit f = Inl UseAfterFree"
| "share_spec_menu m ps n SGone f = Inl NotEnabled"
| "share_spec_menu m ps n SOther f = Inr f"

fun share_spec :: "nat \<Rightarrow> nat \<Rightarrow> nat \<times> share_command \<Rightarrow> board \<times> board \<Rightarrow> (board \<times> board) res" where
  "share_spec ps n (m, c) (f, g) =
     (if m = 1
      then bind_res (share_spec_menu 1 ps n c f) (\<lambda>f'. Inr (b_hand_over f f' g))
      else bind_res (share_spec_menu 2 ps n c g) (\<lambda>g'. Inr (prod.swap (b_hand_over g g' f))))"

text \<open>
  Commands whose lines fit in a page and whose reads return a whole page, with both processes
  running.
\<close>

fun share_ok :: "nat \<Rightarrow> share_command \<Rightarrow> bool" where
  "share_ok ps (SRead j got) \<longleftrightarrow> got = ps"
| "share_ok ps (SWrite j line) \<longleftrightarrow> text_ok ps line"
| "share_ok ps SGone \<longleftrightarrow> False"
| "share_ok ps c \<longleftrightarrow> True"

section \<open>Refinement\<close>

lemma n_receive_rel:
  assumes r: "node_rel k n s f"
  shows "rel_sum (=) (node_rel k n) (n_receive (2 ^ k) s) (b_receive f)"
proof -
  have p: "packets (2 ^ k) (n_in s) (b_in f)" and len: "length (n_recv s) = 2 ^ k"
    using r by (auto simp: node_rel_def)
  have "(0 :: nat) < 2 ^ k" by simp
  show ?thesis
  proof (cases rule: packets_cases [OF p \<open>0 < 2 ^ k\<close>])
    case 1
    then show ?thesis using r node_rel_sizes [OF r] by (simp add: n_receive_def b_receive_def node_rel_def)
  next
    case (2 m ms)
    let ?recv = "take (2 ^ k) (n_in s)"
    have "overlay (n_recv s) 0 ?recv = ?recv" using len 2 by (simp add: overlay_def min_def)
    moreover have "cstr ?recv = Inr m" using 2 cstr_buffer by simp
    moreover have "node_rel k n (s\<lparr>n_recv := ?recv, n_in := drop (2 ^ k) (n_in s)\<rparr>) (f\<lparr>b_in := ms\<rparr>)"
      using r 2 by (simp add: node_rel_def min_def)
    ultimately show ?thesis
      using 2 node_rel_sizes [OF r] by (simp add: n_receive_def b_receive_def node_rel_print Let_def)
  qed
qed

lemma share_show_rel:
  assumes "node_rel k n s f" and "all_served outs" and "a = -1 \<or> unat a < n"
  shows "rel_sum (=) (node_rel k n) (share_show outs a s) (Inr (spec_show (2 ^ k) n a f))"
proof (cases "a = -1")
  case True
  then show ?thesis
    using each_show_rel [OF node_rel_print [OF assms(1), of AllPages] assms(2)]
      node_rel_sizes [OF assms(1)] by (simp add: share_show_def spec_show_def n_print_def)
next
  case False
  then show ?thesis
    using n_show_rel [OF assms(1,2), of "unat a"] node_page_offset [OF assms(1), of a]
      node_rel_sizes [OF assms(1)] assms(3) by (simp add: share_show_def spec_show_def)
qed

lemma share_store_rel:
  assumes r: "node_rel k n s f" and srv: "all_served outs" and a: "a = -1 \<or> unat a < n"
  shows "rel_sum (=) (node_rel k n) (share_store outs a s)
    (if a = -1 then Inr (spec_store_page (2 ^ k) n a f) else b_send (spec_store_page (2 ^ k) n a f))"
proof (cases "a = -1")
  case True
  have "rel_sum (=) (node_rel k n)
      (bind_res (each_page (2 ^ k) (n_clear outs) (n * 2 ^ k) 0 s) (\<lambda>s.
        each_page (2 ^ k) (n_copy outs) (n_length s) 0 s))
      (bind_res (Inr (fold (b_clear (2 ^ k)) [0..<n] f)) (\<lambda>f.
        Inr (fold (\<lambda>i f. b_store (2 ^ k) (b_text f) i f) [0..<n] f)))"
    by (rule rel_res_bind [OF each_clear_rel [OF r srv]])
      (use each_copy_rel [OF _ srv] node_rel_sizes in auto)
  then show ?thesis using True node_rel_sizes [OF r] by (simp add: share_store_def spec_store_page_def Let_def)
next
  case False
  then have i: "unat a < n" using a by simp
  have "rel_sum (=) (node_rel k n)
      (bind_res (n_clear outs (int (unat a * 2 ^ k)) s) (\<lambda>s.
        bind_res (n_copy outs (int (unat a * 2 ^ k)) s) n_send))
      (bind_res (Inr (b_clear (2 ^ k) (unat a) f)) (\<lambda>f.
        bind_res (Inr (b_store (2 ^ k) (b_text f) (unat a) f)) b_send))"
    by (intro rel_res_bind [OF n_clear_rel [OF r srv i]] rel_res_bind [OF n_copy_rel [OF _ srv i]])
      (auto intro: node_rel_send)
  then show ?thesis
    using False node_page_offset [OF r i] node_rel_sizes [OF r]
    by (simp add: share_store_def spec_store_page_def Let_def)
qed

lemma share_menu_rel:
  assumes r: "node_rel k n s f" and srv: "all_served outs" and c: "share_ok (2 ^ k) c"
  shows "rel_sum (=) (node_rel k n) (share_menu m outs c s) (share_spec_menu m (2 ^ k) n c f)"
proof (cases c)
  case (SRead j got)
  let ?a = "word_of_int j :: 64 word"
  let ?there = "?a = -1 \<or> unat ?a < n"
  have al: "n_allowed ?a t = ?there" if "node_rel k n t h" for t h using n_allowed_ok [OF that] .
  have opened: "node_rel k n (n_print (Opened ?a) s) (b_print (Opened ?a) f)" by (rule node_rel_print [OF r])
  have one: "rel_sum (=) (node_rel k n) (bind_res
        (if ?a = -1 then n_receive (2 ^ k) (n_print (Opened ?a) s) else Inr (n_print (Opened ?a) s))
        (share_show outs ?a))
      (bind_res (if ?a = -1 then b_receive (b_print (Opened ?a) f) else Inr (b_print (Opened ?a) f))
        (\<lambda>f. Inr (spec_show (2 ^ k) n ?a f)))" if ?there
    by (rule rel_res_bind [where R = "node_rel k n"])
      (use n_receive_rel [OF opened] opened share_show_rel [OF _ srv that] in auto)
  have two: "rel_sum (=) (node_rel k n) (bind_res (n_receive (2 ^ k) s) (\<lambda>s.
        if n_allowed ?a s then share_show outs ?a (n_print (Opened ?a) s) else Inr (n_print NoRead s)))
      (bind_res (b_receive f) (\<lambda>f.
        Inr (if ?there then spec_show (2 ^ k) n ?a (b_print (Opened ?a) f) else b_print NoRead f)))"
  proof (rule rel_res_bind [OF n_receive_rel [OF r]])
    fix t h assume t: "node_rel k n t h"
    show "rel_sum (=) (node_rel k n)
        (if n_allowed ?a t then share_show outs ?a (n_print (Opened ?a) t) else Inr (n_print NoRead t))
        (Inr (if ?there then spec_show (2 ^ k) n ?a (b_print (Opened ?a) h) else b_print NoRead h))"
      using al [OF t] share_show_rel [OF node_rel_print [OF t] srv, of ?a] node_rel_print [OF t] by simp
  qed
  have g: "got = 2 ^ k" using c SRead by simp
  show ?thesis
    using one two node_rel_print [OF r] al [OF r]
    by (cases "m = 1"; cases ?there)
      (simp_all only: SRead g share_menu.simps share_spec_menu.simps share_read_one_def share_read_two_def
        Let_def if_True if_False simp_thms rel_sum_simps)
next
  case (SWrite j line)
  let ?a = "word_of_int j :: 64 word"
  have w: "rel_sum (=) (node_rel k n) (bind_res (scan_line line s) (\<lambda>s. share_store outs ?a (upd s)))
      (if ?a = -1 then Inr (spec_store_page (2 ^ k) n ?a (b_scan line f))
       else b_send (spec_store_page (2 ^ k) n ?a (b_scan line f)))"
    if "?a = -1 \<or> unat ?a < n" and upd: "\<And>t h. node_rel k n t h \<Longrightarrow> node_rel k n (upd t) h" for upd
  proof -
    have "text_ok (2 ^ k) line" using c SWrite by simp
    then have "rel_sum (=) (node_rel k n) (bind_res (scan_line line s) (\<lambda>s. share_store outs ?a (upd s)))
        (bind_res (Inr (b_scan line f)) (\<lambda>f.
          if ?a = -1 then Inr (spec_store_page (2 ^ k) n ?a f) else b_send (spec_store_page (2 ^ k) n ?a f)))"
    proof (rule rel_res_bind [OF scan_line_rel [OF r]])
      fix t h assume "node_rel k n t h"
      from share_store_rel [OF upd [OF this] srv that(1)]
      show "rel_sum (=) (node_rel k n) (share_store outs ?a (upd t))
          (if ?a = -1 then Inr (spec_store_page (2 ^ k) n ?a h) else b_send (spec_store_page (2 ^ k) n ?a h))"
        by simp
    qed
    then show ?thesis by simp
  qed
  have flag: "node_rel k n (t\<lparr>n_flag := 1\<rparr>) h" if "node_rel k n t h" for t h
    using that by (simp add: node_rel_def)
  show ?thesis
    using w [of "\<lambda>s. s\<lparr>n_flag := 1\<rparr>"] w [of "\<lambda>s. s"] flag n_allowed_ok [OF r, of ?a] node_rel_print [OF r]
    by (auto simp: SWrite share_write_one_def share_write_two_def Let_def)
qed (use r c in simp_all)

definition pair_rel :: "nat \<Rightarrow> nat \<Rightarrow> (nat \<Rightarrow> nat \<Rightarrow> pf_outcome) \<Rightarrow> node \<times> node \<Rightarrow> board \<times> board \<Rightarrow> bool" where
  "pair_rel k n outs = (\<lambda>(a, b) (f, g). node_rel k n a f \<and> node_rel k n b g \<and>
     all_served (outs 1) \<and> all_served (outs 2))"

interpretation share: step_simulates "share_step outs" "share_spec (2 ^ k) n" "pair_rel k n outs"
  "\<lambda>mc. share_ok (2 ^ k) (snd mc)" for outs k n
proof unfold_locales
  fix ab fg and mc :: "nat \<times> share_command"
  assume rel: "pair_rel k n outs ab fg" and ok: "share_ok (2 ^ k) (snd mc)"
  obtain a b f g m c where e: "ab = (a, b)" "fg = (f, g)" "mc = (m, c)" by (cases ab; cases fg; cases mc)
  have r: "node_rel k n a f" "node_rel k n b g" "all_served (outs 1)" "all_served (outs 2)" "share_ok (2 ^ k) c"
    using rel ok by (auto simp: pair_rel_def e)
  show "rel_sum (=) (pair_rel k n outs) (share_step outs mc ab) (share_spec (2 ^ k) n mc fg)"
  proof (cases "m = 1")
    case True
    have "pair_rel k n outs (hand_over a t b) (b_hand_over f h g)" if "node_rel k n t h" for t h
      using hand_over_rel [OF r(1) that r(2)] r by (auto simp: pair_rel_def rel_prod.simps)
    then show ?thesis
      using True by (auto simp: e simp del: One_nat_def intro: rel_res_bind [OF share_menu_rel [OF r(1,3,5)]])
  next
    case False
    have "pair_rel k n outs (prod.swap (hand_over b t a)) (prod.swap (b_hand_over g h f))" if "node_rel k n t h" for t h
      using hand_over_rel [OF r(2) that r(1)] r by (auto simp: pair_rel_def rel_prod.simps)
    then show ?thesis
      using False by (auto simp: e intro: rel_res_bind [OF share_menu_rel [OF r(2,4,5)]])
  qed
qed

text \<open>The turns of the machines and of the boards, with commands that are all admissible.\<close>

definition turn_rel :: "nat \<Rightarrow> nat \<Rightarrow> (nat \<Rightarrow> nat \<Rightarrow> pf_outcome) \<Rightarrow>
    (nat \<Rightarrow> share_command list) \<times> node \<times> node \<Rightarrow> (nat \<Rightarrow> share_command list) \<times> board \<times> board \<Rightarrow> bool" where
  "turn_rel k n outs = (\<lambda>(q, ab) (p, fg). q = p \<and> pair_rel k n outs ab fg \<and>
     (\<forall>m \<in> {1, 2}. list_all (share_ok (2 ^ k)) (q m)))"

interpretation turns: step_simulates "share_turn outs" "turn_of (share_spec (2 ^ k) n)" "turn_rel k n outs"
  "\<lambda>m. m \<in> {1, 2}" for outs k n
proof unfold_locales
  fix s a and m :: nat
  assume rel: "turn_rel k n outs s a" and m: "m \<in> {1, 2}"
  obtain q ab fg where e: "s = (q, ab)" "a = (q, fg)" and r: "pair_rel k n outs ab fg"
    and ok: "\<forall>m \<in> {1, 2}. list_all (share_ok (2 ^ k)) (q m)"
    using rel by (cases s; cases a) (auto simp: turn_rel_def)
  show "rel_sum (=) (turn_rel k n outs) (share_turn outs m s) (turn_of (share_spec (2 ^ k) n) m a)"
  proof (cases "q m")
    case Nil
    then show ?thesis using rel by (simp add: share_turn_def turn_of_def e)
  next
    case (Cons c cs)
    have "list_all (share_ok (2 ^ k)) (q m)" using ok m by blast
    then have c: "share_ok (2 ^ k) c" "list_all (share_ok (2 ^ k)) cs" by (simp_all add: Cons)
    have "rel_sum (=) (pair_rel k n outs) (share_step outs (m, c) ab) (share_spec (2 ^ k) n (m, c) fg)"
      using share.step_sim [OF r, of "(m, c)"] c(1) by simp
    moreover have "turn_rel k n outs (q(m := cs), ab') (q(m := cs), fg')" if "pair_rel k n outs ab' fg'" for ab' fg'
      using that c(2) ok by (simp add: turn_rel_def)
    moreover have "turn_rel k n outs (q, ab) (q, fg)" using rel by (simp add: e)
    ultimately show ?thesis
      by (cases "share_step outs (m, c) ab"; cases "share_spec (2 ^ k) n (m, c) fg")
        (simp_all add: share_turn_def turn_of_def e Cons rel_sum.simps
          del: share_step.simps share_spec.simps split_paired_Ex)
  qed
qed

end
