(* ===== verification/Msg_Share_Props.thy ===== *)
theory Msg_Share_Props
  imports Msg_Share
begin

text \<open>
  What the users of \<open>Project_3/part4/backup2.c\<close> see: the refinement of the two processes by two
  boards and two queues, messages in the order in which they were typed, when a machine waits,
  and that no machine's pages depend on the other's.
\<close>

section \<open>Messages and waits\<close>

abbreviation page_of :: "int \<Rightarrow> nat" where
  "page_of j \<equiv> unat (word_of_int j :: 64 word)"

abbreviation all_pages :: "int \<Rightarrow> bool" where
  "all_pages j \<equiv> (word_of_int j :: 64 word) = -1"

text \<open>The message in the buffer after a command, what the command sends, and whether it waits for a message.\<close>

fun text_after :: "nat \<Rightarrow> share_command \<Rightarrow> string \<Rightarrow> string" where
  "text_after n (SWrite j line) t = (if (all_pages j \<or> page_of j < n) \<and> line \<noteq> [] then line else t)"
| "text_after n c t = t"

fun posts :: "nat \<Rightarrow> share_command \<Rightarrow> bool" where
  "posts n (SWrite j line) \<longleftrightarrow> \<not> all_pages j \<and> page_of j < n"
| "posts n c \<longleftrightarrow> False"

fun waits :: "nat \<Rightarrow> share_command \<Rightarrow> bool" where
  "waits m (SRead j got) \<longleftrightarrow> m = 2 \<or> all_pages j"
| "waits m c \<longleftrightarrow> False"

definition sends :: "nat \<Rightarrow> share_command \<Rightarrow> string \<Rightarrow> string list" where
  "sends n c t = (if posts n c then [text_after n c t] else [])"

text \<open>The messages that the commands of one machine post, and how many they wait for.\<close>

fun posted :: "nat \<Rightarrow> string \<Rightarrow> share_command list \<Rightarrow> string list" where
  "posted n t [] = []"
| "posted n t (c # cs) = sends n c t @ posted n (text_after n c t) cs"

definition wanted :: "nat \<Rightarrow> share_command list \<Rightarrow> nat" where
  "wanted m cs = length (filter (waits m) cs)"

lemma posted_append: "posted n t (cs @ ds) = posted n t cs @ posted n (fold (text_after n) cs t) ds"
  by (induction cs arbitrary: t) simp_all

lemma wanted_append [simp]: "wanted m [] = 0" "wanted m (cs @ ds) = wanted m cs + wanted m ds"
  by (simp_all add: wanted_def)

fun arrived :: "node_line list \<Rightarrow> string list" where
  "arrived [] = []"
| "arrived (Arrived s # ls) = s # arrived ls"
| "arrived (_ # ls) = arrived ls"

lemma arrived_append [simp]: "arrived (ls @ ls') = arrived ls @ arrived ls'"
  by (induction ls rule: arrived.induct) auto

section \<open>One step of the boards\<close>

lemma b_store_fields [simp]:
  "b_text (b_store ps bs i f) = b_text f"
  "b_in (b_store ps bs i f) = b_in f"
  "b_out (b_store ps bs i f) = b_out f"
  "b_room (b_store ps bs i f) = b_room f"
  "b_lines (b_store ps bs i f) = b_lines f"
  by (simp_all add: b_store_def)

lemma b_clear_fields [simp]:
  "b_text (b_clear ps i f) = b_text f"
  "b_in (b_clear ps i f) = b_in f"
  "b_out (b_clear ps i f) = b_out f"
  "b_room (b_clear ps i f) = b_room f"
  "b_lines (b_clear ps i f) = b_lines f"
  by (simp_all add: b_clear_def)

lemma fold_b_store [simp]:
  "b_text (fold (\<lambda>i f. b_store ps (b_text f) i f) is f) = b_text f"
  "b_in (fold (\<lambda>i f. b_store ps (b_text f) i f) is f) = b_in f"
  "b_out (fold (\<lambda>i f. b_store ps (b_text f) i f) is f) = b_out f"
  "b_room (fold (\<lambda>i f. b_store ps (b_text f) i f) is f) = b_room f"
  "b_lines (fold (\<lambda>i f. b_store ps (b_text f) i f) is f) = b_lines f"
  by (induction "is" arbitrary: f) simp_all

lemma fold_b_clear [simp]:
  "b_text (fold (b_clear ps) is f) = b_text f"
  "b_in (fold (b_clear ps) is f) = b_in f"
  "b_out (fold (b_clear ps) is f) = b_out f"
  "b_room (fold (b_clear ps) is f) = b_room f"
  "b_lines (fold (b_clear ps) is f) = b_lines f"
  by (induction "is" arbitrary: f) simp_all

lemma fold_b_show [simp]:
  "b_bytes (fold (b_show ps) is f) = b_bytes f"
  "b_text (fold (b_show ps) is f) = b_text f"
  "b_in (fold (b_show ps) is f) = b_in f"
  "b_out (fold (b_show ps) is f) = b_out f"
  "b_room (fold (b_show ps) is f) = b_room f"
  "arrived (b_lines (fold (b_show ps) is f)) = arrived (b_lines f)"
  by (induction "is" arbitrary: f) (simp_all add: b_show_def b_print_def)

lemma spec_show_fields [simp]:
  "b_bytes (spec_show ps n a f) = b_bytes f"
  "b_text (spec_show ps n a f) = b_text f"
  "b_in (spec_show ps n a f) = b_in f"
  "b_out (spec_show ps n a f) = b_out f"
  "b_room (spec_show ps n a f) = b_room f"
  "arrived (b_lines (spec_show ps n a f)) = arrived (b_lines f)"
  by (simp_all add: spec_show_def b_show_def b_print_def)

lemma spec_store_fields [simp]:
  "b_text (spec_store_page ps n a f) = b_text f"
  "b_in (spec_store_page ps n a f) = b_in f"
  "b_lines (spec_store_page ps n a f) = b_lines f"
  "b_out (spec_store_page ps n a f) = b_out f"
  "b_room (spec_store_page ps n a f) = b_room f"
  by (simp_all add: spec_store_page_def Let_def)

text \<open>The effect of a command on the queue, the room and the log of its own machine.\<close>

definition board_moves :: "nat \<Rightarrow> nat \<Rightarrow> share_command \<Rightarrow> board \<Rightarrow> board \<Rightarrow> bool" where
  "board_moves m n c f f' \<longleftrightarrow> b_text f' = text_after n c (b_text f) \<and>
     b_out f' = b_out f @ sends n c (b_text f) \<and>
     arrived (b_lines f') @ b_in f' = arrived (b_lines f) @ b_in f \<and>
     length (b_in f) = length (b_in f') + (if waits m c then 1 else 0) \<and>
     b_room f = b_room f' + (if posts n c then 1 else 0)"

text \<open>A command that does not go on: it waits for a message, or for room.\<close>

definition held_up :: "nat \<Rightarrow> nat \<Rightarrow> share_command \<Rightarrow> board \<Rightarrow> bool" where
  "held_up m n c f \<longleftrightarrow> waits m c \<and> b_in f = [] \<or> posts n c \<and> b_room f = 0"

lemma minus_one_no_page: "n < 2 ^ 31 \<Longrightarrow> \<not> unat (-1 :: 64 word) < n"
  by (simp add: unsigned_minus_1_eq_mask mask_eq_exp_minus_1)

definition plain :: "share_command \<Rightarrow> bool" where
  "plain c \<longleftrightarrow> c \<noteq> SQuit \<and> c \<noteq> SGone"

lemma share_spec_menu_moves:
  assumes "m = 1 \<or> m = 2" and "n < 2 ^ 31" and "plain c"
  shows "case share_spec_menu m ps n c f of
      Inl e \<Rightarrow> e = NotEnabled \<and> held_up m n c f
    | Inr f' \<Rightarrow> \<not> held_up m n c f \<and> board_moves m n c f f'"
proof (cases c)
  case (SRead j got)
  then show ?thesis
    using assms(1) minus_one_no_page [OF assms(2)]
    by (cases "b_in f")
      (auto simp: board_moves_def held_up_def sends_def b_receive_def b_print_def Let_def split: list.splits)
next
  case (SWrite j line)
  then show ?thesis
    using minus_one_no_page [OF assms(2)]
    by (auto simp: board_moves_def held_up_def sends_def b_scan_def b_print_def b_send_def Let_def)
qed (use assms(3) in \<open>simp_all add: plain_def board_moves_def held_up_def sends_def\<close>)

section \<open>The turns of the boards\<close>

text \<open>
  The queue, the room and the log of one board, after the commands \<open>d\<close> of its machine and \<open>d'\<close> of the
  other, with \<open>t\<close> and \<open>t'\<close> in the two message buffers to begin with and room for \<open>r\<close> messages.
\<close>

definition half :: "nat \<Rightarrow> nat \<Rightarrow> nat \<Rightarrow> string \<Rightarrow> string \<Rightarrow> share_command list \<Rightarrow> share_command list \<Rightarrow> board \<Rightarrow> board \<Rightarrow> bool" where
  "half m n r t t' d d' f g \<longleftrightarrow> b_text f = fold (text_after n) d t \<and> b_out f = [] \<and>
     arrived (b_lines f) @ b_in f = posted n t' d' \<and> length (b_in f) + wanted m d = length (posted n t' d') \<and>
     b_room f + length (b_in g) = r"

lemma half_step:
  assumes "half m n r t t' d d' f g" and "half m' n r t' t d' d g f" and mv: "board_moves m n c f f'"
    and fg: "b_hand_over f f' g = (f'', g'')"
  shows "half m n r t t' (d @ [c]) d' f'' g'' \<and> half m' n r t' t d' (d @ [c]) g'' f''"
  using assms
  by (auto simp: half_def board_moves_def b_hand_over_def posted_append sends_def wanted_def split: if_splits)

definition boards_inv :: "nat \<Rightarrow> nat \<Rightarrow> (nat \<Rightarrow> string) \<Rightarrow> (nat \<Rightarrow> share_command list) \<Rightarrow>
    (nat \<Rightarrow> share_command list) \<times> board \<times> board \<Rightarrow> bool" where
  "boards_inv n r t q0 = (\<lambda>(q, f, g). \<exists>d. (\<forall>m \<in> {1, 2}. q0 m = d m @ q m \<and> list_all plain (q m)) \<and>
     half 1 n r (t 1) (t 2) (d 1) (d 2) f g \<and> half 2 n r (t 2) (t 1) (d 2) (d 1) g f)"

lemma boards_turn:
  assumes n: "n < 2 ^ 31" and m: "m \<in> {1, 2}" and inv: "boards_inv n r t q0 s"
  shows "\<exists>s'. turn_of (share_spec ps n) m s = Inr s' \<and> boards_inv n r t q0 s' \<and>
    (s' = s \<longleftrightarrow> (case fst s m of [] \<Rightarrow> True | c # _ \<Rightarrow> held_up m n c (if m = 1 then fst (snd s) else snd (snd s))))"
proof -
  obtain q f g where s: "s = (q, f, g)" by (cases s)
  obtain d where d: "\<forall>m \<in> {1, 2}. q0 m = d m @ q m \<and> list_all plain (q m)"
    "half 1 n r (t 1) (t 2) (d 1) (d 2) f g" "half 2 n r (t 2) (t 1) (d 2) (d 1) g f"
    using inv by (auto simp: s boards_inv_def)
  show ?thesis
  proof (cases "q m")
    case Nil
    then show ?thesis using inv by (simp add: s turn_of_def)
  next
    case (Cons c cs)
    have "list_all plain (q m)" "q0 m = d m @ q m" using d(1) m by auto
    then have c: "plain c" "list_all plain cs" "q0 m = (d(m := d m @ [c])) m @ cs" by (simp_all add: Cons)
    have new: "q(m := cs) \<noteq> q" using Cons by (metis fun_upd_same not_Cons_self2)
    have part: "\<forall>j \<in> {1, 2}. q0 j = (d(m := d m @ [c])) j @ (q(m := cs)) j \<and> list_all plain ((q(m := cs)) j)"
      using d(1) c(2,3) by auto
    show ?thesis
    proof (cases "m = 1")
      case True
      note mv = share_spec_menu_moves [OF disjI1 [OF refl] n c(1), where ps = ps and f = f]
      show ?thesis
      proof (cases "share_spec_menu 1 ps n c f")
        case (Inl e)
        then show ?thesis using mv Cons True inv by (simp add: s turn_of_def del: One_nat_def)
      next
        case (Inr f')
        obtain f'' g'' where fg: "b_hand_over f f' g = (f'', g'')" by (cases "b_hand_over f f' g")
        have "board_moves 1 n c f f'" "\<not> held_up 1 n c f" using mv Inr by simp_all
        then show ?thesis
          using half_step [OF d(2,3) _ fg] part True new Inr Cons fg
          by (auto simp: s turn_of_def boards_inv_def simp del: One_nat_def intro!: exI [of _ "d(m := d m @ [c])"])
      qed
    next
      case False
      then have m2: "m = 2" using m by simp
      note mv = share_spec_menu_moves [OF disjI2 [OF refl] n c(1), where ps = ps and f = g]
      show ?thesis
      proof (cases "share_spec_menu 2 ps n c g")
        case (Inl e)
        then show ?thesis using mv Cons m2 inv by (simp add: s turn_of_def)
      next
        case (Inr g')
        obtain g'' f'' where fg: "b_hand_over g g' f = (g'', f'')" by (cases "b_hand_over g g' f")
        have "board_moves 2 n c g g'" "\<not> held_up 2 n c g" using mv Inr by simp_all
        then show ?thesis
          using half_step [OF d(3,2) _ fg] part m2 new Inr Cons fg
          by (auto simp: s turn_of_def boards_inv_def intro!: exI [of _ "d(m := d m @ [c])"])
      qed
    qed
  qed
qed

interpretation board_turns: step_total "turn_of (share_spec ps n)" "\<lambda>s. n < 2 ^ 31 \<and> boards_inv n r t q0 s"
  "\<lambda>m. m \<in> {1, 2}" for ps n r t q0
  by unfold_locales (use boards_turn in blast)

section \<open>Each board by itself\<close>

definition not_arrived :: "node_line \<Rightarrow> bool" where
  "not_arrived l \<longleftrightarrow> (case l of Arrived s \<Rightarrow> False | _ \<Rightarrow> True)"

definition own :: "board \<Rightarrow> board" where
  "own f = f\<lparr>b_in := [], b_out := [], b_room := 0, b_lines := filter not_arrived (b_lines f)\<rparr>"

text \<open>A command as if no message had to be waited for and none were sent.\<close>

fun share_alone :: "nat \<Rightarrow> nat \<Rightarrow> share_command \<Rightarrow> board \<Rightarrow> board" where
  "share_alone ps n (SRead j _) f =
     (let a = word_of_int j
      in if a = -1 \<or> unat a < n then spec_show ps n a (b_print (Opened a) f) else b_print NoRead f)"
| "share_alone ps n (SWrite j line) f =
     (let a = word_of_int j
      in own (if a = -1 \<or> unat a < n then spec_store_page ps n a (b_scan line f) else b_print NoWrite f))"
| "share_alone ps n c f = f"

lemma own_sel [simp]:
  "b_bytes (own f) = b_bytes f" "b_text (own f) = b_text f" "b_in (own f) = []" "b_out (own f) = []"
  by (simp_all add: own_def)

lemma own_print [simp]: "own (b_print l f) = (if not_arrived l then b_print l (own f) else own f)"
  by (simp add: own_def b_print_def)

lemma own_queues [simp]:
  "own (f\<lparr>b_in := x\<rparr>) = own f" "own (f\<lparr>b_out := x\<rparr>) = own f" "own (f\<lparr>b_room := r\<rparr>) = own f"
  by (simp_all add: own_def)

lemma own_own [simp]: "own (own f) = own f"
  by (simp add: own_def)

lemma own_show [simp]: "own (b_show ps i f) = b_show ps i (own f)"
  by (simp add: b_show_def not_arrived_def)

lemma own_shows [simp]: "own (fold (b_show ps) is f) = fold (b_show ps) is (own f)"
  by (induction "is" arbitrary: f) simp_all

lemma own_spec_show [simp]: "own (spec_show ps n a f) = spec_show ps n a (own f)"
  by (simp add: spec_show_def not_arrived_def)

lemma own_store [simp]: "own (b_store ps bs i f) = b_store ps bs i (own f)"
  by (simp add: own_def b_store_def)

lemma own_clear [simp]: "own (b_clear ps i f) = b_clear ps i (own f)"
  by (simp add: b_clear_def)

lemma own_clears [simp]: "own (fold (b_clear ps) is f) = fold (b_clear ps) is (own f)"
  by (induction "is" arbitrary: f) simp_all

lemma own_stores [simp]: "own (fold (\<lambda>i f. b_store ps (b_text f) i f) is f) =
    fold (\<lambda>i f. b_store ps (b_text f) i f) is (own f)"
  by (induction "is" arbitrary: f) simp_all

lemma own_scan [simp]: "own (b_scan line f) = b_scan line (own f)"
  by (simp add: b_scan_def own_def)

lemma own_send: "b_send f = Inr f' \<Longrightarrow> own f' = own f"
  by (auto simp: b_send_def split: if_splits)

lemma own_hand_over [simp]: "own (fst (b_hand_over f f' g)) = own f'" "own (snd (b_hand_over f f' g)) = own g"
  by (simp_all add: b_hand_over_def)

lemma own_spec_store [simp]: "own (spec_store_page ps n a (own f)) = own (spec_store_page ps n a f)"
  by (simp add: spec_store_page_def Let_def)

lemma own_scan_store [simp]:
  "own (spec_store_page ps n a (b_scan line (own f))) = own (spec_store_page ps n a (b_scan line f))"
  using own_spec_store [of ps n a "b_scan line f"] by (simp del: own_spec_store)

lemma own_receive: "b_receive f = Inr f' \<Longrightarrow> own f' = own f"
  by (auto simp: b_receive_def not_arrived_def split: list.splits)

lemma own_menu:
  assumes "share_spec_menu m ps n c f = Inr f'"
  shows "own f' = share_alone ps n c (own f)"
proof (cases c)
  case (SRead j got)
  show ?thesis
  proof (cases "all_pages j \<or> page_of j < n")
    case True
    then show ?thesis
      using assms
      by (auto simp: SRead Let_def bind_res_Inr_iff not_arrived_def dest!: own_receive split: if_splits)
  next
    case False
    then show ?thesis
      using assms
      by (auto simp: SRead Let_def bind_res_Inr_iff not_arrived_def dest!: own_receive split: if_splits)
  qed
next
  case (SWrite j line)
  then show ?thesis using assms by (auto simp: Let_def not_arrived_def dest!: own_send split: if_splits)
qed (use assms in simp_all)

lemma own_run:
  assumes "run_events (share_spec ps n) cs (f, g) = Inr (f', g')"
  shows "own f' = fold (share_alone ps n) (map snd (filter (\<lambda>mc. fst mc = 1) cs)) (own f)"
    and "own g' = fold (share_alone ps n) (map snd (filter (\<lambda>mc. fst mc \<noteq> 1) cs)) (own g)"
  using assms
proof (induction cs arbitrary: f g)
  case (Cons mc cs)
  {
    case 1
    then show ?case
      using Cons.IH(1) by (cases mc) (auto simp: bind_res_Inr_iff b_hand_over_def dest!: own_menu split: if_splits)
  next
    case 2
    then show ?case
      using Cons.IH(2) by (cases mc) (auto simp: bind_res_Inr_iff b_hand_over_def dest!: own_menu split: if_splits)
  }
qed simp_all

definition side :: "nat \<Rightarrow> 'a \<times> 'a \<Rightarrow> 'a" where
  "side m ab = (if m = 1 then fst ab else snd ab)"

definition commands_of :: "nat \<Rightarrow> (nat \<times> share_command) list \<Rightarrow> share_command list" where
  "commands_of m cs = map snd (filter (\<lambda>mc. (fst mc = 1) = (m = 1)) cs)"

lemma own_side:
  assumes "run_events (share_spec ps n) cs fg0 = Inr fg"
  shows "own (side m fg) = fold (share_alone ps n) (commands_of m cs) (own (side m fg0))"
  using own_run [of ps n cs "fst fg0" "snd fg0" "fst fg" "snd fg"] assms
  by (auto simp: side_def commands_of_def)

section \<open>The properties\<close>

definition share_boards :: "nat \<Rightarrow> nat \<Rightarrow> nat \<Rightarrow> (nat \<Rightarrow> char list) \<Rightarrow> board \<times> board" where
  "share_boards room ps n msgs = (fresh_board room ps n (str_of (msgs 1)), fresh_board room ps n (str_of (msgs 2)))"

lemma share_start_rel:
  assumes "share_setting k n base outs msgs recvs"
  shows "pair_rel k n outs (share_start room (2 ^ k) n base base msgs recvs) (share_boards room (2 ^ k) n msgs)"
  using assms by (auto simp: share_setting_def pair_rel_def share_start_def share_boards_def intro!: fresh_node_rel)

lemma share_run_rel:
  assumes "share_setting k n base outs msgs recvs" and "list_all (\<lambda>mc. share_ok (2 ^ k) (snd mc)) cs"
  shows "rel_sum (=) (pair_rel k n outs)
    (run_events (share_step outs) cs (share_start room (2 ^ k) n base base msgs recvs))
    (run_events (share_spec (2 ^ k) n) cs (share_boards room (2 ^ k) n msgs))"
  by (rule share.run_sim [OF share_start_rel [OF assms(1)] assms(2)])

lemma share_turns_rel:
  assumes "share_setting k n base outs msgs recvs" and "\<forall>m \<in> {1, 2}. list_all (share_ok (2 ^ k)) (q m)"
    and "list_all (\<lambda>m. m \<in> {1, 2}) ms"
  shows "rel_sum (=) (turn_rel k n outs)
    (run_events (share_turn outs) ms (q, share_start room (2 ^ k) n base base msgs recvs))
    (run_events (turn_of (share_spec (2 ^ k) n)) ms (q, share_boards room (2 ^ k) n msgs))"
proof -
  have "turn_rel k n outs (q, share_start room (2 ^ k) n base base msgs recvs) (q, share_boards room (2 ^ k) n msgs)"
    using share_start_rel [OF assms(1)] assms(2) by (simp add: turn_rel_def)
  then show ?thesis by (rule turns.run_sim [OF _ assms(3)])
qed

text \<open>A turn changes nothing exactly when no command is done.\<close>

lemma turn_same: "turn_of step m (q, s) = Inr (q', s') \<Longrightarrow> q' = q \<longleftrightarrow> (q', s') = (q, s)"
  by (auto simp: turn_of_def fun_upd_idem_iff split: list.splits sum.splits if_splits)

definition sample_outs :: "nat \<Rightarrow> nat \<Rightarrow> pf_outcome" where
  "sample_outs = (\<lambda>_ _. served)"

definition sample_bufs :: "nat \<Rightarrow> char list" where
  "sample_bufs = (\<lambda>_. replicate 8 NUL)"

definition sample_chat :: "nat \<Rightarrow> share_command list" where
  "sample_chat m = (if m = 1 then [SWrite 1 ''abc'', SRead (-1) 8] else [SRead 0 8, SWrite 0 ''xy'', SRead 1 8])"

lemma sample_setting: "share_setting 3 2 (2 ^ 20) sample_outs sample_bufs sample_bufs"
  by (simp add: share_setting_def sample_outs_def sample_bufs_def all_served_def handler_checks_def served_def
      buffer_ok_def)

lemma sample_chat_ok:
  "\<forall>m \<in> {1, 2}. list_all (share_ok (2 ^ 3)) (sample_chat m)"
  "\<forall>m \<in> {1, 2}. list_all (\<lambda>c. share_ok (2 ^ 3) c \<and> c \<noteq> SQuit) (sample_chat m)"
  by (simp_all add: sample_chat_def text_ok_def)

text \<open>
  C31. The two processes of \<open>backup2.c\<close>, with their memory filled on demand and 4096-byte buffers on
  byte streams, do what two boards with zeroed pages and two queues of messages do, at every order
  of turns of the two machines and for any commands whose lines are shorter than a page: the same
  commands are done and the same are waiting, with the same pages and the same lines, and the same
  fault for a command that quits. This is for a machine 2 whose kernel grants the address that
  machine 1 sends, whole pages of at least 8 bytes and less than 2 GiB in all, faults that are all
  served, reads of the connection that return a whole buffer, and processes that do not end.
\<close>

theorem share_refines_boards:
  assumes "share_setting k n base outs msgs recvs" and "\<forall>m \<in> {1, 2}. list_all (share_ok (2 ^ k)) (q m)"
    and "list_all (\<lambda>m. m \<in> {1, 2}) ms"
  shows "case run_events (share_turn outs) ms (q, share_start room (2 ^ k) n base base msgs recvs) of
      Inl e \<Rightarrow> run_events (turn_of (share_spec (2 ^ k) n)) ms (q, share_boards room (2 ^ k) n msgs) = Inl e
    | Inr (q', a, b) \<Rightarrow> \<exists>f g.
        run_events (turn_of (share_spec (2 ^ k) n)) ms (q, share_boards room (2 ^ k) n msgs) = Inr (q', f, g) \<and>
        flat (n_reg a) = b_bytes f \<and> n_lines a = b_lines f \<and>
        flat (n_reg b) = b_bytes g \<and> n_lines b = b_lines g"
  using share_turns_rel [OF assms, of room]
  by (cases "run_events (share_turn outs) ms (q, share_start room (2 ^ k) n base base msgs recvs)";
      cases "run_events (turn_of (share_spec (2 ^ k) n)) ms (q, share_boards room (2 ^ k) n msgs)")
    (auto simp: turn_rel_def pair_rel_def dest: node_rel_seen)

theorem share_refines_boards_witness:
  "case run_events (share_turn sample_outs) [2, 1, 2, 1, 2]
        (sample_chat, share_start 8 (2 ^ 3) 2 (2 ^ 20) (2 ^ 20) sample_bufs sample_bufs) of
      Inl e \<Rightarrow> run_events (turn_of (share_spec (2 ^ 3) 2)) [2, 1, 2, 1, 2] (sample_chat, share_boards 8 (2 ^ 3) 2 sample_bufs) = Inl e
    | Inr (q', a, b) \<Rightarrow> \<exists>f g.
        run_events (turn_of (share_spec (2 ^ 3) 2)) [2, 1, 2, 1, 2] (sample_chat, share_boards 8 (2 ^ 3) 2 sample_bufs) =
          Inr (q', f, g) \<and>
        flat (n_reg a) = b_bytes f \<and> n_lines a = b_lines f \<and>
        flat (n_reg b) = b_bytes g \<and> n_lines b = b_lines g"
  by (rule share_refines_boards [OF sample_setting sample_chat_ok(1)]) simp

text \<open>
  C32. In \<open>backup2.c\<close>, in the setting of the refinement above and as long as no user quits, every order of
  turns of the two machines runs without a fault, and each machine has done some first part of its
  commands. The messages a machine has shown are those that the other has posted (the messages
  typed for single pages), in the order in which they were typed, one for each of its reads that
  wait: all reads on machine 2, whatever page, and the reads of all pages on machine 1. A machine
  with a command left makes progress at its turn, except when that command waits for a message and
  all that were posted have been shown, or posts one and the buffers of the connection are full of
  messages not yet received.
\<close>

theorem share_messages_in_order:
  assumes "share_setting k n base outs msgs recvs"
    and "\<forall>m \<in> {1, 2}. list_all (\<lambda>c. share_ok (2 ^ k) c \<and> c \<noteq> SQuit) (q m)"
    and "list_all (\<lambda>m. m \<in> {1, 2}) ms"
  shows "\<exists>q' ab d. run_events (share_turn outs) ms (q, share_start room (2 ^ k) n base base msgs recvs) = Inr (q', ab) \<and>
    (\<forall>m \<in> {1, 2}. let sent = posted n (str_of (msgs m)) (d m);
         others = posted n (str_of (msgs (3 - m))) (d (3 - m)) in
       q m = d m @ q' m \<and> wanted m (d m) \<le> length others \<and>
       arrived (n_lines (side m ab)) = take (wanted m (d m)) others \<and>
       (share_turn outs m (q', ab) = Inr (q', ab) \<longleftrightarrow> (case q' m of
           [] \<Rightarrow> True
         | c # _ \<Rightarrow> waits m c \<and> wanted m (d m) = length others \<or>
             posts n c \<and> length sent = wanted (3 - m) (d (3 - m)) + room div 2 ^ k)))"
proof -
  let ?t = "\<lambda>m. str_of (msgs m)" and ?r = "room div 2 ^ k"
  define f where "f = fresh_board room (2 ^ k) n (?t 1)"
  define g where "g = fresh_board room (2 ^ k) n (?t 2)"
  have n: "n < 2 ^ 31" by (rule share_few [OF assms(1)])
  have boards: "share_boards room (2 ^ k) n msgs = (f, g)" by (simp add: share_boards_def f_def g_def)
  have pl: "list_all plain cs" if "list_all (\<lambda>c. share_ok (2 ^ k) c \<and> c \<noteq> SQuit) cs" for cs
    using that by (auto simp: list_all_iff plain_def)
  have ok: "\<forall>m \<in> {1, 2}. list_all (share_ok (2 ^ k)) (q m)" using assms(2) by (simp add: list_all_iff)
  have "boards_inv n ?r ?t q (q, f, g)"
    using assms(2) pl by (auto simp: boards_inv_def half_def f_def g_def fresh_board_def intro!: exI [of _ "\<lambda>_. []"])
  then obtain q' f' g' where run: "run_events (turn_of (share_spec (2 ^ k) n)) ms (q, f, g) = Inr (q', f', g')"
    and inv: "boards_inv n ?r ?t q (q', f', g')"
    using board_turns.run_returns [of n ?r ?t q "(q, f, g)" ms "2 ^ k"] n assms(3) by (auto simp: split_paired_Ex)
  obtain ab where ab: "run_events (share_turn outs) ms (q, share_start room (2 ^ k) n base base msgs recvs) = Inr (q', ab)"
    and rel: "turn_rel k n outs (q', ab) (q', f', g')"
    using share_turns_rel [OF assms(1) ok assms(3), of room] run
    by (auto simp: boards rel_sum.simps turn_rel_def)
  obtain d where d: "\<forall>m \<in> {1, 2}. q m = d m @ q' m" "half 1 n ?r (?t 1) (?t 2) (d 1) (d 2) f' g'"
    "half 2 n ?r (?t 2) (?t 1) (d 2) (d 1) g' f'"
    using inv by (auto simp: boards_inv_def)
  have same: "share_turn outs m (q', ab) = Inr (q', ab) \<longleftrightarrow>
      (case q' m of [] \<Rightarrow> True | c # _ \<Rightarrow> held_up m n c (if m = 1 then f' else g'))" if m: "m \<in> {1, 2}" for m
  proof -
    obtain p fg where fg: "turn_of (share_spec (2 ^ k) n) m (q', f', g') = Inr (p, fg)"
      "(p, fg) = (q', f', g') \<longleftrightarrow>
        (case q' m of [] \<Rightarrow> True | c # _ \<Rightarrow> held_up m n c (if m = 1 then f' else g'))"
      using boards_turn [OF n m inv, of "2 ^ k"] by (metis fst_conv snd_conv surj_pair)
    obtain ab' where ab': "share_turn outs m (q', ab) = Inr (p, ab')"
      using turns.step_sim [OF rel m] fg(1) by (auto simp: rel_sum.simps turn_rel_def)
    have "share_turn outs m (q', ab) = Inr (q', ab) \<longleftrightarrow> (p, ab') = (q', ab)" by (simp only: ab' sum.inject)
    also have "\<dots> \<longleftrightarrow> p = q'" by (rule turn_same [OF ab' [unfolded share_turn_def], symmetric])
    also have "\<dots> \<longleftrightarrow> (p, fg) = (q', f', g')" by (rule turn_same [OF fg(1)])
    finally show ?thesis by (simp only: fg(2))
  qed
  have seen: "n_lines (side 1 ab) = b_lines f'" "n_lines (side 2 ab) = b_lines g'"
    using rel by (auto simp: turn_rel_def pair_rel_def side_def dest: node_rel_seen)
  have take: "xs = take w zs" if "xs @ ys = zs" "length ys + w = length zs" for xs ys zs :: "string list" and w
    using that by auto
  have one: "wanted 1 (d 1) \<le> length (posted n (?t 2) (d 2))"
    "arrived (b_lines f') = take (wanted 1 (d 1)) (posted n (?t 2) (d 2))"
    "b_in f' = [] \<longleftrightarrow> wanted 1 (d 1) = length (posted n (?t 2) (d 2))"
    "b_room f' = 0 \<longleftrightarrow> length (posted n (?t 1) (d 1)) = wanted 2 (d 2) + ?r"
    using d(2,3) take [of "arrived (b_lines f')" "b_in f'" "posted n (?t 2) (d 2)" "wanted 1 (d 1)"]
    by (auto simp: half_def simp del: length_0_conv simp flip: length_0_conv)
  have two: "wanted 2 (d 2) \<le> length (posted n (?t 1) (d 1))"
    "arrived (b_lines g') = take (wanted 2 (d 2)) (posted n (?t 1) (d 1))"
    "b_in g' = [] \<longleftrightarrow> wanted 2 (d 2) = length (posted n (?t 1) (d 1))"
    "b_room g' = 0 \<longleftrightarrow> length (posted n (?t 2) (d 2)) = wanted 1 (d 1) + ?r"
    using d(2,3) take [of "arrived (b_lines g')" "b_in g'" "posted n (?t 1) (d 1)" "wanted 2 (d 2)"]
    by (auto simp: half_def simp del: length_0_conv simp flip: length_0_conv)
  have "share_turn outs 1 (q', ab) = Inr (q', ab) \<longleftrightarrow> (case q' 1 of [] \<Rightarrow> True | c # _ \<Rightarrow>
      waits 1 c \<and> wanted 1 (d 1) = length (posted n (?t 2) (d 2)) \<or>
      posts n c \<and> length (posted n (?t 1) (d 1)) = wanted 2 (d 2) + ?r)"
    using same [of 1] one(3,4) by (simp add: held_up_def del: One_nat_def split: list.split)
  moreover have "share_turn outs 2 (q', ab) = Inr (q', ab) \<longleftrightarrow> (case q' 2 of [] \<Rightarrow> True | c # _ \<Rightarrow>
      waits 2 c \<and> wanted 2 (d 2) = length (posted n (?t 1) (d 1)) \<or>
      posts n c \<and> length (posted n (?t 2) (d 2)) = wanted 1 (d 1) + ?r)"
    using same [of 2] two(3,4) by (simp add: held_up_def del: One_nat_def split: list.split)
  moreover have "(3 :: nat) - 1 = 2" "(3 :: nat) - 2 = 1" by simp_all
  ultimately show ?thesis
    using ab d(1) one(1,2) two(1,2) seen
    by (intro exI [of _ q'] exI [of _ ab] exI [of _ d])
      (simp only: Let_def ball_simps insert_iff empty_iff simp_thms)
qed

theorem share_messages_in_order_witness:
  "\<exists>q' ab d. run_events (share_turn sample_outs) [2, 1, 2, 2, 1, 1, 2]
      (sample_chat, share_start 8 (2 ^ 3) 2 (2 ^ 20) (2 ^ 20) sample_bufs sample_bufs) = Inr (q', ab) \<and>
    (\<forall>m \<in> {1, 2}. let sent = posted 2 (str_of (sample_bufs m)) (d m);
         others = posted 2 (str_of (sample_bufs (3 - m))) (d (3 - m)) in
       sample_chat m = d m @ q' m \<and> wanted m (d m) \<le> length others \<and>
       arrived (n_lines (side m ab)) = take (wanted m (d m)) others \<and>
       (share_turn sample_outs m (q', ab) = Inr (q', ab) \<longleftrightarrow> (case q' m of
           [] \<Rightarrow> True
         | c # _ \<Rightarrow> waits m c \<and> wanted m (d m) = length others \<or>
             posts 2 c \<and> length sent = wanted (3 - m) (d (3 - m)) + 8 div 2 ^ 3)))"
  by (rule share_messages_in_order [OF sample_setting sample_chat_ok(2)]) simp

text \<open>
  C33. In \<open>backup2.c\<close> nothing is shared but messages on the screen: two runs that return, in which a
  machine is given the same commands and the other one any, end with the same pages on that
  machine and with the same lines shown but for the messages that arrived. (In the setting of the
  refinement: machine 2 is granted machine 1's address, lines are shorter than a page, and reads
  of the connection return whole buffers.)
\<close>

theorem share_memories_private:
  assumes "share_setting k n base outs msgs recvs"
    and "list_all (\<lambda>mc. share_ok (2 ^ k) (snd mc)) cs" and "list_all (\<lambda>mc. share_ok (2 ^ k) (snd mc)) cs'"
    and "run_events (share_step outs) cs (share_start room (2 ^ k) n base base msgs recvs) = Inr ab"
    and "run_events (share_step outs) cs' (share_start room (2 ^ k) n base base msgs recvs) = Inr ab'"
    and "commands_of m cs = commands_of m cs'"
  shows "flat (n_reg (side m ab)) = flat (n_reg (side m ab')) \<and>
    filter not_arrived (n_lines (side m ab)) = filter not_arrived (n_lines (side m ab'))"
proof -
  obtain fg where fg: "run_events (share_spec (2 ^ k) n) cs (share_boards room (2 ^ k) n msgs) = Inr fg"
    "pair_rel k n outs ab fg"
    using share_run_rel [OF assms(1,2), of room] assms(4) by (auto simp: rel_sum.simps)
  obtain fg' where fg': "run_events (share_spec (2 ^ k) n) cs' (share_boards room (2 ^ k) n msgs) = Inr fg'"
    "pair_rel k n outs ab' fg'"
    using share_run_rel [OF assms(1,3), of room] assms(5) by (auto simp: rel_sum.simps)
  have "own (side m fg) = own (side m fg')"
    using own_side [of "2 ^ k" n cs _ fg m] own_side [of "2 ^ k" n cs' _ fg' m] fg(1) fg'(1) assms(6) by simp
  then have "b_bytes (side m fg) = b_bytes (side m fg')"
    "filter not_arrived (b_lines (side m fg)) = filter not_arrived (b_lines (side m fg'))"
    by (auto dest: arg_cong [where f = b_bytes] arg_cong [where f = b_lines] simp: own_def)
  moreover have "node_rel k n (side m ab) (side m fg)" "node_rel k n (side m ab') (side m fg')"
    using fg(2) fg'(2) by (auto simp: pair_rel_def side_def)
  ultimately show ?thesis using node_rel_seen by metis
qed

lemma sample_writes_return:
  "\<exists>ab. run_events (share_step sample_outs) [(1, SWrite j line)]
    (share_start 64 (2 ^ 3) 2 (2 ^ 20) (2 ^ 20) sample_bufs sample_bufs) = Inr ab" if "text_ok 8 line"
proof -
  let ?f = "fst (share_boards 64 8 2 sample_bufs)"
  have "\<not> held_up 1 2 (SWrite j line) ?f" by (simp add: held_up_def share_boards_def fresh_board_def)
  then obtain f where "share_spec_menu 1 8 2 (SWrite j line) ?f = Inr f"
    using share_spec_menu_moves [of 1 2 "SWrite j line" ?f 8]
    by (cases "share_spec_menu 1 8 2 (SWrite j line) ?f") (simp_all add: plain_def)
  then have "run_events (share_spec 8 2) [(1, SWrite j line)] (share_boards 64 8 2 sample_bufs) =
      Inr (b_hand_over ?f f (snd (share_boards 64 8 2 sample_bufs)))"
    by (simp add: share_boards_def del: share_spec_menu.simps)
  then show ?thesis
    using share_run_rel [OF sample_setting, of "[(1, SWrite j line)]" 64] that by (auto simp: rel_sum.simps)
qed

theorem share_memories_private_witness:
  "\<exists>ab ab'. run_events (share_step sample_outs) [(1, SWrite 0 ''abc'')]
      (share_start 64 (2 ^ 3) 2 (2 ^ 20) (2 ^ 20) sample_bufs sample_bufs) = Inr ab \<and>
    run_events (share_step sample_outs) [(1, SWrite (-1) ''de'')]
      (share_start 64 (2 ^ 3) 2 (2 ^ 20) (2 ^ 20) sample_bufs sample_bufs) = Inr ab' \<and>
    flat (n_reg (side 2 ab)) = flat (n_reg (side 2 ab')) \<and>
    filter not_arrived (n_lines (side 2 ab)) = filter not_arrived (n_lines (side 2 ab'))"
proof -
  obtain ab where ab: "run_events (share_step sample_outs) [(1, SWrite 0 ''abc'')]
      (share_start 64 (2 ^ 3) 2 (2 ^ 20) (2 ^ 20) sample_bufs sample_bufs) = Inr ab"
    using sample_writes_return [of "''abc''" 0] by (auto simp: text_ok_def)
  obtain ab' where ab': "run_events (share_step sample_outs) [(1, SWrite (-1) ''de'')]
      (share_start 64 (2 ^ 3) 2 (2 ^ 20) (2 ^ 20) sample_bufs sample_bufs) = Inr ab'"
    using sample_writes_return [of "''de''" "-1"] by (auto simp: text_ok_def)
  have "flat (n_reg (side 2 ab)) = flat (n_reg (side 2 ab')) \<and>
      filter not_arrived (n_lines (side 2 ab)) = filter not_arrived (n_lines (side 2 ab'))"
    by (rule share_memories_private [OF sample_setting _ _ ab ab']) (simp_all add: text_ok_def commands_of_def)
  then show ?thesis using ab ab' by blast
qed

section \<open>Writing a page twice\<close>

text \<open>
  Two messages written to the same page, one after the other: \<open>memset\<close> clears 8 bytes, so the
  second is what is read back when it is shorter than that, and otherwise it is followed by
  what the first had beyond its length.
\<close>

theorem share_rewrite_keeps_tail:
  assumes "share_setting k n base outs msgs recvs" and "i < n"
    and "text_ok (2 ^ k) m1" and "text_ok (2 ^ k) m2" and "m1 \<noteq> []" and "m2 \<noteq> []" and "2 * 2 ^ k \<le> room"
  shows "\<exists>a b. run_events (share_step outs) [(1, SWrite (int i) m1), (1, SWrite (int i) m2), (1, SRead (int i) (2 ^ k))]
      (share_start room (2 ^ k) n base base msgs recvs) = Inr (a, b) \<and>
    n_lines a = [Opened (word_of_nat i), ReadString (m2 @ (if length m2 < 8 then [] else drop (length m2) m1))]"
proof -
  define zeros where "zeros = replicate (n * 2 ^ k) NUL"
  define mem where "mem = overlay (overlay zeros (i * 2 ^ k) (replicate 8 NUL)) (i * 2 ^ k) m1"
  define mem' where "mem' = overlay (overlay mem (i * 2 ^ k) (replicate 8 NUL)) (i * 2 ^ k) m2"
  have n: "n < 2 ^ 31" by (rule share_few [OF assms(1)])
  have w: "unat (word_of_int (int i) :: 64 word) = i"
    using n assms(2) by (simp add: unat_of_nat)
  then have w': "(word_of_int (int i) :: 64 word) \<noteq> -1"
    using assms(2) minus_one_no_page [OF n] by metis
  have ps: "(8 :: nat) \<le> 2 ^ k" using assms(1) power_increasing [of 3 k "2 :: nat"] by (simp add: share_setting_def)
  have m: "length m1 \<le> 2 ^ k" "NUL \<notin> set m1" "length m2 \<le> 2 ^ k" "NUL \<notin> set m2"
    using assms(3,4) by (auto simp: text_ok_def)
  have room: "i * 2 ^ k + 2 ^ k \<le> length zeros" using page_span [OF assms(2), of k] by (simp add: zeros_def)
  have len: "length mem = length zeros" using room ps m by (simp add: mem_def)
  have page: "drop (i * 2 ^ k) mem = m1 @ drop (length m1) (replicate 8 NUL @ drop 8 (drop (i * 2 ^ k) zeros))"
    unfolding mem_def by (rule drop_rewrite [OF room m(1) ps])
  also have "\<dots> = m1 @ replicate (length zeros - i * 2 ^ k - length m1) NUL"
    using room ps by (simp add: zeros_def replicate_add [symmetric])
  finally have page: "drop (i * 2 ^ k) mem = m1 @ replicate (length zeros - i * 2 ^ k - length m1) NUL" .
  have "(2 * 2 ^ k) div 2 ^ k \<le> room div 2 ^ k" using assms(7) by (rule div_le_mono)
  then have room2: "2 \<le> room div 2 ^ k" by simp
  have "page_str (2 ^ k) mem' i = m2 @ (if length m2 < 8 then [] else str_of (drop (length m2) (drop (i * 2 ^ k) mem)))"
    unfolding page_str_def mem'_def
    using room len ps m by (simp add: drop_rewrite str_rewrite del: drop_append drop_drop)
  also have "\<dots> = m2 @ (if length m2 < 8 then [] else drop (length m2) m1)"
    by (simp only: page str_append_zeros [OF m(2)])
  finally have str: "page_str (2 ^ k) mem' i = m2 @ (if length m2 < 8 then [] else drop (length m2) m1)" .
  let ?cs = "[(1, SWrite (int i) m1), (1, SWrite (int i) m2), (1, SRead (int i) (2 ^ k))]"
  obtain fg where fg: "run_events (share_spec (2 ^ k) n) ?cs (share_boards room (2 ^ k) n msgs) = Inr fg"
    "b_lines (fst fg) = [Opened (word_of_nat i), ReadString (page_str (2 ^ k) mem' i)]"
    using assms(2,5,6) w w' room2
    by (simp add: share_boards_def fresh_board_def b_hand_over_def Let_def spec_store_page_def spec_show_def b_scan_def b_send_def
        b_show_def b_print_def b_clear_def b_store_def mem'_def mem_def zeros_def)
  have "list_all (\<lambda>mc. share_ok (2 ^ k) (snd mc)) ?cs" using assms(3,4) by simp
  from share_run_rel [OF assms(1) this, of room] show ?thesis
    using fg str by (auto simp: rel_sum.simps pair_rel_def dest!: node_rel_seen)
qed

theorem share_rewrite_keeps_tail_witness:
  "\<exists>a b. run_events (share_step (\<lambda>_ _. served)) [(1, SWrite (int 1) ''hello to everyone''), (1, SWrite (int 1) ''good bye''),
        (1, SRead (int 1) (2 ^ 5))]
      (share_start 64 (2 ^ 5) 2 (2 ^ 20) (2 ^ 20) (\<lambda>_. replicate 32 NUL) (\<lambda>_. replicate 32 NUL)) = Inr (a, b) \<and>
    n_lines a = [Opened (word_of_nat 1), ReadString (''good bye'' @
      (if length ''good bye'' < 8 then [] else drop (length ''good bye'') ''hello to everyone''))]"
  by (rule share_rewrite_keeps_tail)
    (simp_all add: share_setting_def all_served_def handler_checks_def served_def buffer_ok_def text_ok_def)

end
