(* ===== verification/Msg_Stale.thy ===== *)
theory Msg_Stale
  imports Msg_Pages
begin

text \<open>
  \<open>Project_3/part4/backup.c\<close>, the state after \<open>backup2.c\<close>: the messages are still sent, but no
  machine receives any; instead a read first copies \<open>recv_message\<close>, a buffer that nothing writes to,
  over the page it then shows. The bus signals of this version are only printed.
\<close>

section \<open>The menus\<close>

datatype stale_command =
    TRead int
  | TWrite int string
  | TView
  | TQuit
  | TOther

text \<open>
  \<open>list[accessvar].S = 1\<close>, in an array of \<open>data.pg_size\<close> elements that is not read anywhere: -1 is
  outside of it.
\<close>

definition mark_shared :: "64 word \<Rightarrow> node \<Rightarrow> node res" where
  "mark_shared a s = (if a < n_pages s then Inr s else Inl OutOfBounds)"

definition stale_refresh :: "(nat \<Rightarrow> pf_outcome) \<Rightarrow> 64 word \<Rightarrow> node \<Rightarrow> node res" where
  "stale_refresh outs a s =
     (let ps = rsize (n_reg s); l = page_offset a ps
      in if a = -1 then
           bind_res (each_page ps (n_clear outs) (n_length s) 0 s) (\<lambda>s.
           bind_res (each_page ps (n_copy_recv outs) (n_length s) 0 s) (\<lambda>s.
             each_page ps (n_show outs) (n_length s) 0 (n_print AllPages s)))
         else
           bind_res (n_clear outs l s) (\<lambda>s.
           bind_res (n_copy_recv outs l s) (n_show outs l)))"

definition stale_read_one :: "(nat \<Rightarrow> pf_outcome) \<Rightarrow> int \<Rightarrow> node \<Rightarrow> node res" where
  "stale_read_one outs n s =
     (let a = word_of_int n
      in if n_allowed a s
         then bind_res (mark_shared a s) (\<lambda>s. stale_refresh outs a (n_print (Opened a) s))
         else Inr (n_print NoRead s))"

text \<open>Machine 2 prints the buffer when it reads all pages, as if it had just been received.\<close>

definition stale_read_two :: "(nat \<Rightarrow> pf_outcome) \<Rightarrow> int \<Rightarrow> node \<Rightarrow> node res" where
  "stale_read_two outs n s =
     (let a = word_of_int n
      in if n_allowed a s
         then bind_res (if a = -1
             then bind_res (cstr (n_recv s)) (\<lambda>m. Inr (n_print (Arrived m) (n_print (Opened a) s)))
             else Inr (n_print (Opened a) s)) (stale_refresh outs a)
         else Inr (n_print NoRead s))"

definition stale_store :: "(nat \<Rightarrow> pf_outcome) \<Rightarrow> 64 word \<Rightarrow> node \<Rightarrow> node res" where
  "stale_store outs a s =
     (let ps = rsize (n_reg s); l = page_offset a ps
      in if a = -1 then
           bind_res (each_page ps (n_clear outs) (n_length s) 0 s) (\<lambda>s.
             each_page ps (n_copy outs) (n_length s) 0 s)
         else bind_res (n_clear outs l s) (n_copy outs l))"

text \<open>Machine 1 sends the message before it has looked at the page number.\<close>

definition stale_write_one :: "(nat \<Rightarrow> pf_outcome) \<Rightarrow> int \<Rightarrow> string \<Rightarrow> node \<Rightarrow> node res" where
  "stale_write_one outs n line s =
     (let a = word_of_int n
      in bind_res (scan_line line s) (\<lambda>s. bind_res (n_send s) (\<lambda>s.
           if n_allowed a s then stale_store outs a s else Inr (n_print NoWrite s))))"

definition stale_write_two :: "(nat \<Rightarrow> pf_outcome) \<Rightarrow> int \<Rightarrow> string \<Rightarrow> node \<Rightarrow> node res" where
  "stale_write_two outs n line s =
     (let a = word_of_int n
      in if n_allowed a s
         then bind_res (scan_line line s) (\<lambda>s. bind_res (stale_store outs a s) n_send)
         else Inr (n_print NoWrite s))"

text \<open>\<open>v\<close> counts up to the number of pages and does nothing else.\<close>

fun stale_menu :: "nat \<Rightarrow> (nat \<Rightarrow> pf_outcome) \<Rightarrow> stale_command \<Rightarrow> node \<Rightarrow> node res" where
  "stale_menu m outs (TRead n) s = (if m = 1 then stale_read_one outs n s else stale_read_two outs n s)"
| "stale_menu m outs (TWrite n line) s =
     (if m = 1 then stale_write_one outs n line s else stale_write_two outs n line s)"
| "stale_menu m outs TView s = Inr s"
| "stale_menu m outs TQuit s = Inl (Exit [])"
| "stale_menu m outs TOther s = Inr s"

fun stale_step :: "(nat \<Rightarrow> nat \<Rightarrow> pf_outcome) \<Rightarrow> nat \<times> stale_command \<Rightarrow> node \<times> node \<Rightarrow> (node \<times> node) res" where
  "stale_step outs (m, c) (a, b) =
     (if m = 1
      then bind_res (stale_menu 1 (outs 1) c a) (\<lambda>a'. Inr (hand_over a a' b))
      else bind_res (stale_menu 2 (outs 2) c b) (\<lambda>b'. Inr (prod.swap (hand_over b b' a))))"

text \<open>
  The bus: machine 1 prints a line for a read or a write in progress, machine 2 one for an
  invalidation; every call prints its arguments. The handler gives \<open>BusRdX\<close> for a write and
  \<open>BusRd\<close> for a read; the other signals of its structure have no determined value (\<open>other\<close>).
\<close>

datatype bus_line =
    UpdateBusOne
  | NeedInvalidate
  | Flag int "64 word"

definition stale_update_bus :: "nat \<Rightarrow> char \<Rightarrow> int \<Rightarrow> 64 word \<Rightarrow> bool \<Rightarrow> bus_line list" where
  "stale_update_bus order commands flag ax busrdx =
     (if order = 1 \<and> (commands = CHR ''w'' \<or> commands = CHR ''r'') then [UpdateBusOne] else []) @
     [Flag flag ax] @ (if order = 2 \<and> busrdx then [NeedInvalidate] else [])"

definition stale_handler_lines :: "nat \<Rightarrow> char \<Rightarrow> int \<Rightarrow> 64 word \<Rightarrow> bool \<Rightarrow> bus_line list" where
  "stale_handler_lines order commands nread ax other =
     (if commands = CHR ''w'' then stale_update_bus order commands nread ax True
      else if commands = CHR ''r'' then stale_update_bus order commands nread ax other
      else [])"

section \<open>Two boards\<close>

definition spec_refresh :: "nat \<Rightarrow> nat \<Rightarrow> string \<Rightarrow> 64 word \<Rightarrow> board \<Rightarrow> board" where
  "spec_refresh ps n g a f =
     (if a = -1
      then fold (b_show ps) [0..<n] (b_print AllPages
        (fold (b_store ps g) [0..<n] (fold (b_clear ps) [0..<n] f)))
      else b_show ps (unat a) (b_store ps g (unat a) (b_clear ps (unat a) f)))"

definition stale_spec_store :: "nat \<Rightarrow> nat \<Rightarrow> 64 word \<Rightarrow> board \<Rightarrow> board" where
  "stale_spec_store ps n a f =
     (if a = -1 then fold (\<lambda>i f. b_store ps (b_text f) i f) [0..<n] (fold (b_clear ps) [0..<n] f)
      else (let f = b_clear ps (unat a) f in b_store ps (b_text f) (unat a) f))"

fun stale_spec_menu :: "nat \<Rightarrow> nat \<Rightarrow> nat \<Rightarrow> string \<Rightarrow> stale_command \<Rightarrow> board \<Rightarrow> board res" where
  "stale_spec_menu m ps n g (TRead j) f =
     (let a = word_of_int j
      in if a = -1 then
           if m = 1 then Inl OutOfBounds
           else Inr (spec_refresh ps n g a (b_print (Arrived g) (b_print (Opened a) f)))
         else Inr (if unat a < n then spec_refresh ps n g a (b_print (Opened a) f) else b_print NoRead f))"
| "stale_spec_menu m ps n g (TWrite j line) f =
     (let a = word_of_int j; there = (a = -1 \<or> unat a < n)
      in if m = 1 then
           bind_res (b_send (b_scan line f)) (\<lambda>f. Inr (if there then stale_spec_store ps n a f else b_print NoWrite f))
         else if there then b_send (stale_spec_store ps n a (b_scan line f)) else Inr (b_print NoWrite f))"
| "stale_spec_menu m ps n g TQuit f = Inl (Exit [])"
| "stale_spec_menu m ps n g c f = Inr f"

fun stale_spec :: "nat \<Rightarrow> nat \<Rightarrow> (nat \<Rightarrow> string) \<Rightarrow> nat \<times> stale_command \<Rightarrow> board \<times> board \<Rightarrow> (board \<times> board) res" where
  "stale_spec ps n gs (m, c) (f, g) =
     (if m = 1
      then bind_res (stale_spec_menu 1 ps n (gs 1) c f) (\<lambda>f'. Inr (b_hand_over f f' g))
      else bind_res (stale_spec_menu 2 ps n (gs 2) c g) (\<lambda>g'. Inr (prod.swap (b_hand_over g g' f))))"

fun stale_ok :: "nat \<Rightarrow> stale_command \<Rightarrow> bool" where
  "stale_ok ps (TWrite j line) \<longleftrightarrow> text_ok ps line"
| "stale_ok ps c \<longleftrightarrow> True"

section \<open>Refinement\<close>

text \<open>The buffer of the message received stays as it is.\<close>

definition stale_rel :: "nat \<Rightarrow> nat \<Rightarrow> char list \<Rightarrow> node \<Rightarrow> board \<Rightarrow> bool" where
  "stale_rel k n r s f \<longleftrightarrow> node_rel k n s f \<and> n_recv s = r \<and> buffer_ok (2 ^ k) r"

lemma rel_res_also:
  "rel_sum (=) R x y \<Longrightarrow> (\<And>t. x = Inr t \<Longrightarrow> P t) \<Longrightarrow> rel_sum (=) (\<lambda>t g. R t g \<and> P t) x y"
  by (auto simp: rel_sum.simps)

lemma recv_kept:
  "n_show outs l s = Inr t \<Longrightarrow> n_recv t = n_recv s"
  "n_store outs bs l s = Inr t \<Longrightarrow> n_recv t = n_recv s"
  "n_clear outs l s = Inr t \<Longrightarrow> n_recv t = n_recv s"
  "n_copy outs l s = Inr t \<Longrightarrow> n_recv t = n_recv s"
  "n_copy_recv outs l s = Inr t \<Longrightarrow> n_recv t = n_recv s"
  "scan_line line s = Inr t \<Longrightarrow> n_recv t = n_recv s"
  by (auto simp: n_show_def n_store_def n_clear_def n_copy_def n_copy_recv_def scan_line_def n_print_def
      bind_res_Inr_iff split: if_splits)

lemma stale_rel_lift:
  assumes "stale_rel k n r s f" and "rel_sum (=) (node_rel k n) x y" and "\<And>t. x = Inr t \<Longrightarrow> n_recv t = n_recv s"
  shows "rel_sum (=) (stale_rel k n r) x y"
  using assms by (auto simp: rel_sum.simps stale_rel_def)

lemma stale_pages:
  assumes r: "stale_rel k n r s f" and srv: "all_served outs" and i: "i < n"
  shows "rel_sum (=) (stale_rel k n r) (n_show outs (int (i * 2 ^ k)) s) (Inr (b_show (2 ^ k) i f))"
    and "rel_sum (=) (stale_rel k n r) (n_clear outs (int (i * 2 ^ k)) s) (Inr (b_clear (2 ^ k) i f))"
    and "rel_sum (=) (stale_rel k n r) (n_copy outs (int (i * 2 ^ k)) s) (Inr (b_store (2 ^ k) (b_text f) i f))"
    and "rel_sum (=) (stale_rel k n r) (n_copy_recv outs (int (i * 2 ^ k)) s) (Inr (b_store (2 ^ k) (str_of r) i f))"
proof -
  have n: "node_rel k n s f" "n_recv s = r" "buffer_ok (2 ^ k) r" using r by (auto simp: stale_rel_def)
  show "rel_sum (=) (stale_rel k n r) (n_show outs (int (i * 2 ^ k)) s) (Inr (b_show (2 ^ k) i f))"
    by (rule stale_rel_lift [OF r n_show_rel [OF n(1) srv i]]) (rule recv_kept)
  show "rel_sum (=) (stale_rel k n r) (n_clear outs (int (i * 2 ^ k)) s) (Inr (b_clear (2 ^ k) i f))"
    by (rule stale_rel_lift [OF r n_clear_rel [OF n(1) srv i]]) (rule recv_kept)
  show "rel_sum (=) (stale_rel k n r) (n_copy outs (int (i * 2 ^ k)) s) (Inr (b_store (2 ^ k) (b_text f) i f))"
    by (rule stale_rel_lift [OF r n_copy_rel [OF n(1) srv i]]) (rule recv_kept)
  show "rel_sum (=) (stale_rel k n r) (n_copy_recv outs (int (i * 2 ^ k)) s) (Inr (b_store (2 ^ k) (str_of r) i f))"
    using stale_rel_lift [OF r n_copy_recv_rel [OF n(1) srv i]] n(2,3) recv_kept(5) by auto
qed

lemma stale_each:
  assumes "\<And>s f i. stale_rel k n r s f \<Longrightarrow> i < n \<Longrightarrow>
      rel_sum (=) (stale_rel k n r) (body (int (i * 2 ^ k)) s) (Inr (act i f))"
    and "stale_rel k n r s f"
  shows "rel_sum (=) (stale_rel k n r) (each_page (2 ^ k) body (n_length s) 0 s) (Inr (fold act [0..<n] f))"
proof -
  have eq: "stale_rel k n r = (\<lambda>t g. node_rel k n t g \<and> n_recv t = r \<and> buffer_ok (2 ^ k) r)"
    by (intro ext) (simp add: stale_rel_def)
  have "n_length s = n * 2 ^ k" using assms(2) node_rel_sizes by (auto simp: stale_rel_def)
  then show ?thesis
    using each_page_rel [of k n "\<lambda>t g. n_recv t = r \<and> buffer_ok (2 ^ k) r" body act s f 0] assms
    unfolding eq by simp
qed

lemma stale_all:
  assumes "stale_rel k n r s f" and "all_served outs"
  shows "rel_sum (=) (stale_rel k n r) (each_page (2 ^ k) (n_show outs) (n_length s) 0 s)
      (Inr (fold (b_show (2 ^ k)) [0..<n] f))"
    and "rel_sum (=) (stale_rel k n r) (each_page (2 ^ k) (n_clear outs) (n_length s) 0 s)
      (Inr (fold (b_clear (2 ^ k)) [0..<n] f))"
    and "rel_sum (=) (stale_rel k n r) (each_page (2 ^ k) (n_copy outs) (n_length s) 0 s)
      (Inr (fold (\<lambda>i f. b_store (2 ^ k) (b_text f) i f) [0..<n] f))"
    and "rel_sum (=) (stale_rel k n r) (each_page (2 ^ k) (n_copy_recv outs) (n_length s) 0 s)
      (Inr (fold (b_store (2 ^ k) (str_of r)) [0..<n] f))"
  by (rule stale_each, rule stale_pages(1), assumption, rule assms(2), assumption, rule assms(1))
    (rule stale_each, rule stale_pages(2), assumption, rule assms(2), assumption, rule assms(1),
     rule stale_each, rule stale_pages(3), assumption, rule assms(2), assumption, rule assms(1),
     rule stale_each, rule stale_pages(4), assumption, rule assms(2), assumption, rule assms(1))

lemmas stale_bind = rel_res_bind [where R = "stale_rel k n r" and Q = "stale_rel k n r" for k n r]

lemma stale_rel_print: "stale_rel k n r s f \<Longrightarrow> stale_rel k n r (n_print l s) (b_print l f)"
  using node_rel_print by (auto simp: stale_rel_def n_print_def)

lemma stale_rel_send:
  assumes "stale_rel k n r s f"
  shows "rel_sum (=) (stale_rel k n r) (n_send s) (b_send f)"
proof -
  have "node_rel k n s f" using assms by (simp add: stale_rel_def)
  from stale_rel_lift [OF assms node_rel_send [OF this]] show ?thesis
    by (auto simp: n_send_def split: if_splits)
qed

lemma stale_rel_sizes: "stale_rel k n r s f \<Longrightarrow> rsize (n_reg s) = 2 ^ k"
  "stale_rel k n r s f \<Longrightarrow> unat a < n \<Longrightarrow> page_offset a (2 ^ k) = int (unat a * 2 ^ k)"
  "stale_rel k n r s f \<Longrightarrow> n_allowed a s \<longleftrightarrow> a = -1 \<or> unat a < n"
  using node_rel_sizes node_page_offset n_allowed_ok by (auto simp: stale_rel_def)

lemma stale_refresh_rel:
  assumes r: "stale_rel k n r s f" and srv: "all_served outs" and a: "a = -1 \<or> unat a < n"
  shows "rel_sum (=) (stale_rel k n r) (stale_refresh outs a s) (Inr (spec_refresh (2 ^ k) n (str_of r) a f))"
proof (cases "a = -1")
  case True
  have "rel_sum (=) (stale_rel k n r)
      (bind_res (each_page (2 ^ k) (n_clear outs) (n_length s) 0 s) (\<lambda>s.
        bind_res (each_page (2 ^ k) (n_copy_recv outs) (n_length s) 0 s) (\<lambda>s.
          each_page (2 ^ k) (n_show outs) (n_length (n_print AllPages s)) 0 (n_print AllPages s))))
      (bind_res (Inr (fold (b_clear (2 ^ k)) [0..<n] f)) (\<lambda>f.
        bind_res (Inr (fold (b_store (2 ^ k) (str_of r)) [0..<n] f)) (\<lambda>f.
          Inr (fold (b_show (2 ^ k)) [0..<n] (b_print AllPages f)))))"
    by (intro stale_bind stale_all stale_rel_print) (rule r srv | assumption)+
  then show ?thesis
    using True stale_rel_sizes(1) [OF r] by (simp add: stale_refresh_def spec_refresh_def Let_def n_print_def)
next
  case False
  then have i: "unat a < n" using a by simp
  have "rel_sum (=) (stale_rel k n r)
      (bind_res (n_clear outs (int (unat a * 2 ^ k)) s) (\<lambda>s.
        bind_res (n_copy_recv outs (int (unat a * 2 ^ k)) s) (n_show outs (int (unat a * 2 ^ k)))))
      (bind_res (Inr (b_clear (2 ^ k) (unat a) f)) (\<lambda>f.
        bind_res (Inr (b_store (2 ^ k) (str_of r) (unat a) f)) (\<lambda>f. Inr (b_show (2 ^ k) (unat a) f))))"
    by (intro stale_bind stale_pages) (rule r srv i | assumption)+
  then show ?thesis
    using False stale_rel_sizes(1) [OF r] stale_rel_sizes(2) [OF r i]
    by (simp add: stale_refresh_def spec_refresh_def Let_def)
qed

lemma stale_store_rel:
  assumes r: "stale_rel k n r s f" and srv: "all_served outs" and a: "a = -1 \<or> unat a < n"
  shows "rel_sum (=) (stale_rel k n r) (stale_store outs a s) (Inr (stale_spec_store (2 ^ k) n a f))"
proof (cases "a = -1")
  case True
  have "rel_sum (=) (stale_rel k n r)
      (bind_res (each_page (2 ^ k) (n_clear outs) (n_length s) 0 s) (\<lambda>s.
        each_page (2 ^ k) (n_copy outs) (n_length s) 0 s))
      (bind_res (Inr (fold (b_clear (2 ^ k)) [0..<n] f)) (\<lambda>f.
        Inr (fold (\<lambda>i f. b_store (2 ^ k) (b_text f) i f) [0..<n] f)))"
    by (intro stale_bind stale_all stale_rel_print) (rule r srv | assumption)+
  then show ?thesis
    using True stale_rel_sizes(1) [OF r] by (simp add: stale_store_def stale_spec_store_def Let_def)
next
  case False
  then have i: "unat a < n" using a by simp
  have "rel_sum (=) (stale_rel k n r)
      (bind_res (n_clear outs (int (unat a * 2 ^ k)) s) (n_copy outs (int (unat a * 2 ^ k))))
      (bind_res (Inr (b_clear (2 ^ k) (unat a) f)) (\<lambda>f. Inr (b_store (2 ^ k) (b_text f) (unat a) f)))"
    by (intro stale_bind stale_pages) (rule r srv i | assumption)+
  then show ?thesis
    using False stale_rel_sizes(1) [OF r] stale_rel_sizes(2) [OF r i]
    by (simp add: stale_store_def stale_spec_store_def Let_def)
qed

lemma stale_menu_rel:
  assumes r: "stale_rel k n r s f" and srv: "all_served outs" and c: "stale_ok (2 ^ k) c" and n: "n < 2 ^ 31"
  shows "rel_sum (=) (stale_rel k n r) (stale_menu m outs c s) (stale_spec_menu m (2 ^ k) n (str_of r) c f)"
proof (cases c)
  case (TRead j)
  let ?a = "word_of_int j :: 64 word"
  note al = stale_rel_sizes(3) [OF r, of ?a]
  have minus: "\<not> unat (-1 :: 64 word) < n" using n by (simp add: unsigned_minus_1_eq_mask mask_eq_exp_minus_1)
  have pages: "a < n_pages s \<longleftrightarrow> unat a < n" for a :: "64 word"
    using r n by (simp add: stale_rel_def node_rel_def word_less_nat_alt unat_of_nat)
  have opened: "stale_rel k n r (n_print (Opened ?a) s) (b_print (Opened ?a) f)" by (rule stale_rel_print [OF r])
  have arrived: "stale_rel k n r (n_print (Arrived (str_of r)) (n_print (Opened ?a) s))
      (b_print (Arrived (str_of r)) (b_print (Opened ?a) f))"
    by (rule stale_rel_print [OF opened])
  have recv: "cstr (n_recv s) = Inr (str_of r)" using r cstr_buffer by (auto simp: stale_rel_def)
  consider "?a = -1" | "?a \<noteq> -1" "unat ?a < n" | "?a \<noteq> -1" "\<not> unat ?a < n" by blast
  then show ?thesis
  proof cases
    case 1
    then show ?thesis
      using al pages [of "-1"] minus stale_refresh_rel [OF arrived srv, of "-1"]
      by (simp add: TRead stale_read_one_def stale_read_two_def mark_shared_def recv Let_def)
  next
    case 2
    then show ?thesis
      using al pages [of ?a] stale_refresh_rel [OF opened srv, of ?a]
      by (simp add: TRead stale_read_one_def stale_read_two_def mark_shared_def Let_def)
  next
    case 3
    then show ?thesis
      using al stale_rel_print [OF r] by (simp add: TRead stale_read_one_def stale_read_two_def Let_def)
  qed
next
  case (TWrite j line)
  let ?a = "word_of_int j :: 64 word"
  have "text_ok (2 ^ k) line" using c TWrite by simp
  then have sc: "rel_sum (=) (stale_rel k n r) (scan_line line s) (Inr (b_scan line f))"
    using r by (intro stale_rel_lift [OF r scan_line_rel]) (auto simp: stale_rel_def dest: recv_kept(6))
  then obtain t where t: "scan_line line s = Inr t" "stale_rel k n r t (b_scan line f)"
    by (auto simp: rel_sum.simps)
  note al = stale_rel_sizes(3) [OF r, of ?a] stale_rel_sizes(3) [OF t(2), of ?a]
  show ?thesis
  proof (cases "?a = -1 \<or> unat ?a < n")
    case True
    have two: "rel_sum (=) (stale_rel k n r) (bind_res (stale_store outs ?a t) n_send)
        (bind_res (Inr (stale_spec_store (2 ^ k) n ?a (b_scan line f))) b_send)"
      by (rule stale_bind [OF stale_store_rel [OF t(2) srv True]]) (simp add: stale_rel_send)
    have one: "rel_sum (=) (stale_rel k n r)
        (bind_res (n_send t) (\<lambda>s. if n_allowed ?a s then stale_store outs ?a s else Inr (n_print NoWrite s)))
        (bind_res (b_send (b_scan line f)) (\<lambda>f. Inr (stale_spec_store (2 ^ k) n ?a f)))"
      by (rule stale_bind [OF stale_rel_send [OF t(2)]])
        (use True stale_rel_sizes(3) stale_store_rel [OF _ srv True] in auto)
    show ?thesis
      using True al one two by (simp add: TWrite t(1) stale_write_one_def stale_write_two_def Let_def)
  next
    case False
    have one: "rel_sum (=) (stale_rel k n r)
        (bind_res (n_send t) (\<lambda>s. if n_allowed ?a s then stale_store outs ?a s else Inr (n_print NoWrite s)))
        (bind_res (b_send (b_scan line f)) (\<lambda>f. Inr (b_print NoWrite f)))"
      by (rule stale_bind [OF stale_rel_send [OF t(2)]])
        (use False stale_rel_sizes(3) stale_rel_print in auto)
    then show ?thesis
      using False al stale_rel_print [OF r, of NoWrite]
      by (simp add: TWrite t(1) stale_write_one_def stale_write_two_def Let_def)
  qed
qed (use r in simp_all)

definition stale_pair :: "nat \<Rightarrow> nat \<Rightarrow> (nat \<Rightarrow> nat \<Rightarrow> pf_outcome) \<Rightarrow> (nat \<Rightarrow> char list) \<Rightarrow>
    node \<times> node \<Rightarrow> board \<times> board \<Rightarrow> bool" where
  "stale_pair k n outs rs = (\<lambda>(a, b) (f, g). stale_rel k n (rs 1) a f \<and> stale_rel k n (rs 2) b g \<and>
     all_served (outs 1) \<and> all_served (outs 2) \<and> n < 2 ^ 31)"

lemma stale_hand_over:
  assumes "stale_rel k n r s f" and "stale_rel k n r s' f'" and "stale_rel k n r' t g"
  shows "rel_prod (stale_rel k n r) (stale_rel k n r') (hand_over s s' t) (b_hand_over f f' g)"
  using hand_over_rel [of k n s f s' f' t g] assms
  by (auto simp: stale_rel_def rel_prod.simps hand_over_def)

interpretation stale: step_simulates "stale_step outs" "stale_spec (2 ^ k) n (\<lambda>m. str_of (rs m))"
  "stale_pair k n outs rs" "\<lambda>mc. stale_ok (2 ^ k) (snd mc)" for outs k n rs
proof unfold_locales
  fix ab fg and mc :: "nat \<times> stale_command"
  assume rel: "stale_pair k n outs rs ab fg" and ok: "stale_ok (2 ^ k) (snd mc)"
  obtain a b f g m c where e: "ab = (a, b)" "fg = (f, g)" "mc = (m, c)" by (cases ab; cases fg; cases mc)
  have r: "stale_rel k n (rs 1) a f" "stale_rel k n (rs 2) b g" "all_served (outs 1)" "all_served (outs 2)"
    "stale_ok (2 ^ k) c" "n < 2 ^ 31"
    using rel ok by (auto simp: stale_pair_def e)
  show "rel_sum (=) (stale_pair k n outs rs) (stale_step outs mc ab) (stale_spec (2 ^ k) n (\<lambda>m. str_of (rs m)) mc fg)"
  proof (cases "m = 1")
    case True
    have "stale_pair k n outs rs (hand_over a t b) (b_hand_over f h g)" if "stale_rel k n (rs 1) t h" for t h
      using stale_hand_over [OF r(1) that r(2)] r by (auto simp: stale_pair_def rel_prod.simps)
    then show ?thesis
      using True by (auto simp: e simp del: One_nat_def intro: rel_res_bind [OF stale_menu_rel [OF r(1,3,5,6)]])
  next
    case False
    have "stale_pair k n outs rs (prod.swap (hand_over b t a)) (prod.swap (b_hand_over g h f))"
      if "stale_rel k n (rs 2) t h" for t h
      using stale_hand_over [OF r(2) that r(1)] r by (auto simp: stale_pair_def rel_prod.simps)
    then show ?thesis
      using False by (auto simp: e intro: rel_res_bind [OF stale_menu_rel [OF r(2,4,5,6)]])
  qed
qed

section \<open>What a read shows\<close>

lemma page_str_bytes:
  assumes "\<And>j. j < length g \<Longrightarrow> mem ! (i * ps + j) = g ! j" and "mem ! (i * ps + length g) = NUL"
    and "NUL \<notin> set g" and "i * ps + length g < length mem"
  shows "page_str ps mem i = g"
proof -
  let ?d = "drop (i * ps) mem"
  have "take (length g) ?d = g" using assms(1,4) by (intro nth_equalityI) simp_all
  moreover have "drop (length g) ?d = NUL # drop (Suc (length g)) ?d"
    using assms(2,4) by (subst Cons_nth_drop_Suc [symmetric]) (simp_all add: add.commute)
  ultimately have "?d = g @ NUL # drop (Suc (length g)) ?d" by (metis append_take_drop_id)
  then have "page_str ps mem i = str_of (g @ NUL # drop (Suc (length g)) ?d)" by (simp only: page_str_def)
  then show ?thesis by (simp only: str_append [OF assms(3)]) simp
qed

lemma length_b_store:
  assumes "length bs \<le> ps" and "p < n" and "length (b_bytes f) = n * ps"
  shows "length (b_bytes (b_store ps bs p f)) = n * ps"
proof -
  have "p * ps + length bs \<le> n * ps"
    using mult_le_mono1 [of "Suc p" n ps] assms(1,2) by (simp add: add.commute)
  then show ?thesis using assms(3) by (simp add: b_store_def)
qed

lemma length_fold_store:
  "length bs \<le> ps \<Longrightarrow> length (b_bytes f) = n * ps \<Longrightarrow> set is \<subseteq> {..<n} \<Longrightarrow>
   length (b_bytes (fold (b_store ps bs) is f)) = n * ps"
  by (induction "is" arbitrary: f) (simp_all add: length_b_store)

lemma fold_store_byte:
  assumes "length bs \<le> ps" and "i < n" and "j < ps"
    and "length (b_bytes f) = n * ps" and "set is \<subseteq> {..<n}"
  shows "b_bytes (fold (b_store ps bs) is f) ! (i * ps + j) =
      (if i \<in> set is \<and> j < length bs then bs ! j else b_bytes f ! (i * ps + j))"
  using assms(4,5)
proof (induction "is" arbitrary: f)
  case (Cons p ps')
  have p: "p < n" using Cons.prems(2) by simp
  have one: "b_bytes (b_store ps bs p f) ! (i * ps + j) =
      (if i = p \<and> j < length bs then bs ! j else b_bytes f ! (i * ps + j))"
    using overlay_page_byte [OF assms(1) p assms(2,3) Cons.prems(1)] by (simp add: b_store_def)
  show ?case
    using Cons.IH [OF length_b_store [OF assms(1) p Cons.prems(1)]] one Cons.prems(2) by auto
qed simp

text \<open>After the buffer has been copied over some pages, short of 8 characters, they hold just that.\<close>

lemma refreshed_page:
  assumes "length g < 8" and "NUL \<notin> set g" and "8 \<le> ps" and "length (b_bytes f) = n * ps"
    and "set is \<subseteq> {..<n}" and "i \<in> set is"
  shows "page_str ps (b_bytes (fold (b_store ps g) is (fold (b_clear ps) is f))) i = g"
proof -
  let ?f = "fold (b_clear ps) is f"
  have i: "i < n" using assms(5,6) by auto
  have clear: "length (b_bytes ?f) = n * ps"
    using length_fold_store [of "replicate 8 NUL" ps f n "is"] assms(3-5) by (simp add: b_clear_def [abs_def])
  have zero: "b_bytes ?f ! (i * ps + length g) = NUL"
    using fold_store_byte [of "replicate 8 NUL" ps i n "length g" f "is"] assms i
    by (simp add: b_clear_def [abs_def])
  note store = fold_store_byte [OF _ i _ clear assms(5), of g]
  have "length (b_bytes (fold (b_store ps g) is ?f)) = n * ps"
    using length_fold_store [OF _ clear assms(5)] assms(1,3) by simp
  moreover have "i * ps + length g < n * ps" using page_index_bound [OF i] assms(1,3) by simp
  ultimately show ?thesis
    using store zero assms by (intro page_str_bytes) simp_all
qed

section \<open>Runs\<close>

fun reads_all :: "stale_command \<Rightarrow> bool" where
  "reads_all (TRead j) \<longleftrightarrow> (word_of_int j :: 64 word) = -1"
| "reads_all c \<longleftrightarrow> False"

fun stale_sends :: "nat \<Rightarrow> nat \<Rightarrow> stale_command \<Rightarrow> bool" where
  "stale_sends m n (TWrite j line) \<longleftrightarrow>
     m = 1 \<or> (word_of_int j :: 64 word) = -1 \<or> unat (word_of_int j :: 64 word) < n"
| "stale_sends m n c \<longleftrightarrow> False"

definition sent_by :: "nat \<Rightarrow> nat \<Rightarrow> (nat \<times> stale_command) list \<Rightarrow> nat" where
  "sent_by m n cs = length (filter (\<lambda>(j, c). (j = 1) = (m = 1) \<and> stale_sends m n c) cs)"

definition shows_only :: "nat \<Rightarrow> nat \<Rightarrow> string \<Rightarrow> board \<Rightarrow> bool" where
  "shows_only ps n g f \<longleftrightarrow> (\<forall>str. ReadString str \<in> set (b_lines f) \<longrightarrow> str = g) \<and>
     length (b_bytes f) = n * ps \<and> length (b_text f) \<le> ps"

lemma shows_only_print: "shows_only ps n g (b_print l f) \<longleftrightarrow>
    shows_only ps n g f \<and> (\<forall>str. l = ReadString str \<longrightarrow> str = g)"
  by (auto simp: shows_only_def b_print_def)

lemma shows_only_show:
  "shows_only ps n g f \<Longrightarrow> \<forall>i \<in> set is. page_str ps (b_bytes f) i = g \<Longrightarrow>
   shows_only ps n g (fold (b_show ps) is f)"
proof (induction "is" arbitrary: f)
  case (Cons i ps')
  have "shows_only ps n g (b_show ps i f)" using Cons.prems by (simp add: b_show_def shows_only_print)
  moreover have "b_bytes (b_show ps i f) = b_bytes f" by (simp add: b_show_def b_print_def)
  ultimately show ?case using Cons by simp
qed simp

lemma shows_only_store:
  "shows_only ps n g f \<Longrightarrow> length bs \<le> ps \<Longrightarrow> p < n \<Longrightarrow> shows_only ps n g (b_store ps bs p f)"
  using length_b_store [of bs ps p n f] by (simp add: shows_only_def b_store_def)

lemma shows_only_stores:
  "shows_only ps n g f \<Longrightarrow> length bs \<le> ps \<Longrightarrow> set is \<subseteq> {..<n} \<Longrightarrow> shows_only ps n g (fold (b_store ps bs) is f)"
  by (induction "is" arbitrary: f) (simp_all add: shows_only_store)

lemma shows_only_texts:
  "shows_only ps n g f \<Longrightarrow> set is \<subseteq> {..<n} \<Longrightarrow>
   shows_only ps n g (fold (\<lambda>i f. b_store ps (b_text f) i f) is f)"
proof (induction "is" arbitrary: f)
  case (Cons i ps')
  have "length (b_text f) \<le> ps" using Cons.prems(1) by (simp add: shows_only_def)
  then show ?case using Cons shows_only_store [of ps n g f "b_text f" i] by simp
qed simp

lemma shows_only_refresh:
  assumes "shows_only ps n g f" and "length g < 8" and "NUL \<notin> set g" and "8 \<le> ps"
    and "a = -1 \<or> unat a < n"
  shows "shows_only ps n g (spec_refresh ps n g a f)"
proof -
  define pages where "pages = (if a = -1 then [0..<n] else [unat a])"
  let ?f = "fold (b_store ps g) pages (fold (b_clear ps) pages f)"
  have sub: "set pages \<subseteq> {..<n}" using assms(5) by (auto simp: pages_def)
  have "shows_only ps n g (fold (b_clear ps) pages f)"
    using shows_only_stores [OF assms(1) _ sub, of "replicate 8 NUL"] assms(4) by (simp add: b_clear_def [abs_def])
  then have f: "shows_only ps n g ?f" using shows_only_stores [OF _ _ sub] assms(2,4) by simp
  have str: "page_str ps (b_bytes ?f) i = g" if "i \<in> set pages" for i
    using refreshed_page [OF assms(2,3,4) _ sub that] assms(1) by (simp add: shows_only_def)
  show ?thesis
  proof (cases "a = -1")
    case True
    have "shows_only ps n g (b_print AllPages ?f)" "b_bytes (b_print AllPages ?f) = b_bytes ?f"
      using f by (simp_all add: shows_only_print) (simp add: b_print_def)
    then have "shows_only ps n g (fold (b_show ps) pages (b_print AllPages ?f))"
      using shows_only_show [of ps n g "b_print AllPages ?f" pages] str by simp
    then show ?thesis using True by (simp add: spec_refresh_def pages_def)
  next
    case False
    then show ?thesis
      using shows_only_show [OF f, of pages] str by (simp add: spec_refresh_def pages_def)
  qed
qed

lemma stale_fold_queues [simp]:
  "b_in (fold (b_store ps bs) is f) = b_in f" "b_out (fold (b_store ps bs) is f) = b_out f"
  "b_in (fold (b_clear ps) is f) = b_in f" "b_out (fold (b_clear ps) is f) = b_out f"
  "b_in (fold (b_show ps) is f) = b_in f" "b_out (fold (b_show ps) is f) = b_out f"
  "b_room (fold (b_store ps bs) is f) = b_room f" "b_room (fold (b_clear ps) is f) = b_room f"
  "b_room (fold (b_show ps) is f) = b_room f"
  "b_room (fold (\<lambda>i f. b_store ps (b_text f) i f) is f) = b_room f"
  "b_in (fold (\<lambda>i f. b_store ps (b_text f) i f) is f) = b_in f"
  "b_out (fold (\<lambda>i f. b_store ps (b_text f) i f) is f) = b_out f"
  by (induction "is" arbitrary: f; simp add: b_store_def b_clear_def b_show_def b_print_def)+

lemma stale_spec_queues [simp]:
  "b_in (spec_refresh ps n g a f) = b_in f" "b_out (spec_refresh ps n g a f) = b_out f"
  "b_in (stale_spec_store ps n a f) = b_in f" "b_out (stale_spec_store ps n a f) = b_out f"
  "b_room (spec_refresh ps n g a f) = b_room f" "b_room (stale_spec_store ps n a f) = b_room f"
  by (simp_all add: spec_refresh_def stale_spec_store_def b_print_def b_show_def Let_def)
    (simp_all add: b_store_def b_clear_def)

lemma b_print_queues [simp]: "b_in (b_print l f) = b_in f" "b_out (b_print l f) = b_out f" "b_room (b_print l f) = b_room f"
  by (simp_all add: b_print_def)

lemma b_send_cases:
  "case b_send h of
     Inl e \<Rightarrow> e = NotEnabled \<and> b_room h = 0
   | Inr h' \<Rightarrow> b_in h' = b_in h \<and> length (b_out h') = length (b_out h) + 1 \<and> b_room h = b_room h' + 1 \<and>
       shows_only ps n g h' = shows_only ps n g h"
  by (simp add: b_send_def shows_only_def)

lemma stale_rel_seen: "stale_rel k n r s f \<Longrightarrow>
    n_lines s = b_lines f \<and> n_recv s = r \<and> length (n_in s) = 2 ^ k * length (b_in f)"
  using node_rel_seen node_rel_queue by (auto simp: stale_rel_def)

lemma stale_spec_menu_only:
  assumes f: "shows_only ps n g f" and g: "length g < 8" "NUL \<notin> set g" "8 \<le> ps"
    and c: "c \<noteq> TQuit" "stale_ok ps c" and n: "n < 2 ^ 31"
  shows "case stale_spec_menu m ps n g c f of
      Inl e \<Rightarrow> e = OutOfBounds \<and> m = 1 \<and> reads_all c \<or> e = NotEnabled \<and> stale_sends m n c \<and> b_room f = 0
    | Inr f' \<Rightarrow> \<not> (m = 1 \<and> reads_all c) \<and> shows_only ps n g f' \<and> b_in f' = b_in f \<and>
        length (b_out f') = length (b_out f) + (if stale_sends m n c then 1 else 0) \<and>
        b_room f = b_room f' + (if stale_sends m n c then 1 else 0)"
proof (cases c)
  case (TRead j)
  let ?a = "word_of_int j :: 64 word"
  have "shows_only ps n g (b_print (Opened ?a) f)"
    "shows_only ps n g (b_print (Arrived g) (b_print (Opened ?a) f))" "shows_only ps n g (b_print NoRead f)"
    using f by (simp_all add: shows_only_print)
  then have "?a = -1 \<or> unat ?a < n \<Longrightarrow>
      shows_only ps n g (spec_refresh ps n g ?a (b_print (Opened ?a) f)) \<and>
      shows_only ps n g (spec_refresh ps n g ?a (b_print (Arrived g) (b_print (Opened ?a) f)))"
    using shows_only_refresh [OF _ g] by blast
  then show ?thesis
    using \<open>shows_only ps n g (b_print NoRead f)\<close>
    by (cases "?a = -1") (simp_all add: TRead Let_def)
next
  case (TWrite j line)
  let ?a = "word_of_int j :: 64 word"
  have "length line \<le> ps" using c(2) TWrite by (simp add: text_ok_def)
  then have scan: "shows_only ps n g (b_scan line f)" using f by (simp add: shows_only_def b_scan_def)
  have store: "shows_only ps n g (stale_spec_store ps n ?a h)"
    if "shows_only ps n g h" "?a = -1 \<or> unat ?a < n" for h
  proof -
    have clear: "shows_only ps n g (fold (b_clear ps) is h)" if "set is \<subseteq> {..<n}" for "is"
      using shows_only_stores [OF \<open>shows_only ps n g h\<close> _ that, of "replicate 8 NUL"] g(3)
      by (simp add: b_clear_def [abs_def])
    show ?thesis
      using shows_only_texts [OF clear, of "[0..<n]" "[0..<n]"] shows_only_texts [OF clear, of "[unat ?a]" "[unat ?a]"]
        that(2) by (auto simp: stale_spec_store_def Let_def lessThan_atLeast0)
  qed
  have q: "b_in (b_scan line f) = b_in f" "b_out (b_scan line f) = b_out f" "b_room (b_scan line f) = b_room f"
    by (simp_all add: b_scan_def)
  show ?thesis
  proof (cases "m = 1")
    case True
    then show ?thesis
      using b_send_cases [of "b_scan line f" ps n g] scan store
      by (cases "b_send (b_scan line f)") (auto simp: TWrite Let_def q shows_only_print)
  next
    case False
    then show ?thesis
      using b_send_cases [of "stale_spec_store ps n ?a (b_scan line f)" ps n g] store [OF scan] f
      by (cases "b_send (stale_spec_store ps n ?a (b_scan line f))")
        (auto simp: TWrite Let_def q shows_only_print)
  qed
qed (use f c in simp_all)

lemma sent_by_simps [simp]:
  "sent_by m n [] = 0"
  "sent_by m n ((j, c) # cs) = (if (j = 1) = (m = 1) \<and> stale_sends m n c then 1 else 0) + sent_by m n cs"
  by (simp_all add: sent_by_def)

lemma shows_only_hand_over:
  assumes "shows_only ps n g f'" and "shows_only ps n g' h" and "b_in f' = b_in f" and "b_out h = []"
    and "b_hand_over f f' h = (f'', h')"
  shows "shows_only ps n g f''" and "shows_only ps n g' h'" and "b_out f'' = []" and "b_out h' = []"
    and "b_room f'' = b_room f'" and "b_room h' = b_room h" and "b_in f'' = b_in f"
    and "length (b_in h') = length (b_in h) + length (b_out f')"
  using assms by (auto simp: b_hand_over_def shows_only_def)

lemma stale_spec_run:
  assumes g: "length (gs 1) < 8" "NUL \<notin> set (gs 1)" "length (gs 2) < 8" "NUL \<notin> set (gs 2)" "8 \<le> ps"
    and n: "n < 2 ^ 31" and cs: "list_all (\<lambda>mc. snd mc \<noteq> TQuit \<and> stale_ok ps (snd mc)) cs"
    and fg: "shows_only ps n (gs 1) f" "shows_only ps n (gs 2) h" "b_out f = []" "b_out h = []"
  shows "case run_events (stale_spec ps n gs) cs (f, h) of
      Inl e \<Rightarrow> e = OutOfBounds \<and> list_ex (\<lambda>(m, c). m = 1 \<and> reads_all c) cs \<or>
        e = NotEnabled \<and> (b_room f < sent_by 1 n cs \<or> b_room h < sent_by 2 n cs)
    | Inr (f', h') \<Rightarrow> \<not> list_ex (\<lambda>(m, c). m = 1 \<and> reads_all c) cs \<and>
        sent_by 1 n cs \<le> b_room f \<and> sent_by 2 n cs \<le> b_room h \<and>
        shows_only ps n (gs 1) f' \<and> shows_only ps n (gs 2) h' \<and>
        length (b_in h') = length (b_in h) + sent_by 1 n cs \<and>
        length (b_in f') = length (b_in f) + sent_by 2 n cs"
  using cs fg
proof (induction cs arbitrary: f h)
  case (Cons mc cs)
  obtain m c where mc: "mc = (m, c)" by (cases mc)
  have c: "c \<noteq> TQuit" "stale_ok ps c" and cs: "list_all (\<lambda>mc. snd mc \<noteq> TQuit \<and> stale_ok ps (snd mc)) cs"
    using Cons.prems(1) by (simp_all add: mc)
  show ?case
  proof (cases "m = 1")
    case True
    note one = stale_spec_menu_only [OF Cons.prems(2) g(1,2,5) c n, of 1]
    show ?thesis
    proof (cases "stale_spec_menu 1 ps n (gs 1) c f")
      case (Inl e)
      then show ?thesis using one True by (auto simp: mc simp del: One_nat_def)
    next
      case (Inr f')
      obtain f'' h' where fh: "b_hand_over f f' h = (f'', h')" by (cases "b_hand_over f f' h")
      have step: "stale_spec ps n gs mc (f, h) = Inr (f'', h')" using Inr True fh by (simp add: mc del: One_nat_def)
      have run: "run_events (stale_spec ps n gs) (mc # cs) (f, h) = run_events (stale_spec ps n gs) cs (f'', h')"
        by (simp add: step)
      have "shows_only ps n (gs 1) f'" "b_in f' = b_in f" using one Inr by simp_all
      note new = shows_only_hand_over [OF this(1) Cons.prems(3) this(2) Cons.prems(5) fh]
      from Cons.IH [OF cs new(1-4)] show ?thesis
        using one Inr True Cons.prems(4) new(5-8) unfolding run
        by (cases "run_events (stale_spec ps n gs) cs (f'', h')") (auto simp: mc simp del: One_nat_def)
    qed
  next
    case False
    note two = stale_spec_menu_only [OF Cons.prems(3) g(3,4,5) c n, of 2]
    show ?thesis
    proof (cases "stale_spec_menu 2 ps n (gs 2) c h")
      case (Inl e)
      then show ?thesis using two False by (auto simp: mc)
    next
      case (Inr h')
      obtain h'' f' where fh: "b_hand_over h h' f = (h'', f')" by (cases "b_hand_over h h' f")
      have step: "stale_spec ps n gs mc (f, h) = Inr (f', h'')" using Inr False fh by (simp add: mc)
      have run: "run_events (stale_spec ps n gs) (mc # cs) (f, h) = run_events (stale_spec ps n gs) cs (f', h'')"
        by (simp add: step)
      have "shows_only ps n (gs 2) h'" "b_in h' = b_in h" using two Inr by simp_all
      note new = shows_only_hand_over [OF this(1) Cons.prems(2) this(2) Cons.prems(4) fh]
      from Cons.IH [OF cs new(2,1,4,3)] show ?thesis
        using two Inr False Cons.prems(5) new(5-8) unfolding run
        by (cases "run_events (stale_spec ps n gs) cs (f', h'')") (auto simp: mc)
    qed
  qed
qed simp

text \<open>
  C34. In \<open>backup.c\<close> nothing that is written is shown: whatever the users write (lines shorter than a
  page) and read, with no quit, every string that a read of pages shows is the one that \<open>recv_message\<close>
  held to begin with, which is never received into. That string is taken to be of less than 8
  characters, as in a fresh buffer, since \<open>memset\<close> clears 8 bytes of the page; machine 2's kernel is
  taken to grant the address of machine 1, and all faults to be served. Every message sent stays on
  the connection. The program only stops when machine 1 reads all pages, by the access to \<open>list[-1]\<close>,
  or at a send for which the buffers of the connection have no room left.
\<close>

theorem stale_shows_nothing_written:
  assumes "share_setting k n base outs msgs recvs" and "buffer_ok (2 ^ k) (recvs 1)" and "buffer_ok (2 ^ k) (recvs 2)"
    and "length (str_of (recvs 1)) < 8" and "length (str_of (recvs 2)) < 8"
    and "list_all (\<lambda>mc. snd mc \<noteq> TQuit \<and> stale_ok (2 ^ k) (snd mc)) cs"
  shows "case run_events (stale_step outs) cs (share_start room (2 ^ k) n base base msgs recvs) of
      Inl e \<Rightarrow> e = OutOfBounds \<and> list_ex (\<lambda>(m, c). m = 1 \<and> reads_all c) cs \<or>
        e = NotEnabled \<and> (room div 2 ^ k < sent_by 1 n cs \<or> room div 2 ^ k < sent_by 2 n cs)
    | Inr (a, b) \<Rightarrow> \<not> list_ex (\<lambda>(m, c). m = 1 \<and> reads_all c) cs \<and>
        sent_by 1 n cs \<le> room div 2 ^ k \<and> sent_by 2 n cs \<le> room div 2 ^ k \<and>
        {str. ReadString str \<in> set (n_lines a)} \<subseteq> {str_of (recvs 1)} \<and>
        {str. ReadString str \<in> set (n_lines b)} \<subseteq> {str_of (recvs 2)} \<and>
        n_recv a = recvs 1 \<and> n_recv b = recvs 2 \<and>
        length (n_in b) = 2 ^ k * sent_by 1 n cs \<and> length (n_in a) = 2 ^ k * sent_by 2 n cs"
proof -
  let ?gs = "\<lambda>m. str_of (recvs m)"
  define f where "f = fresh_board room (2 ^ k) n (str_of (msgs 1))"
  define h where "h = fresh_board room (2 ^ k) n (str_of (msgs 2))"
  have n: "n < 2 ^ 31" by (rule share_few [OF assms(1)])
  have ps: "(8 :: nat) \<le> 2 ^ k" using assms(1) power_increasing [of 3 k "2 :: nat"] by (simp add: share_setting_def)
  have "node_rel k n (fresh_node room (2 ^ k) n base base (msgs m) (recvs m)) (fresh_board room (2 ^ k) n (str_of (msgs m)))"
    if "m = 1 \<or> m = 2" for m
    using assms(1) that by (auto simp: share_setting_def intro!: fresh_node_rel)
  then have rel: "stale_pair k n outs recvs (share_start room (2 ^ k) n base base msgs recvs) (f, h)"
    using assms(1-3) n by (auto simp: stale_pair_def stale_rel_def share_start_def f_def h_def share_setting_def)
      (simp_all add: fresh_node_def)
  have "length (str_of (msgs m)) \<le> 2 ^ k" if "m = 1 \<or> m = 2" for m
    using assms(1) that text_ok_buffer [of "2 ^ k" "msgs m"] by (auto simp: share_setting_def text_ok_def)
  then have fh: "shows_only (2 ^ k) n (?gs 1) f" "shows_only (2 ^ k) n (?gs 2) h" "b_out f = []" "b_out h = []"
    "b_in f = []" "b_in h = []" "b_room f = room div 2 ^ k" "b_room h = room div 2 ^ k"
    by (simp_all add: shows_only_def f_def h_def fresh_board_def)
  have nul: "NUL \<notin> set (?gs m)" for m by (auto dest: set_takeWhileD)
  have "list_all (\<lambda>mc. stale_ok (2 ^ k) (snd mc)) cs" using assms(6) by (simp add: list_all_iff)
  from stale.run_sim [OF rel this] stale_spec_run [OF assms(4) nul assms(5) nul ps n assms(6) fh(1-4)]
  show ?thesis
    by (auto simp: stale_pair_def fh rel_sum.simps shows_only_def split: sum.splits prod.splits dest!: stale_rel_seen)
qed

definition sample_stale :: "(nat \<times> stale_command) list" where
  "sample_stale = [(1, TWrite 0 ''hello''), (1, TRead 0), (2, TRead (-1)), (2, TWrite 1 ''abc''), (1, TWrite 9 ''lost'')]"

theorem stale_shows_nothing_written_witness:
  "case run_events (stale_step (\<lambda>_ _. served)) sample_stale
        (share_start 64 (2 ^ 4) 2 (2 ^ 20) (2 ^ 20) (\<lambda>_. replicate 16 NUL) (\<lambda>_. replicate 16 NUL)) of
      Inl e \<Rightarrow> e = OutOfBounds \<and> list_ex (\<lambda>(m, c). m = 1 \<and> reads_all c) sample_stale \<or>
        e = NotEnabled \<and> (64 div 2 ^ 4 < sent_by 1 2 sample_stale \<or> 64 div 2 ^ 4 < sent_by 2 2 sample_stale)
    | Inr (a, b) \<Rightarrow> \<not> list_ex (\<lambda>(m, c). m = 1 \<and> reads_all c) sample_stale \<and>
        sent_by 1 2 sample_stale \<le> 64 div 2 ^ 4 \<and> sent_by 2 2 sample_stale \<le> 64 div 2 ^ 4 \<and>
        {str. ReadString str \<in> set (n_lines a)} \<subseteq> {str_of (replicate 16 NUL)} \<and>
        {str. ReadString str \<in> set (n_lines b)} \<subseteq> {str_of (replicate 16 NUL)} \<and>
        n_recv a = replicate 16 NUL \<and> n_recv b = replicate 16 NUL \<and>
        length (n_in b) = 2 ^ 4 * sent_by 1 2 sample_stale \<and>
        length (n_in a) = 2 ^ 4 * sent_by 2 2 sample_stale"
  by (rule stale_shows_nothing_written)
    (simp_all add: share_setting_def all_served_def handler_checks_def served_def buffer_ok_def text_ok_def
      sample_stale_def)

end
