(* ===== verification/Containers.thy ===== *)
theory Containers
  imports Prelude "HOL-Library.Tree"
begin

text \<open>
  The container module \<open>Project_2/prev/proj2.c\<close>: every integer of the parameter \<open>int_str\<close> is
  stored in a linked list, a hash table, a red-black tree and a radix tree, the four are printed
  to a proc file, and everything is taken down again.

  Entries are heap objects, named by numbers; \<open>vals\<close> is the part of the heap that is allocated.
  The kernel's intrusive lists are sequences of entries, a hash chain grows at its head, and a
  radix tree is its slots in increasing index order. What the module leaves to the kernel is a
  parameter (\<open>klib\<close>): the parsing of a number, the bucket of a value, the recolouring of the
  red-black tree after a node has been linked, and the unlinking of a node.
\<close>

section \<open>State\<close>

record klib =
  kstrtoint :: "string \<Rightarrow> int + int"
  bucket_of :: "int \<Rightarrow> nat"
  rb_insert_color :: "nat \<Rightarrow> nat tree \<Rightarrow> nat tree"
  rb_erase :: "nat \<Rightarrow> nat tree \<Rightarrow> nat tree"

record kernel =
  vals :: "nat \<Rightarrow> int option"
  next_id :: nat
  alloc_fails :: "nat \<Rightarrow> bool"
  mylist :: "nat list"
  myHTable :: "nat list list"
  rbroot :: "nat tree"
  radix_slots :: "(64 word \<times> nat) list"
  seq_out :: string

text \<open>What the kernel promises of its part.\<close>

definition klib_laws :: "klib \<Rightarrow> bool" where
  "klib_laws L \<longleftrightarrow>
     (\<forall>v. bucket_of L v < 8) \<and>
     (\<forall>x t. inorder (rb_insert_color L x t) = inorder t) \<and>
     (\<forall>x t. inorder (rb_erase L x t) = remove1 x (inorder t)) \<and>
     (\<forall>p v. kstrtoint L p = Inr v \<longrightarrow> - (2 ^ 31) \<le> v \<and> v < 2 ^ 31) \<and>
     (\<forall>p e. kstrtoint L p = Inl e \<longrightarrow> e \<noteq> 0)"

definition empty_kernel :: "(nat \<Rightarrow> bool) \<Rightarrow> kernel" where
  "empty_kernel fails = \<lparr>vals = (\<lambda>_. None), next_id = 0, alloc_fails = fails, mylist = [],
     myHTable = replicate 8 [], rbroot = Leaf, radix_slots = [], seq_out = []\<rparr>"

text \<open>
  \<open>kmalloc\<close> followed by the store to \<open>val\<close>: no caller checks the pointer, so a failed
  allocation is a NULL dereference.
\<close>

definition new_entry :: "int \<Rightarrow> kernel \<Rightarrow> (nat \<times> kernel) res" where
  "new_entry v k =
     (if alloc_fails k (next_id k) then Inl NullDeref
      else Inr (next_id k, k\<lparr>vals := (vals k)(next_id k \<mapsto> v), next_id := Suc (next_id k)\<rparr>))"

definition kfree :: "nat \<Rightarrow> kernel \<Rightarrow> kernel res" where
  "kfree x k = (if vals k x = None then Inl BadFree else Inr (k\<lparr>vals := (vals k)(x := None)\<rparr>))"

definition entry_val :: "kernel \<Rightarrow> nat \<Rightarrow> int res" where
  "entry_val k x = (case vals k x of None \<Rightarrow> Inl UseAfterFree | Some v \<Rightarrow> Inr v)"

section \<open>Storing\<close>

definition store_value :: "int \<Rightarrow> kernel \<Rightarrow> (int \<times> kernel) res" where
  "store_value v k = bind_res (new_entry v k) (\<lambda>(x, k). Inr (0, k\<lparr>mylist := mylist k @ [x]\<rparr>))"

definition store_hash_value :: "klib \<Rightarrow> int \<Rightarrow> kernel \<Rightarrow> (int \<times> kernel) res" where
  "store_hash_value L v k = bind_res (new_entry v k) (\<lambda>(x, k).
     let b = bucket_of L v
     in Inr (0, k\<lparr>myHTable := (myHTable k)[b := x # myHTable k ! b]\<rparr>))"

text \<open>The walk of \<open>insert_rb_tree\<close> from the root to the link, None when the value is there.\<close>

fun rb_link :: "kernel \<Rightarrow> nat \<Rightarrow> int \<Rightarrow> nat tree \<Rightarrow> nat tree option res" where
  "rb_link k x v Leaf = Inr (Some (Node Leaf x Leaf))"
| "rb_link k x v (Node l y r) =
     bind_res (entry_val k y) (\<lambda>w.
       if v < w then bind_res (rb_link k x v l) (\<lambda>l'. Inr (map_option (\<lambda>l'. Node l' y r) l'))
       else if w < v then bind_res (rb_link k x v r) (\<lambda>r'. Inr (map_option (\<lambda>r'. Node l y r') r'))
       else Inr None)"

definition insert_rb_tree :: "klib \<Rightarrow> nat \<Rightarrow> kernel \<Rightarrow> (int \<times> kernel) res" where
  "insert_rb_tree L x k =
     bind_res (entry_val k x) (\<lambda>v.
     bind_res (rb_link k x v (rbroot k)) (\<lambda>t. case t of
         None \<Rightarrow> Inr (-1, k)
       | Some t \<Rightarrow> Inr (0, k\<lparr>rbroot := rb_insert_color L x t\<rparr>)))"

definition rb_tree_insert :: "klib \<Rightarrow> int \<Rightarrow> kernel \<Rightarrow> (int \<times> kernel) res" where
  "rb_tree_insert L v k =
     bind_res (new_entry v k) (\<lambda>(x, k). bind_res (insert_rb_tree L x k) (\<lambda>(_, k). Inr (0, k)))"

text \<open>The index of a radix tree is an \<open>unsigned long\<close>; an occupied index is left as it is.\<close>

definition radix_index :: "int \<Rightarrow> 64 word" where
  "radix_index key = word_of_int key"

fun radix_tree_insert :: "64 word \<Rightarrow> nat \<Rightarrow> (64 word \<times> nat) list \<Rightarrow> (64 word \<times> nat) list" where
  "radix_tree_insert i x [] = [(i, x)]"
| "radix_tree_insert i x ((j, y) # slots) =
     (if i < j then (i, x) # (j, y) # slots
      else if i = j then (j, y) # slots
      else (j, y) # radix_tree_insert i x slots)"

definition radix_insert :: "int \<Rightarrow> kernel \<Rightarrow> (int \<times> kernel) res" where
  "radix_insert key k = bind_res (new_entry key k) (\<lambda>(x, k).
     Inr (0, k\<lparr>radix_slots := radix_tree_insert (radix_index key) x (radix_slots k)\<rparr>))"

section \<open>The parameter\<close>

text \<open>\<open>strsep(&params, ",")\<close>: the fields between commas, empty ones included.\<close>

fun strsep_fields :: "string \<Rightarrow> string list" where
  "strsep_fields [] = [[]]"
| "strsep_fields (c # cs) =
     (if c = CHR '','' then [] # strsep_fields cs
      else case strsep_fields cs of f # fs \<Rightarrow> (c # f) # fs | [] \<Rightarrow> [[c]])"

definition store_all :: "klib \<Rightarrow> int \<Rightarrow> kernel \<Rightarrow> (int \<times> kernel) res" where
  "store_all L v k =
     bind_res (store_value v k) (\<lambda>(_, k).
     bind_res (store_hash_value L v k) (\<lambda>(_, k).
     bind_res (rb_tree_insert L v k) (\<lambda>(_, k).
     radix_insert v k)))"

fun parse_fields :: "klib \<Rightarrow> string list \<Rightarrow> int \<Rightarrow> kernel \<Rightarrow> (int \<times> kernel) res" where
  "parse_fields L [] err k = Inr (err, k)"
| "parse_fields L (p # ps) err k =
     (if p = [] then parse_fields L ps err k
      else case kstrtoint L p of
        Inl e \<Rightarrow> Inr (e, k)
      | Inr v \<Rightarrow> bind_res (store_all L v k) (\<lambda>(err, k).
          if err \<noteq> 0 then Inr (err, k) else parse_fields L ps err k))"

definition ENOMEM :: int where
  "ENOMEM = 12"

text \<open>\<open>kstrdup\<close> takes one allocation, released before the return.\<close>

definition parse_params :: "klib \<Rightarrow> string \<Rightarrow> kernel \<Rightarrow> (int \<times> kernel) res" where
  "parse_params L int_str k =
     (let k' = k\<lparr>next_id := Suc (next_id k)\<rparr>
      in if alloc_fails k (next_id k) then Inr (- ENOMEM, k')
         else parse_fields L (strsep_fields int_str) 0 k')"

section \<open>Taking down\<close>

fun free_each :: "nat list \<Rightarrow> kernel \<Rightarrow> kernel res" where
  "free_each [] k = Inr k"
| "free_each (x # xs) k = bind_res (kfree x k) (free_each xs)"

text \<open>
  The two \<open>_safe\<close> iterations read the successor before the entry is unlinked and freed;
  \<open>tmp\<close> is NULL at the end, so the last \<open>kfree(tmp)\<close> does nothing.
\<close>

definition destroy_linked_list_and_free :: "kernel \<Rightarrow> kernel res" where
  "destroy_linked_list_and_free k = free_each (mylist k) (k\<lparr>mylist := []\<rparr>)"

definition remove_hash_table :: "kernel \<Rightarrow> kernel res" where
  "remove_hash_table k = free_each (concat (myHTable k)) (k\<lparr>myHTable := replicate 8 []\<rparr>)"

text \<open>\<open>rb_next\<close> reads the links inside the entry, which must still be allocated.\<close>

definition rb_next :: "nat \<Rightarrow> nat list \<Rightarrow> kernel \<Rightarrow> nat option res" where
  "rb_next x order k =
     (if vals k x = None then Inl UseAfterFree
      else case dropWhile (\<lambda>y. y \<noteq> x) order of
        _ # y # _ \<Rightarrow> Inr (Some y)
      | _ \<Rightarrow> Inr None)"

fun rb_remove_from :: "nat \<Rightarrow> klib \<Rightarrow> nat option \<Rightarrow> kernel \<Rightarrow> kernel res" where
  "rb_remove_from n L None k = Inr k"
| "rb_remove_from 0 L (Some x) k = Inl NotEnabled"
| "rb_remove_from (Suc n) L (Some x) k =
     bind_res (kfree x (k\<lparr>rbroot := rb_erase L x (rbroot k)\<rparr>)) (\<lambda>k'.
     bind_res (rb_next x (inorder (rbroot k)) k') (\<lambda>nx. rb_remove_from n L nx k'))"

definition rb_tree_remove :: "klib \<Rightarrow> kernel \<Rightarrow> kernel res" where
  "rb_tree_remove L k =
     rb_remove_from (size (rbroot k)) L
       (case inorder (rbroot k) of [] \<Rightarrow> None | x # _ \<Rightarrow> Some x) k"

definition radix_remove :: "kernel \<Rightarrow> kernel" where
  "radix_remove k = k\<lparr>radix_slots := []\<rparr>"

definition cleanup :: "klib \<Rightarrow> kernel \<Rightarrow> kernel res" where
  "cleanup L k =
     bind_res (destroy_linked_list_and_free k) (\<lambda>k.
     bind_res (remove_hash_table k) (\<lambda>k.
     bind_res (rb_tree_remove L k) (\<lambda>k. Inr (radix_remove k))))"

section \<open>The proc file\<close>

definition seq_printf :: "string \<Rightarrow> kernel \<Rightarrow> kernel" where
  "seq_printf s k = k\<lparr>seq_out := seq_out k @ s\<rparr>"

fun print_entries :: "nat list \<Rightarrow> kernel \<Rightarrow> kernel res" where
  "print_entries [] k = Inr k"
| "print_entries (x # xs) k =
     bind_res (entry_val k x) (\<lambda>v. print_entries xs (seq_printf (dec v @ '' '') k))"

text \<open>
  The slots of the radix tree, each looked up again by its index; \<open>False\<close>: the lookup found nothing,
  where the function returns at once.
\<close>

fun print_slots :: "64 word list \<Rightarrow> kernel \<Rightarrow> (bool \<times> kernel) res" where
  "print_slots [] k = Inr (True, k)"
| "print_slots (i # is) k =
     (case map_of (radix_slots k) i of
        None \<Rightarrow> Inr (False, k)
      | Some x \<Rightarrow> bind_res (entry_val k x) (\<lambda>v. print_slots is (seq_printf (dec v @ '' '') k)))"

text \<open>
  The four lines, from \<open>Linked List\<close> to the newline after the radix tree's values, and whether
  every slot was found.
\<close>

definition show_containers :: "kernel \<Rightarrow> (bool \<times> kernel) res" where
  "show_containers k =
     bind_res (print_entries (mylist k) (seq_printf ''Linked List = '' k)) (\<lambda>k.
     bind_res (print_entries (concat (myHTable k))
       (seq_printf ''Hash Table = '' (seq_printf [newline] k))) (\<lambda>k.
     bind_res (print_entries (inorder (rbroot k))
       (seq_printf ''R-B Tree = '' (seq_printf [newline] k))) (\<lambda>k.
     bind_res (print_slots (map fst (radix_slots k))
       (seq_printf ''Radix Tree = '' (seq_printf [newline] k))) (\<lambda>(found, k).
     Inr (found, if found then seq_printf [newline] k else k)))))"

text \<open>
  The part of \<open>proj2_proc_show\<close> before its label \<open>out\<close>: the value returned and the state with what was
  printed. \<open>temp2\<close> takes an allocation that is never used and never freed. A slot that is not found ends
  the function with -1 and without \<open>cleanup\<close>.
\<close>

definition show_parsed :: "klib \<Rightarrow> string \<Rightarrow> kernel \<Rightarrow> (int \<times> kernel) res" where
  "show_parsed L int_str k =
     bind_res (parse_params L int_str k) (\<lambda>(err, k).
       if err \<noteq> 0 then Inr (err, k)
       else bind_res (show_containers k) (\<lambda>(found, k). Inr (if found then err else -1, k)))"

definition proj2_proc_show :: "klib \<Rightarrow> string option \<Rightarrow> kernel \<Rightarrow> (int \<times> kernel) res" where
  "proj2_proc_show L int_str k0 =
     (let k = k0\<lparr>next_id := Suc (next_id k0)\<rparr>
      in case int_str of
        None \<Rightarrow> Inr (-1, k)
      | Some s \<Rightarrow>
          bind_res (parse_params L s k) (\<lambda>(err, k).
            if err \<noteq> 0 then bind_res (cleanup L k) (\<lambda>k. Inr (err, k))
            else bind_res (show_containers k) (\<lambda>(found, k).
              if found then bind_res (cleanup L k) (\<lambda>k. Inr (err, k)) else Inr (-1, k))))"

end
