(* ===== verification/Containers_Correct.thy ===== *)
theory Containers_Correct
  imports Containers "HOL-Library.Multiset"
begin

text \<open>
  What the four containers of \<open>Project_2/prev/proj2.c\<close> hold after a sequence of values: the
  list in order of arrival, each hash chain in reverse order, the red-black tree in increasing order
  without duplicates, the radix tree without duplicates in the order of the values read as
  unsigned indices; then what is printed, and what taking the containers down does.
\<close>

section \<open>Sorted insertion by a key\<close>

fun ins_by :: "('a \<Rightarrow> 'k::linorder) \<Rightarrow> 'a \<Rightarrow> 'a list \<Rightarrow> 'a list" where
  "ins_by f x [] = [x]"
| "ins_by f x (y # ys) =
     (if f x < f y then x # y # ys else if f x = f y then y # ys else y # ins_by f x ys)"

abbreviation increasing :: "('a \<Rightarrow> 'k::linorder) \<Rightarrow> 'a list \<Rightarrow> bool" where
  "increasing f \<equiv> sorted_wrt (\<lambda>a b. f a < f b)"

lemma map_ins_by: "map f (ins_by (\<lambda>a. g (f a)) x ys) = ins_by g (f x) (map f ys)"
  by (induction ys) auto

lemma set_ins_by: "set (ins_by f x ys) \<subseteq> insert x (set ys)"
  by (induction ys) auto

lemma distinct_ins_by: "x \<notin> set ys \<Longrightarrow> distinct ys \<Longrightarrow> distinct (ins_by f x ys)"
  by (induction ys) (use set_ins_by in fastforce)+

lemma increasing_ins_by: "increasing f ys \<Longrightarrow> increasing f (ins_by f x ys)"
proof (induction ys)
  case (Cons y ys)
  have "f y < f z" if "\<not> f x < f y" "f x \<noteq> f y" "z \<in> set (ins_by f x ys)" for z
    using that Cons.prems set_ins_by [of f x ys] by auto
  then show ?case using Cons by auto
qed simp

lemma ins_by_left: "increasing f (ys @ z # zs) \<Longrightarrow> f x < f z \<Longrightarrow>
  ins_by f x (ys @ z # zs) = ins_by f x ys @ z # zs"
  by (induction ys) auto

lemma ins_by_right: "increasing f (ys @ z # zs) \<Longrightarrow> f z < f x \<Longrightarrow>
  ins_by f x (ys @ z # zs) = ys @ z # ins_by f x zs"
  by (induction ys) auto

lemma ins_by_present: "increasing f ys \<Longrightarrow> f x \<in> f ` set ys \<Longrightarrow> ins_by f x ys = ys"
  by (induction ys) auto

lemma key_ins_by: "increasing f ys \<Longrightarrow> f ` set (ins_by f x ys) = insert (f x) (f ` set ys)"
  by (induction ys) auto

lemma increasing_map: "increasing g (map f ys) = increasing (\<lambda>a. g (f a)) ys"
  by (simp add: sorted_wrt_map)

section \<open>The invariant and the contents\<close>

definition item :: "kernel \<Rightarrow> nat \<Rightarrow> int" where
  "item k x = (case vals k x of Some v \<Rightarrow> v | None \<Rightarrow> 0)"

definition held :: "kernel \<Rightarrow> nat list" where
  "held k = mylist k @ concat (myHTable k) @ inorder (rbroot k) @ map snd (radix_slots k)"

definition in_int :: "int \<Rightarrow> bool" where
  "in_int v \<longleftrightarrow> - (2 ^ 31) \<le> v \<and> v < 2 ^ 31"

definition kernel_ok :: "kernel \<Rightarrow> bool" where
  "kernel_ok k \<longleftrightarrow>
     (\<forall>n. \<not> alloc_fails k n) \<and>
     (\<forall>x. vals k x \<noteq> None \<longrightarrow> x < next_id k) \<and>
     distinct (held k) \<and> (\<forall>x \<in> set (held k). vals k x \<noteq> None) \<and>
     length (myHTable k) = 8 \<and>
     increasing (item k) (inorder (rbroot k)) \<and>
     increasing fst (radix_slots k) \<and>
     (\<forall>(i, x) \<in> set (radix_slots k). i = radix_index (item k x))"

record contents =
  c_list :: "int list"
  c_hash :: "int list list"
  c_tree :: "int list"
  c_radix :: "int list"

definition contents_of :: "kernel \<Rightarrow> contents" where
  "contents_of k = \<lparr>c_list = map (item k) (mylist k), c_hash = map (map (item k)) (myHTable k),
     c_tree = map (item k) (inorder (rbroot k)), c_radix = map (\<lambda>(i, x). item k x) (radix_slots k)\<rparr>"

text \<open>What storing a value means for the contents.\<close>

definition spec_store :: "klib \<Rightarrow> int \<Rightarrow> contents \<Rightarrow> contents" where
  "spec_store L v c = c\<lparr>c_list := c_list c @ [v],
     c_hash := (c_hash c)[bucket_of L v := v # c_hash c ! bucket_of L v],
     c_tree := ins_by (\<lambda>w. w) v (c_tree c), c_radix := ins_by radix_index v (c_radix c)\<rparr>"

lemma entry_val_item: "vals k x \<noteq> None \<Longrightarrow> entry_val k x = Inr (item k x)"
  by (auto simp: entry_val_def item_def)

text \<open>A fresh entry.\<close>

definition with_entry :: "int \<Rightarrow> kernel \<Rightarrow> kernel" where
  "with_entry v k = k\<lparr>vals := (vals k)(next_id k \<mapsto> v), next_id := Suc (next_id k)\<rparr>"

lemma new_entry_ok: "kernel_ok k \<Longrightarrow> new_entry v k = Inr (next_id k, with_entry v k)"
  by (simp add: new_entry_def kernel_ok_def with_entry_def)

lemma fresh_not_held: "kernel_ok k \<Longrightarrow> next_id k \<notin> set (held k)"
  unfolding kernel_ok_def by (metis less_irrefl)

lemma fresh_not_slot: "kernel_ok k \<Longrightarrow> (i, next_id k) \<notin> set (radix_slots k)"
  using fresh_not_held [of k] by (force simp: held_def)

lemma item_with_entry:
  "item (with_entry v k) x = (if x = next_id k then v else item k x)"
  by (simp add: item_def with_entry_def)

lemma with_entry_frame [simp]:
  "mylist (with_entry v k) = mylist k" "myHTable (with_entry v k) = myHTable k"
  "rbroot (with_entry v k) = rbroot k" "radix_slots (with_entry v k) = radix_slots k"
  "held (with_entry v k) = held k"
  "vals (with_entry v k) (next_id k) = Some v"
  by (simp_all add: with_entry_def held_def)

lemma map_item_with_entry:
  "next_id k \<notin> set xs \<Longrightarrow> map (item (with_entry v k)) xs = map (item k) xs"
  by (induction xs) (auto simp: item_with_entry)

lemma contents_with_entry:
  assumes "kernel_ok k"
  shows "contents_of (with_entry v k) = contents_of k"
proof -
  have f: "next_id k \<notin> set (held k)" by (rule fresh_not_held [OF assms])
  then have "x \<in> set (myHTable k) \<Longrightarrow> next_id k \<notin> set x" for x
    by (auto simp: held_def)
  then show ?thesis
    using f fresh_not_slot [OF assms] by (auto simp: contents_of_def held_def item_with_entry)
qed

lemma kernel_ok_with_entry:
  assumes "kernel_ok k"
  shows "kernel_ok (with_entry v k)"
proof -
  have f: "next_id k \<notin> set (held k)" by (rule fresh_not_held [OF assms])
  have "increasing (item (with_entry v k)) (inorder (rbroot k))"
  proof -
    have "map (item (with_entry v k)) (inorder (rbroot k)) = map (item k) (inorder (rbroot k))"
      using f by (intro map_item_with_entry) (simp add: held_def)
    then show ?thesis
      using assms increasing_map [of "\<lambda>a. a"] by (metis kernel_ok_def)
  qed
  moreover have "\<forall>(i, x) \<in> set (radix_slots k). i = radix_index (item (with_entry v k) x)"
    using assms fresh_not_slot [OF assms] by (auto simp: kernel_ok_def item_with_entry)
  ultimately show ?thesis
    using assms by (auto simp: kernel_ok_def with_entry_def held_def less_Suc_eq)
qed

section \<open>Each container\<close>

text \<open>Adding a fresh entry to one of the four structures.\<close>

lemma held_fresh:
  assumes "kernel_ok k"
  shows "distinct (next_id k # held (with_entry v k))"
    and "\<forall>x \<in> set (next_id k # held (with_entry v k)). vals (with_entry v k) x \<noteq> None"
proof -
  note ok = kernel_ok_with_entry [OF assms, of v]
  show "distinct (next_id k # held (with_entry v k))"
    using fresh_not_held [OF assms] ok by (simp add: kernel_ok_def)
  show "\<forall>x \<in> set (next_id k # held (with_entry v k)). vals (with_entry v k) x \<noteq> None"
    using ok by (simp add: kernel_ok_def)
qed

lemma kernel_ok_update:
  assumes "kernel_ok k" and "mset (held k') = mset (x # held k) \<or> mset (held k') = mset (held k)"
    and "x \<notin> set (held k)" and "vals k x \<noteq> None"
    and "vals k' = vals k" "next_id k' = next_id k" "alloc_fails k' = alloc_fails k"
    and "length (myHTable k') = length (myHTable k)"
    and "increasing (item k) (inorder (rbroot k'))" and "increasing fst (radix_slots k')"
    and "\<forall>(i, y) \<in> set (radix_slots k'). i = radix_index (item k y)"
  shows "kernel_ok k'"
proof -
  have "item k' = item k" using assms(5) by (simp add: item_def fun_eq_iff)
  moreover have "distinct (held k')"
  proof (cases "mset (held k') = mset (held k)")
    case True
    then show ?thesis using assms(1) mset_eq_imp_distinct_iff by (auto simp: kernel_ok_def)
  next
    case False
    then have "mset (held k') = mset (x # held k)" using assms(2) by simp
    moreover have "distinct (x # held k)" using assms(1,3) by (simp add: kernel_ok_def)
    ultimately show ?thesis using mset_eq_imp_distinct_iff by blast
  qed
  moreover have "set (held k') = set (x # held k) \<or> set (held k') = set (held k)"
    using assms(2) mset_eq_setD by blast
  then have "\<forall>y \<in> set (held k'). vals k y \<noteq> None"
    using assms(1,4) unfolding kernel_ok_def by (metis set_ConsD)
  ultimately show ?thesis
    using assms unfolding kernel_ok_def by metis
qed

lemma mset_concat_update:
  "b < length xss \<Longrightarrow> mset (concat (xss[b := x # xss ! b])) = add_mset x (mset (concat xss))"
proof (induction xss arbitrary: b)
  case (Cons xs xss)
  then show ?case by (cases b) auto
qed simp

lemma store_value_ok:
  assumes "kernel_ok k"
  shows "\<exists>k'. store_value v k = Inr (0, k') \<and> kernel_ok k' \<and>
    contents_of k' = (contents_of k)\<lparr>c_list := c_list (contents_of k) @ [v]\<rparr> \<and>
    seq_out k' = seq_out k"
proof -
  let ?k = "with_entry v k"
  let ?k' = "?k\<lparr>mylist := mylist ?k @ [next_id k]\<rparr>"
  note ok = kernel_ok_with_entry [OF assms, of v] and h = held_fresh [OF assms, of v]
  have "kernel_ok ?k'"
    using ok h by (intro kernel_ok_update [OF ok, of _ "next_id k"])
      (auto simp: held_def kernel_ok_def)
  moreover have "item ?k' = item ?k" by (simp add: item_def fun_eq_iff)
  then have "contents_of ?k' = (contents_of ?k)\<lparr>c_list := c_list (contents_of ?k) @ [v]\<rparr>"
    by (simp add: contents_of_def item_with_entry)
  ultimately show ?thesis
    using new_entry_ok [OF assms, of v] contents_with_entry [OF assms, of v]
    by (simp add: store_value_def with_entry_def)
qed

lemma store_hash_value_ok:
  assumes "kernel_ok k" and "klib_laws L"
  shows "\<exists>k'. store_hash_value L v k = Inr (0, k') \<and> kernel_ok k' \<and>
    contents_of k' = (contents_of k)\<lparr>c_hash := (c_hash (contents_of k))
      [bucket_of L v := v # c_hash (contents_of k) ! bucket_of L v]\<rparr> \<and> seq_out k' = seq_out k"
proof -
  let ?k = "with_entry v k" and ?b = "bucket_of L v"
  let ?k' = "?k\<lparr>myHTable := (myHTable ?k)[?b := next_id k # myHTable ?k ! ?b]\<rparr>"
  note ok = kernel_ok_with_entry [OF assms(1), of v] and h = held_fresh [OF assms(1), of v]
  have b: "?b < length (myHTable k)" using assms by (simp add: klib_laws_def kernel_ok_def)
  have "mset (held ?k') = mset (next_id k # held ?k)"
    using mset_concat_update [OF b, of "next_id k"] by (simp add: held_def)
  then have "kernel_ok ?k'"
    using ok h by (intro kernel_ok_update [OF ok, of _ "next_id k"])
      (auto simp: kernel_ok_def)
  moreover have "item ?k' = item ?k" by (simp add: item_def fun_eq_iff)
  then have "contents_of ?k' = (contents_of ?k)\<lparr>c_hash := (c_hash (contents_of ?k))
      [?b := v # c_hash (contents_of ?k) ! ?b]\<rparr>"
    using b by (simp add: contents_of_def item_with_entry map_update)
  ultimately show ?thesis
    using new_entry_ok [OF assms(1), of v] contents_with_entry [OF assms(1), of v]
    by (simp add: store_hash_value_def Let_def with_entry_def)
qed

text \<open>The walk down the red-black tree is sorted insertion into its inorder sequence.\<close>

lemma rb_link_ok:
  assumes "increasing (item k) (inorder t)" and "\<forall>y \<in> set (inorder t). vals k y \<noteq> None"
  shows "\<exists>r. rb_link k x (item k x) t = Inr r \<and>
    (case r of
       None \<Rightarrow> item k x \<in> item k ` set (inorder t)
     | Some t' \<Rightarrow> inorder t' = ins_by (item k) x (inorder t) \<and> item k x \<notin> item k ` set (inorder t))"
  using assms
proof (induction t)
  case (Node l y r)
  have l: "increasing (item k) (inorder l)" "\<forall>y \<in> set (inorder l). vals k y \<noteq> None"
    and r: "increasing (item k) (inorder r)" "\<forall>y \<in> set (inorder r). vals k y \<noteq> None"
    and y: "entry_val k y = Inr (item k y)"
    and lr: "\<forall>a \<in> set (inorder l). item k a < item k y" "\<forall>a \<in> set (inorder r). item k y < item k a"
    using Node.prems by (auto simp: sorted_wrt_append entry_val_item)
  consider "item k x < item k y" | "item k y < item k x" | "item k x = item k y" by linarith
  then show ?case
  proof cases
    case 1
    obtain t' where "rb_link k x (item k x) l = Inr t'"
      "case t' of None \<Rightarrow> item k x \<in> item k ` set (inorder l)
       | Some t' \<Rightarrow> inorder t' = ins_by (item k) x (inorder l) \<and> item k x \<notin> item k ` set (inorder l)"
      using Node.IH(1) [OF l] by blast
    then show ?thesis
      using 1 y lr ins_by_left [OF Node.prems(1) [simplified] 1]
      by (cases t') fastforce+
  next
    case 2
    obtain t' where "rb_link k x (item k x) r = Inr t'"
      "case t' of None \<Rightarrow> item k x \<in> item k ` set (inorder r)
       | Some t' \<Rightarrow> inorder t' = ins_by (item k) x (inorder r) \<and> item k x \<notin> item k ` set (inorder r)"
      using Node.IH(2) [OF r] by blast
    then show ?thesis
      using 2 y lr ins_by_right [OF Node.prems(1) [simplified] 2]
      by (cases t') fastforce+
  next
    case 3
    then show ?thesis using y by auto
  qed
qed simp

lemma held_parts: "held k = (mylist k @ concat (myHTable k)) @ inorder (rbroot k) @ map snd (radix_slots k)"
  by (simp add: held_def)

lemma mset_ins_by: "f x \<notin> f ` set ys \<Longrightarrow> mset (ins_by f x ys) = add_mset x (mset ys)"
  by (induction ys) auto

lemma rb_tree_insert_ok:
  assumes "kernel_ok k" and "klib_laws L"
  shows "\<exists>k'. rb_tree_insert L v k = Inr (0, k') \<and> kernel_ok k' \<and>
    contents_of k' = (contents_of k)\<lparr>c_tree := ins_by (\<lambda>w. w) v (c_tree (contents_of k))\<rparr> \<and>
    seq_out k' = seq_out k"
proof -
  let ?k = "with_entry v k" and ?x = "next_id k"
  note ok = kernel_ok_with_entry [OF assms(1), of v] and h = held_fresh [OF assms(1), of v]
  have x: "item ?k ?x = v" by (simp add: item_with_entry)
  have inc: "increasing (item ?k) (inorder (rbroot ?k))" using ok by (simp add: kernel_ok_def)
  have live: "\<forall>y \<in> set (inorder (rbroot ?k)). vals ?k y \<noteq> None"
    using h(2) by (simp add: held_def)
  have tree: "c_tree (contents_of ?k) = map (item ?k) (inorder (rbroot ?k))"
    by (simp add: contents_of_def)
  have xv: "entry_val ?k ?x = Inr v" by (simp add: entry_val_def)
  obtain r where r: "rb_link ?k ?x v (rbroot ?k) = Inr r"
    "case r of None \<Rightarrow> v \<in> item ?k ` set (inorder (rbroot ?k))
     | Some t' \<Rightarrow> inorder t' = ins_by (item ?k) ?x (inorder (rbroot ?k)) \<and>
         v \<notin> item ?k ` set (inorder (rbroot ?k))"
    using rb_link_ok [OF inc live, of ?x, unfolded x] by blast
  show ?thesis
  proof (cases r)
    case None
    then have "ins_by (\<lambda>w. w) v (c_tree (contents_of ?k)) = c_tree (contents_of ?k)"
      using r(2) inc tree by (intro ins_by_present) (auto simp: sorted_wrt_map)
    then show ?thesis
      using r None ok xv new_entry_ok [OF assms(1), of v] contents_with_entry [OF assms(1), of v]
      by (simp add: rb_tree_insert_def insert_rb_tree_def with_entry_def)
  next
    case (Some t')
    let ?k' = "?k\<lparr>rbroot := rb_insert_color L ?x t'\<rparr>"
    have ino: "inorder (rbroot ?k') = ins_by (item ?k) ?x (inorder (rbroot ?k))"
      using r(2) Some assms(2) by (simp add: klib_laws_def)
    have "mset (held ?k') = mset (?x # held ?k)"
      using r(2) Some ino x by (simp add: held_def mset_ins_by)
    then have "kernel_ok ?k'"
      using h ino increasing_ins_by [OF inc, of ?x] ok
      by (intro kernel_ok_update [OF ok, of _ ?x]) (auto simp: kernel_ok_def)
    moreover have "item ?k' = item ?k" by (simp add: item_def fun_eq_iff)
    then have "contents_of ?k' =
        (contents_of ?k)\<lparr>c_tree := ins_by (\<lambda>w. w) v (c_tree (contents_of ?k))\<rparr>"
      using ino x map_ins_by [of "item ?k" "\<lambda>w. w" ?x] by (simp add: contents_of_def)
    ultimately show ?thesis
      using r Some xv new_entry_ok [OF assms(1), of v] contents_with_entry [OF assms(1), of v]
      by (simp add: rb_tree_insert_def insert_rb_tree_def with_entry_def)
  qed
qed

text \<open>The radix tree's slots, too.\<close>

lemma radix_tree_insert_slots:
  "radix_tree_insert i x slots = ins_by fst (i, x) slots"
  by (induction i x slots rule: radix_tree_insert.induct) auto

lemma radix_values:
  assumes "\<forall>(i, y) \<in> set slots. i = radix_index (f y)" and "f x = v"
  shows "map (\<lambda>(i, y). f y) (ins_by fst (radix_index v, x) slots) =
    ins_by radix_index v (map (\<lambda>(i, y). f y) slots)"
  using assms by (induction slots) auto

lemma in_set_ins_by: "y \<in> set (ins_by f x ys) \<Longrightarrow> y = x \<or> y \<in> set ys"
  using set_ins_by [of f x ys] by auto

lemma radix_insert_ok:
  assumes "kernel_ok k"
  shows "\<exists>k'. radix_insert v k = Inr (0, k') \<and> kernel_ok k' \<and>
    contents_of k' = (contents_of k)\<lparr>c_radix := ins_by radix_index v (c_radix (contents_of k))\<rparr> \<and>
    seq_out k' = seq_out k"
proof -
  let ?k = "with_entry v k" and ?x = "next_id k"
  let ?slots = "ins_by fst (radix_index v, ?x) (radix_slots ?k)"
  let ?k' = "?k\<lparr>radix_slots := ?slots\<rparr>"
  note ok = kernel_ok_with_entry [OF assms, of v] and h = held_fresh [OF assms, of v]
  have x: "item ?k ?x = v" by (simp add: item_with_entry)
  have inc: "increasing fst (radix_slots ?k)"
    and idx: "\<forall>(i, y) \<in> set (radix_slots ?k). i = radix_index (item ?k y)"
    using ok by (simp_all add: kernel_ok_def)
  have "mset (held ?k') = mset (?x # held ?k) \<or> mset (held ?k') = mset (held ?k)"
  proof (cases "radix_index v \<in> fst ` set (radix_slots ?k)")
    case True
    then show ?thesis using ins_by_present [OF inc, of "(radix_index v, ?x)"] by (simp add: held_def)
  next
    case False
    then show ?thesis
      using mset_ins_by [of fst "(radix_index v, ?x)" "radix_slots ?k"]
      by (simp add: held_def flip: image_mset.compositionality)
  qed
  then have "kernel_ok ?k'"
    using h increasing_ins_by [OF inc] idx x ok in_set_ins_by
    by (intro kernel_ok_update [OF ok, of _ ?x]) (fastforce simp: kernel_ok_def)+
  moreover have "item ?k' = item ?k" by (simp add: item_def fun_eq_iff)
  then have "contents_of ?k' =
      (contents_of ?k)\<lparr>c_radix := ins_by radix_index v (c_radix (contents_of ?k))\<rparr>"
    using radix_values [OF idx x] by (simp add: contents_of_def)
  ultimately show ?thesis
    using new_entry_ok [OF assms, of v] contents_with_entry [OF assms, of v]
    by (simp add: radix_insert_def radix_tree_insert_slots with_entry_def)
qed

lemma store_all_ok:
  assumes "kernel_ok k" and "klib_laws L"
  shows "\<exists>k'. store_all L v k = Inr (0, k') \<and> kernel_ok k' \<and>
    contents_of k' = spec_store L v (contents_of k) \<and> seq_out k' = seq_out k"
proof -
  obtain k1 where 1: "store_value v k = Inr (0, k1)" "kernel_ok k1" "seq_out k1 = seq_out k"
    "contents_of k1 = (contents_of k)\<lparr>c_list := c_list (contents_of k) @ [v]\<rparr>"
    using store_value_ok [OF assms(1)] by blast
  obtain k2 where 2: "store_hash_value L v k1 = Inr (0, k2)" "kernel_ok k2" "seq_out k2 = seq_out k1"
    "contents_of k2 = (contents_of k1)\<lparr>c_hash := (c_hash (contents_of k1))
      [bucket_of L v := v # c_hash (contents_of k1) ! bucket_of L v]\<rparr>"
    using store_hash_value_ok [OF 1(2) assms(2)] by blast
  obtain k3 where 3: "rb_tree_insert L v k2 = Inr (0, k3)" "kernel_ok k3" "seq_out k3 = seq_out k2"
    "contents_of k3 = (contents_of k2)\<lparr>c_tree := ins_by (\<lambda>w. w) v (c_tree (contents_of k2))\<rparr>"
    using rb_tree_insert_ok [OF 2(2) assms(2)] by blast
  obtain k4 where 4: "radix_insert v k3 = Inr (0, k4)" "kernel_ok k4" "seq_out k4 = seq_out k3"
    "contents_of k4 = (contents_of k3)\<lparr>c_radix := ins_by radix_index v (c_radix (contents_of k3))\<rparr>"
    using radix_insert_ok [OF 3(2)] by blast
  show ?thesis
    using 1 2 3 4 by (simp add: store_all_def spec_store_def)
qed

section \<open>Sequences of values\<close>

definition stored :: "klib \<Rightarrow> int \<Rightarrow> kernel \<Rightarrow> kernel res" where
  "stored L v k = bind_res (store_all L v k) (\<lambda>(_, k). Inr k)"

interpretation stores: step_refines "stored L" "\<lambda>k. kernel_ok k \<and> klib_laws L" "\<lambda>v. True"
  contents_of "spec_store L" for L
proof unfold_locales
  fix k :: kernel and v :: int and t :: kernel
  assume ok: "kernel_ok k \<and> klib_laws L"
  then obtain k' where k': "store_all L v k = Inr (0, k')" "kernel_ok k'"
    "contents_of k' = spec_store L v (contents_of k)"
    using store_all_ok [of k L v] by blast
  then show "\<exists>t. stored L v k = Inr t \<and> kernel_ok t \<and> klib_laws L"
    using ok by (simp add: stored_def)
  show "stored L v k = Inr t \<Longrightarrow> contents_of t = spec_store L v (contents_of k)"
    using k' by (simp add: stored_def)
qed

text \<open>The numbers of a parameter all of whose fields are empty or parse.\<close>

fun numbers :: "klib \<Rightarrow> string list \<Rightarrow> int list" where
  "numbers L [] = []"
| "numbers L (p # ps) =
     (if p = [] then numbers L ps
      else case kstrtoint L p of Inl e \<Rightarrow> [] | Inr v \<Rightarrow> v # numbers L ps)"

definition parses :: "klib \<Rightarrow> string \<Rightarrow> bool" where
  "parses L s = list_all (\<lambda>p. p = [] \<or> (case kstrtoint L p of Inl _ \<Rightarrow> False | Inr _ \<Rightarrow> True)) (strsep_fields s)"

lemma parse_fields_run:
  assumes "list_all (\<lambda>p. p = [] \<or> (case kstrtoint L p of Inl _ \<Rightarrow> False | Inr _ \<Rightarrow> True)) ps"
    and "kernel_ok k" and "klib_laws L"
  shows "parse_fields L ps 0 k =
    bind_res (run_events (stored L) (numbers L ps) k) (\<lambda>k'. Inr (0, k'))"
  using assms
proof (induction ps arbitrary: k)
  case (Cons p ps)
  show ?case
  proof (cases "p = []")
    case False
    then obtain v where v: "kstrtoint L p = Inr v"
      using Cons.prems(1) by (auto split: sum.splits)
    obtain k' where k': "store_all L v k = Inr (0, k')" "kernel_ok k'"
      using store_all_ok [OF Cons.prems(2,3)] by blast
    then show ?thesis
      using Cons.IH [OF _ k'(2) Cons.prems(3)] Cons.prems(1) False v by (simp add: stored_def)
  qed (use Cons in simp)
qed simp

lemma seq_out_stores:
  assumes "kernel_ok k" and "klib_laws L" and "run_events (stored L) vs k = Inr k'"
  shows "seq_out k' = seq_out k"
  using assms
proof (induction vs arbitrary: k)
  case (Cons v vs)
  obtain k1 where "store_all L v k = Inr (0, k1)" "kernel_ok k1" "seq_out k1 = seq_out k"
    using store_all_ok [OF Cons.prems(1,2)] by blast
  then show ?case using Cons by (simp add: stored_def)
qed simp

lemma kernel_ok_empty: "kernel_ok (empty_kernel (\<lambda>_. False))"
  by (simp add: kernel_ok_def empty_kernel_def held_def)

lemma kernel_ok_count: "kernel_ok k \<Longrightarrow> kernel_ok (k\<lparr>next_id := Suc (next_id k)\<rparr>)"
  by (auto simp: kernel_ok_def held_def item_def less_Suc_eq)

lemma contents_frame [simp]:
  "contents_of (k\<lparr>next_id := n\<rparr>) = contents_of k" "contents_of (k\<lparr>seq_out := s\<rparr>) = contents_of k"
  by (simp_all add: contents_of_def item_def fun_eq_iff)

lemma parse_params_ok:
  assumes "parses L s" and "kernel_ok k" and "klib_laws L"
  shows "\<exists>k'. parse_params L s k = Inr (0, k') \<and> kernel_ok k' \<and> seq_out k' = seq_out k \<and>
    contents_of k' = fold (spec_store L) (numbers L (strsep_fields s)) (contents_of k)"
proof -
  let ?k = "k\<lparr>next_id := Suc (next_id k)\<rparr>"
  have ok: "kernel_ok ?k" by (rule kernel_ok_count [OF assms(2)])
  obtain k' where k': "run_events (stored L) (numbers L (strsep_fields s)) ?k = Inr k'" "kernel_ok k'"
    "contents_of k' = fold (spec_store L) (numbers L (strsep_fields s)) (contents_of ?k)"
    using stores.run_refines [of ?k L "numbers L (strsep_fields s)"] ok assms(3) by (auto simp: list_all_iff)
  moreover have "\<not> alloc_fails k (next_id k)" using assms(2) by (simp add: kernel_ok_def)
  ultimately show ?thesis
    using parse_fields_run [OF assms(1) [unfolded parses_def] ok assms(3)]
      seq_out_stores [OF ok assms(3) k'(1)]
    by (simp add: parse_params_def)
qed

section \<open>The contents in closed form\<close>

lemma c_list_stores: "c_list (fold (spec_store L) vs c) = c_list c @ vs"
  by (induction vs arbitrary: c) (auto simp: spec_store_def)

lemma c_hash_stores:
  "\<forall>v. bucket_of L v < length (c_hash c) \<Longrightarrow> b < length (c_hash c) \<Longrightarrow>
   c_hash (fold (spec_store L) vs c) ! b =
     rev (filter (\<lambda>v. bucket_of L v = b) vs) @ c_hash c ! b"
  by (induction vs arbitrary: c) (auto simp: spec_store_def nth_list_update)

lemma length_c_hash_stores: "length (c_hash (fold (spec_store L) vs c)) = length (c_hash c)"
  by (induction vs arbitrary: c) (auto simp: spec_store_def)

lemma c_tree_stores: "c_tree (fold (spec_store L) vs c) = fold (ins_by (\<lambda>w. w)) vs (c_tree c)"
  by (induction vs arbitrary: c) (auto simp: spec_store_def)

lemma c_radix_stores: "c_radix (fold (spec_store L) vs c) = fold (ins_by radix_index) vs (c_radix c)"
  by (induction vs arbitrary: c) (auto simp: spec_store_def)

lemma increasing_fold: "increasing f ys \<Longrightarrow> increasing f (fold (ins_by f) vs ys)"
  by (induction vs arbitrary: ys) (auto simp: increasing_ins_by)

lemma key_fold: "increasing f ys \<Longrightarrow>
  f ` set (fold (ins_by f) vs ys) = f ` set vs \<union> f ` set ys"
  by (induction vs arbitrary: ys) (auto simp: increasing_ins_by key_ins_by)

lemma set_fold_ins_by: "set (fold (ins_by f) vs ys) \<subseteq> set vs \<union> set ys"
proof (induction vs arbitrary: ys)
  case (Cons v vs)
  then show ?case using Cons [of "ins_by f v ys"] set_ins_by [of f v ys] by auto
qed simp

lemma increasing_unique:
  assumes "increasing f xs" and "increasing f ys" and "f ` set xs = f ` set ys"
    and "inj_on f (set xs \<union> set ys)"
  shows "xs = ys"
proof -
  have "sorted_wrt (<) (map f xs)" "sorted_wrt (<) (map f ys)"
    using assms(1,2) by (simp_all add: sorted_wrt_map)
  then have "map f xs = map f ys"
    using assms(3) strict_sorted_equal by (metis list.set_map)
  then show ?thesis using assms(4) by (simp add: inj_on_map_eq_map)
qed

lemma tree_of_values: "fold (ins_by (\<lambda>w. w)) vs [] = sorted_list_of_set (set vs)"
  for vs :: "int list"
proof (rule increasing_unique [of "\<lambda>w. w"])
  show "increasing (\<lambda>w. w) (fold (ins_by (\<lambda>w. w)) vs [])" by (rule increasing_fold) simp
  show "increasing (\<lambda>w. w) (sorted_list_of_set (set vs))" by simp
  show "(\<lambda>w. w) ` set (fold (ins_by (\<lambda>w. w)) vs []) = (\<lambda>w. w) ` set (sorted_list_of_set (set vs))"
    using key_fold [of "\<lambda>w. w" "[]" vs] by simp
qed simp

text \<open>As indices, the negative values come after all others, in their own order.\<close>

definition index_order :: "int set \<Rightarrow> int list" where
  "index_order vs = filter (\<lambda>v. 0 \<le> v) (sorted_list_of_set vs) @
     filter (\<lambda>v. v < 0) (sorted_list_of_set vs)"

lemma uint_radix_index:
  "in_int v \<Longrightarrow> uint (radix_index v) = (if v < 0 then v + 2 ^ 64 else v)"
proof -
  assume v: "in_int v"
  show ?thesis
  proof (cases "v < 0")
    case True
    have "v mod 2 ^ 64 = (v + 2 ^ 64) mod 2 ^ 64" by simp
    also have "\<dots> = v + 2 ^ 64" using True v by (intro mod_pos_pos_trivial) (auto simp: in_int_def)
    finally show ?thesis using True by (simp add: radix_index_def uint_word_of_int)
  next
    case False
    then show ?thesis using v by (simp add: radix_index_def uint_word_of_int in_int_def)
  qed
qed

lemma radix_index_less:
  assumes "in_int v" and "in_int w"
  shows "radix_index v < radix_index w \<longleftrightarrow>
    (if 0 \<le> v then w < 0 \<or> v < w else w < 0 \<and> v < w)"
  using assms by (auto simp: word_less_def uint_radix_index) (auto simp: in_int_def)

lemma radix_index_inj: "in_int v \<Longrightarrow> in_int w \<Longrightarrow> radix_index v = radix_index w \<Longrightarrow> v = w"
  by (metis radix_index_less linorder_neq_iff not_less)

lemma increasing_index_order:
  assumes "finite vs" and "\<forall>v \<in> vs. in_int v"
  shows "increasing radix_index (index_order vs)"
proof -
  let ?S = "sorted_list_of_set vs"
  have "increasing (\<lambda>v. v) ?S" by simp
  then have S: "increasing (\<lambda>v. v) (filter P ?S)" for P by (rule sorted_wrt_filter)
  have "increasing radix_index (filter (\<lambda>v. 0 \<le> v) ?S)"
    using assms by (intro sorted_wrt_mono_rel [OF _ S]) (auto simp: radix_index_less)
  moreover have "increasing radix_index (filter (\<lambda>v. v < 0) ?S)"
    using assms by (intro sorted_wrt_mono_rel [OF _ S]) (auto simp: radix_index_less)
  ultimately show ?thesis
    using assms by (auto simp: index_order_def sorted_wrt_append radix_index_less)
qed

lemma set_index_order: "finite vs \<Longrightarrow> set (index_order vs) = vs"
  by (auto simp: index_order_def)

lemma radix_of_values:
  assumes "\<forall>v \<in> set vs. in_int v"
  shows "fold (ins_by radix_index) vs [] = index_order (set vs)"
proof (rule increasing_unique [of radix_index])
  show "increasing radix_index (fold (ins_by radix_index) vs [])" by (rule increasing_fold) simp
  show "increasing radix_index (index_order (set vs))" using assms by (intro increasing_index_order) auto
  show "radix_index ` set (fold (ins_by radix_index) vs []) = radix_index ` set (index_order (set vs))"
    using key_fold [of radix_index "[]" vs] by (simp add: set_index_order)
  have "set (fold (ins_by radix_index) vs []) \<union> set (index_order (set vs)) \<subseteq> set vs"
    using set_fold_ins_by [of radix_index vs "[]"] by (simp add: set_index_order)
  then show "inj_on radix_index (set (fold (ins_by radix_index) vs []) \<union> set (index_order (set vs)))"
    using assms by (intro inj_onI) (auto intro: radix_index_inj)
qed

end
