(* ===== verification/Containers_Show.thy ===== *)
theory Containers_Show
  imports Containers_Correct
begin

text \<open>
  The properties of the container module: the text of the proc file as a function of the
  parameter, the errors of the parameter, and the defects of the taking down.
\<close>

section \<open>Printing\<close>

definition text_line :: "string \<Rightarrow> int list \<Rightarrow> string" where
  "text_line title vs = title @ concat (map (\<lambda>v. dec v @ '' '') vs) @ [newline]"

lemma print_entries_ok:
  "\<forall>x \<in> set xs. vals k x \<noteq> None \<Longrightarrow>
   print_entries xs k =
     Inr (k\<lparr>seq_out := seq_out k @ concat (map (\<lambda>v. dec v @ '' '') (map (item k) xs))\<rparr>)"
proof (induction xs arbitrary: k)
  case (Cons x xs)
  have "item (seq_printf s k) = item k" for s by (simp add: seq_printf_def item_def fun_eq_iff)
  moreover have "\<forall>y \<in> set xs. vals (seq_printf s k) y \<noteq> None" for s
    using Cons.prems by (simp add: seq_printf_def)
  ultimately show ?case
    using Cons by (simp add: entry_val_item) (simp add: seq_printf_def)
qed simp

lemma item_seq_printf [simp]: "item (seq_printf s k) = item k" "item (k\<lparr>seq_out := s\<rparr>) = item k"
  by (simp_all add: seq_printf_def item_def fun_eq_iff)

lemma increasing_distinct: "increasing f ys \<Longrightarrow> distinct (map f ys)"
  by (induction ys) auto

lemma print_slots_ok:
  assumes "distinct (map fst (radix_slots k))"
  shows "set sl \<subseteq> set (radix_slots k) \<Longrightarrow> \<forall>x \<in> set (map snd sl). vals k x \<noteq> None \<Longrightarrow>
    print_slots (map fst sl) k =
      Inr (True, k\<lparr>seq_out := seq_out k @ concat (map (\<lambda>v. dec v @ '' '') (map (item k) (map snd sl)))\<rparr>)"
  using assms
proof (induction sl arbitrary: k)
  case (Cons p sl)
  let ?k = "seq_printf (dec (item k (snd p)) @ '' '') k"
  have "map_of (radix_slots k) (fst p) = Some (snd p)" using Cons.prems by (cases p) simp
  moreover have "print_slots (map fst sl) ?k =
      Inr (True, ?k\<lparr>seq_out := seq_out ?k @ concat (map (\<lambda>v. dec v @ '' '') (map (item ?k) (map snd sl)))\<rparr>)"
    using Cons.prems by (intro Cons.IH) (auto simp: seq_printf_def)
  ultimately show ?case
    using Cons.prems(2) by (simp add: entry_val_item) (simp add: seq_printf_def)
qed simp

lemma show_containers_ok:
  assumes "kernel_ok k"
  shows "show_containers k = Inr (True, k\<lparr>seq_out := seq_out k @
    text_line ''Linked List = '' (c_list (contents_of k)) @
    text_line ''Hash Table = '' (concat (c_hash (contents_of k))) @
    text_line ''R-B Tree = '' (c_tree (contents_of k)) @
    text_line ''Radix Tree = '' (c_radix (contents_of k))\<rparr>)"
proof -
  have live: "\<forall>x \<in> set (mylist k). vals k x \<noteq> None" "\<forall>x \<in> set (concat (myHTable k)). vals k x \<noteq> None"
    "\<forall>x \<in> set (inorder (rbroot k)). vals k x \<noteq> None" "\<forall>x \<in> set (map snd (radix_slots k)). vals k x \<noteq> None"
    using assms by (simp_all add: kernel_ok_def held_def)
  have "distinct (map fst (radix_slots k))"
    using assms increasing_distinct [of fst "radix_slots k"] by (simp add: kernel_ok_def)
  then have slots: "print_slots (map fst (radix_slots k)) (k\<lparr>seq_out := t\<rparr>) = Inr (True, k\<lparr>seq_out := t @
      concat (map (\<lambda>v. dec v @ '' '') (map (item k) (map snd (radix_slots k))))\<rparr>)" for t
    using print_slots_ok [of "k\<lparr>seq_out := t\<rparr>" "radix_slots k"] live(4) by simp
  show ?thesis
    using live slots
    by (simp add: show_containers_def print_entries_ok seq_printf_def contents_of_def text_line_def
        map_concat comp_def case_prod_unfold)
qed

section \<open>The text of the proc file\<close>

lemma numbers_in_int: "klib_laws L \<Longrightarrow> v \<in> set (numbers L ps) \<Longrightarrow> in_int v"
proof (induction ps)
  case (Cons p ps)
  then show ?case
    by (auto simp: in_int_def klib_laws_def split: if_splits sum.splits)
qed simp

lemma contents_empty: "contents_of (empty_kernel fs) =
  \<lparr>c_list = [], c_hash = replicate 8 [], c_tree = [], c_radix = []\<rparr>"
  by (simp add: contents_of_def empty_kernel_def)

lemma contents_of_numbers:
  assumes "klib_laws L" and "contents_of k = fold (spec_store L) vs (contents_of (empty_kernel fs))"
    and "\<forall>v \<in> set vs. in_int v"
  shows "c_list (contents_of k) = vs"
    and "c_hash (contents_of k) = map (\<lambda>b. rev (filter (\<lambda>v. bucket_of L v = b) vs)) [0..<8]"
    and "c_tree (contents_of k) = sorted_list_of_set (set vs)"
    and "c_radix (contents_of k) = index_order (set vs)"
proof -
  have b: "bucket_of L v < 8" for v using assms(1) by (simp add: klib_laws_def)
  show "c_list (contents_of k) = vs"
    by (simp add: assms(2) c_list_stores contents_empty)
  show "c_hash (contents_of k) = map (\<lambda>b. rev (filter (\<lambda>v. bucket_of L v = b) vs)) [0..<8]"
    using b by (intro nth_equalityI)
      (simp_all add: assms(2) length_c_hash_stores c_hash_stores contents_empty)
  show "c_tree (contents_of k) = sorted_list_of_set (set vs)"
    by (simp add: assms(2) c_tree_stores contents_empty tree_of_values)
  show "c_radix (contents_of k) = index_order (set vs)"
    using assms(3) by (simp add: assms(2) c_radix_stores contents_empty radix_of_values)
qed

text \<open>
  C21. For a parameter whose fields are empty or numbers, and with memory for the entries, the
  proc file shows the numbers in order of arrival, then by hash bucket, the latest first, then
  increasing without duplicates, then without duplicates and with the negative ones last (as the radix tree's
  unsigned index puts them).
\<close>

theorem proj2_show_text:
  assumes "klib_laws L" and "parses L s"
  shows "let vs = numbers L (strsep_fields s) in
    \<exists>k. show_parsed L s (empty_kernel (\<lambda>_. False)) = Inr (0, k) \<and>
      seq_out k =
        text_line ''Linked List = '' vs @
        text_line ''Hash Table = '' (concat (map (\<lambda>b. rev (filter (\<lambda>v. bucket_of L v = b) vs)) [0..<8])) @
        text_line ''R-B Tree = '' (sorted_list_of_set (set vs)) @
        text_line ''Radix Tree = '' (index_order (set vs))"
proof -
  let ?vs = "numbers L (strsep_fields s)"
  obtain k where k: "parse_params L s (empty_kernel (\<lambda>_. False)) = Inr (0, k)" "kernel_ok k"
    "seq_out k = []" "contents_of k = fold (spec_store L) ?vs (contents_of (empty_kernel (\<lambda>_. False)))"
    using parse_params_ok [OF assms(2) kernel_ok_empty assms(1)] by (auto simp: empty_kernel_def)
  have "\<forall>v \<in> set ?vs. in_int v" using numbers_in_int [OF assms(1)] by blast
  note c = contents_of_numbers [OF assms(1) k(4) this]
  show ?thesis
    using k(1,3) show_containers_ok [OF k(2)] by (simp add: show_parsed_def c)
qed

text \<open>A concrete kernel side.\<close>

fun spine :: "nat list \<Rightarrow> nat tree" where
  "spine [] = Leaf"
| "spine (x # xs) = Node Leaf x (spine xs)"

lemma inorder_spine [simp]: "inorder (spine xs) = xs"
  by (induction xs) auto

definition sample_klib :: klib where
  "sample_klib = \<lparr>kstrtoint = sample_kstrtoint, bucket_of = (\<lambda>v. nat (v mod 8)),
     rb_insert_color = (\<lambda>x t. t), rb_erase = (\<lambda>x t. spine (remove1 x (inorder t)))\<rparr>"

lemma sample_klib_laws: "klib_laws sample_klib"
  by (auto simp: klib_laws_def sample_klib_def sample_kstrtoint_def Let_def nat_less_iff
      split: option.splits if_splits)

lemma numbers_sample:
  "numbers sample_klib (strsep_fields ''3,-1,,3'') = [3, -1, 3]" "parses sample_klib ''3,-1,,3''"
  by (simp_all add: parses_def sample_klib_def sample_kstrtoint_def digits_value_def)

lemma sample_sorted: "sorted_list_of_set {3, -1, 3 :: int} = [-1, 3]"
  using sorted_list_of_set_sort_remdups [of "[3, -1, 3 :: int]"]
  by (simp del: sorted_list_of_set_insert_remove)

lemma sample_buckets [simp]: "bucket_of sample_klib v = nat (v mod 8)"
  by (simp add: sample_klib_def)

theorem proj2_show_text_witness:
  "\<exists>k. show_parsed sample_klib ''3,-1,,3'' (empty_kernel (\<lambda>_. False)) = Inr (0, k) \<and>
      seq_out k =
        text_line ''Linked List = '' [3, -1, 3] @
        text_line ''Hash Table = '' [3, 3, -1] @
        text_line ''R-B Tree = '' [-1, 3] @
        text_line ''Radix Tree = '' [3, -1]"
  using proj2_show_text [OF sample_klib_laws numbers_sample(2), unfolded numbers_sample(1)]
  by (simp add: index_order_def Let_def upt_rec sample_sorted del: sorted_list_of_set_insert_remove)

section \<open>Errors of the parameter\<close>

text \<open>
  A parameter that is missing gives -1; one whose first non-empty field is not a number
  gives the error of \<open>kstrtoint\<close>, prints nothing and leaves nothing allocated.
\<close>

theorem proj2_show_bad_parameter:
  assumes "klib_laws L" and "dropWhile (\<lambda>p. p = []) (strsep_fields s) = p # ps"
    and "kstrtoint L p = Inl e"
  shows "proj2_proc_show L None (empty_kernel fails) =
      Inr (-1, (empty_kernel fails)\<lparr>next_id := 1\<rparr>) \<and>
    proj2_proc_show L (Some s) (empty_kernel (\<lambda>_. False)) =
      Inr (e, (empty_kernel (\<lambda>_. False))\<lparr>next_id := 2\<rparr>) \<and> e \<noteq> 0"
proof -
  have e: "e \<noteq> 0" using assms(1,3) by (auto simp: klib_laws_def)
  have skip: "parse_fields L fs err k = parse_fields L (dropWhile (\<lambda>p. p = []) fs) err k" for fs err k
    by (induction fs) auto
  have "p \<noteq> []" using assms(2) hd_dropWhile [of "\<lambda>p. p = []" "strsep_fields s"] by auto
  then have pf: "parse_fields L (strsep_fields s) 0 k = Inr (e, k)" for k
    using assms(2,3) by (subst skip) simp
  have "cleanup L ((empty_kernel (\<lambda>_. False))\<lparr>next_id := n\<rparr>) =
      Inr ((empty_kernel (\<lambda>_. False))\<lparr>next_id := n\<rparr>)" for n
    by (simp add: cleanup_def destroy_linked_list_and_free_def remove_hash_table_def
        rb_tree_remove_def radix_remove_def empty_kernel_def)
  then show ?thesis
    using pf e
    by (simp add: proj2_proc_show_def parse_params_def empty_kernel_def numeral_2_eq_2)
qed

theorem proj2_show_bad_parameter_witness:
  "proj2_proc_show sample_klib None (empty_kernel (\<lambda>_. True)) =
      Inr (-1, (empty_kernel (\<lambda>_. True))\<lparr>next_id := 1\<rparr>) \<and>
    proj2_proc_show sample_klib (Some '',x,1'') (empty_kernel (\<lambda>_. False)) =
      Inr (-22, (empty_kernel (\<lambda>_. False))\<lparr>next_id := 2\<rparr>) \<and> (-22 :: int) \<noteq> 0"
  by (rule proj2_show_bad_parameter [OF sample_klib_laws, where p = "''x''" and ps = "[''1'']"])
    (simp_all add: sample_klib_def sample_kstrtoint_def digits_value_def)

section \<open>Taking down\<close>

lemma free_each_ok:
  "distinct xs \<Longrightarrow> \<forall>x \<in> set xs. vals k x \<noteq> None \<Longrightarrow>
   free_each xs k = Inr (k\<lparr>vals := (\<lambda>x. if x \<in> set xs then None else vals k x)\<rparr>)"
proof (induction xs arbitrary: k)
  case (Cons x xs)
  have eq: "(\<lambda>y. if y \<in> set xs then None else ((vals k)(x := None)) y) =
      (\<lambda>y. if y \<in> set (x # xs) then None else vals k y)"
    by auto
  have "free_each xs (k\<lparr>vals := (vals k)(x := None)\<rparr>) =
      Inr (k\<lparr>vals := (\<lambda>y. if y \<in> set xs then None else ((vals k)(x := None)) y)\<rparr>)"
    using Cons.prems by (subst Cons.IH) (auto cong: if_cong)
  then show ?case using Cons.prems unfolding eq by (simp add: kfree_def)
qed simp

definition lists_down :: "kernel \<Rightarrow> kernel res" where
  "lists_down k = bind_res (destroy_linked_list_and_free k) remove_hash_table"

lemma lists_down_ok:
  assumes "kernel_ok k"
  shows "lists_down k = Inr (k\<lparr>mylist := [], myHTable := replicate 8 [],
    vals := (\<lambda>x. if x \<in> set (mylist k) \<union> set (concat (myHTable k)) then None else vals k x)\<rparr>)"
proof -
  have d: "distinct (mylist k)" "distinct (concat (myHTable k))"
    "set (mylist k) \<inter> set (concat (myHTable k)) = {}"
    "\<forall>x \<in> set (mylist k). vals k x \<noteq> None" "\<forall>x \<in> set (concat (myHTable k)). vals k x \<noteq> None"
    using assms by (auto simp: kernel_ok_def held_def)
  let ?k1 = "k\<lparr>mylist := [], vals := (\<lambda>x. if x \<in> set (mylist k) then None else vals k x)\<rparr>"
  have 1: "destroy_linked_list_and_free k = Inr ?k1"
    using free_each_ok [OF d(1), of "k\<lparr>mylist := []\<rparr>"] d(4)
    by (simp add: destroy_linked_list_and_free_def cong: if_cong)
  have "\<forall>x \<in> set (concat (myHTable k)). vals (?k1\<lparr>myHTable := replicate 8 []\<rparr>) x \<noteq> None"
    using d(3,5) by auto
  then show ?thesis
    using free_each_ok [OF d(2), of "?k1\<lparr>myHTable := replicate 8 []\<rparr>"]
    by (simp add: lists_down_def 1 remove_hash_table_def fun_eq_iff)
qed

text \<open>
  The list and the hash table are taken down without a double free or a use of a freed
  entry: both are empty, their entries are freed and no other entry is.
\<close>

theorem proj2_lists_freed:
  assumes "kernel_ok k"
  shows "\<exists>k'. bind_res (destroy_linked_list_and_free k) remove_hash_table = Inr k' \<and>
    mylist k' = [] \<and> concat (myHTable k') = [] \<and> rbroot k' = rbroot k \<and>
    radix_slots k' = radix_slots k \<and>
    (\<forall>x. vals k' x = (if x \<in> set (mylist k @ concat (myHTable k)) then None else vals k x))"
  using lists_down_ok [OF assms] by (simp add: lists_down_def)

lemma sample_kernel:
  "\<exists>k. parse_params sample_klib ''3,-1,,3'' (empty_kernel (\<lambda>_. False)) = Inr (0, k) \<and> kernel_ok k"
  using parse_params_ok [OF numbers_sample(2) kernel_ok_empty sample_klib_laws] by blast

theorem proj2_lists_freed_witness:
  "\<exists>k k'. parse_params sample_klib ''3,-1,,3'' (empty_kernel (\<lambda>_. False)) = Inr (0, k) \<and>
    bind_res (destroy_linked_list_and_free k) remove_hash_table = Inr k' \<and>
    mylist k' = [] \<and> concat (myHTable k') = [] \<and> rbroot k' = rbroot k \<and>
    radix_slots k' = radix_slots k \<and>
    (\<forall>x. vals k' x = (if x \<in> set (mylist k @ concat (myHTable k)) then None else vals k x))"
  using sample_kernel proj2_lists_freed by blast

text \<open>Red-black removal.\<close>

lemma rb_tree_remove_uaf:
  assumes "kernel_ok k"
  shows "rb_tree_remove L k = (if rbroot k = Leaf then Inr k else Inl UseAfterFree)"
proof (cases "inorder (rbroot k)")
  case Nil
  then show ?thesis by (cases "rbroot k") (auto simp: rb_tree_remove_def)
next
  case (Cons x xs)
  then obtain n where "size (rbroot k) = Suc n" and ne: "rbroot k \<noteq> Leaf"
    by (cases "rbroot k") auto
  moreover have "vals k x \<noteq> None" using assms Cons by (simp add: kernel_ok_def held_def)
  ultimately show ?thesis by (simp add: rb_tree_remove_def Cons kfree_def rb_next_def)
qed

lemma kernel_ok_lists_down: "kernel_ok k \<Longrightarrow> lists_down k = Inr k' \<Longrightarrow> kernel_ok k'"
proof -
  assume k: "kernel_ok k" and "lists_down k = Inr k'"
  then have k': "k' = k\<lparr>mylist := [], myHTable := replicate 8 [],
      vals := (\<lambda>x. if x \<in> set (mylist k) \<union> set (concat (myHTable k)) then None else vals k x)\<rparr>"
    using lists_down_ok [OF k] by simp
  have disj: "x \<notin> set (mylist k) \<union> set (concat (myHTable k))"
    if "x \<in> set (inorder (rbroot k) @ map snd (radix_slots k))" for x
    using k that by (auto simp: kernel_ok_def held_def)
  have it: "item k' x = item k x" if "x \<in> set (inorder (rbroot k) @ map snd (radix_slots k))" for x
    using disj [OF that] by (simp add: k' item_def)
  have "map (item k') (inorder (rbroot k)) = map (item k) (inorder (rbroot k))"
    using it by simp
  then have "increasing (item k') (inorder (rbroot k))"
    using k increasing_map [of "\<lambda>a. a"] by (metis kernel_ok_def)
  moreover have "\<forall>(i, x) \<in> set (radix_slots k). i = radix_index (item k' x)"
    using k it by (force simp: kernel_ok_def)
  moreover have "held k' = inorder (rbroot k) @ map snd (radix_slots k)" by (simp add: k' held_def)
  moreover have "\<forall>x \<in> set (held k'). vals k' x \<noteq> None"
    using calculation(3) disj k by (auto simp: k' kernel_ok_def held_def)
  moreover have "distinct (held k')" using calculation(3) k by (simp add: kernel_ok_def held_def)
  ultimately show "kernel_ok k'"
    using k by (auto simp: k' kernel_ok_def)
qed

lemma cleanup_uaf:
  assumes "kernel_ok k" and "rbroot k \<noteq> Leaf"
  shows "cleanup L k = Inl UseAfterFree"
proof -
  obtain k' where k': "lists_down k = Inr k'" and r: "rbroot k' = rbroot k"
    using lists_down_ok [OF assms(1)] by simp
  have "rb_tree_remove L k' = Inl UseAfterFree"
    using rb_tree_remove_uaf [OF kernel_ok_lists_down [OF assms(1) k']] r assms(2) by simp
  moreover have "cleanup L k = bind_res (lists_down k)
      (\<lambda>k. bind_res (rb_tree_remove L k) (\<lambda>k. Inr (radix_remove k)))"
    by (simp add: cleanup_def lists_down_def bind_res_assoc)
  ultimately show ?thesis using k' by simp
qed

lemma kernel_ok_seq_out [simp]: "kernel_ok (k\<lparr>seq_out := t\<rparr>) = kernel_ok k"
  by (simp add: kernel_ok_def held_def)

text \<open>
  Whenever the parameter holds at least one number, reading the proc file uses a freed
  entry: \<open>rb_tree_remove\<close> frees the first node and then asks \<open>rb_next\<close> for its successor.
\<close>

theorem proj2_show_uses_freed_node:
  assumes "klib_laws L" and "parses L s" and "numbers L (strsep_fields s) \<noteq> []"
  shows "proj2_proc_show L (Some s) (empty_kernel (\<lambda>_. False)) = Inl UseAfterFree"
proof -
  let ?k0 = "(empty_kernel (\<lambda>_. False))\<lparr>next_id := 1\<rparr>" and ?vs = "numbers L (strsep_fields s)"
  have ok0: "kernel_ok ?k0"
    using kernel_ok_count [OF kernel_ok_empty] by (simp add: empty_kernel_def)
  obtain k where k: "parse_params L s ?k0 = Inr (0, k)" "kernel_ok k"
    "contents_of k = fold (spec_store L) ?vs (contents_of ?k0)"
    using parse_params_ok [OF assms(2) ok0 assms(1)] by auto
  have "c_tree (contents_of k) = sorted_list_of_set (set ?vs)"
    by (simp add: k(3) c_tree_stores tree_of_values contents_empty)
  then have "c_tree (contents_of k) \<noteq> []" using assms(3) by simp
  then have "rbroot k \<noteq> Leaf" by (auto simp: contents_of_def)
  then have "cleanup L (k\<lparr>seq_out := t\<rparr>) = Inl UseAfterFree" for t
    using k(2) by (intro cleanup_uaf) simp_all
  then show ?thesis
    using k(1) show_containers_ok [OF k(2)]
    by (simp add: proj2_proc_show_def empty_kernel_def)
qed

theorem proj2_show_uses_freed_node_witness:
  "proj2_proc_show sample_klib (Some ''3,-1,,3'') (empty_kernel (\<lambda>_. False)) = Inl UseAfterFree"
  by (rule proj2_show_uses_freed_node [OF sample_klib_laws numbers_sample(2)])
    (simp only: numbers_sample(1) list.distinct not_False_eq_True)

end
