(* ===== verification/Containers_Log.thy ===== *)
theory Containers_Log
  imports Containers_Show
begin

text \<open>
  Two relatives of the container module: \<open>Project_2/submission/proj2.c\<close>, which prints the
  containers to the kernel log instead of the proc file, and \<open>EX_4/ex4.c\<close>, which only has the
  linked list and does its work when it is loaded.
\<close>

section \<open>The submission: printing to the log\<close>

text \<open>
  The records a test function logs: one, opened by its title and continued by the values. Each
  takes the entries in the order of its iteration.
\<close>

fun entry_texts :: "nat list \<Rightarrow> kernel \<Rightarrow> string res" where
  "entry_texts [] k = Inr []"
| "entry_texts (x # xs) k =
     bind_res (entry_val k x) (\<lambda>v. bind_res (entry_texts xs k) (\<lambda>s. Inr (dec v @ '' '' @ s)))"

definition test_linked_list :: "kernel \<Rightarrow> string res" where
  "test_linked_list k = bind_res (entry_texts (mylist k) k) (\<lambda>s. Inr (''Linked List = '' @ s))"

definition test_hash_table :: "kernel \<Rightarrow> string res" where
  "test_hash_table k = bind_res (entry_texts (concat (myHTable k)) k) (\<lambda>s. Inr (''Hash Table = '' @ s))"

definition rb_tree_view :: "kernel \<Rightarrow> string res" where
  "rb_tree_view k = bind_res (entry_texts (inorder (rbroot k)) k) (\<lambda>s. Inr (''R-B Tree = '' @ s))"

text \<open>\<open>view_radix\<close> looks every index up again, and would stop at one that is not found.\<close>

fun view_slots :: "64 word list \<Rightarrow> kernel \<Rightarrow> string res" where
  "view_slots [] k = Inr []"
| "view_slots (i # is) k =
     (case map_of (radix_slots k) i of
        None \<Rightarrow> Inr []
      | Some x \<Rightarrow> bind_res (entry_val k x) (\<lambda>v. bind_res (view_slots is k) (\<lambda>s. Inr (dec v @ '' '' @ s))))"

text \<open>Its first \<open>kmalloc\<close> is neither used nor freed.\<close>

definition view_radix :: "kernel \<Rightarrow> (string \<times> kernel) res" where
  "view_radix k =
     bind_res (view_slots (map fst (radix_slots k)) k) (\<lambda>s.
       Inr (''Radix Tree = '' @ s, k\<lparr>next_id := Suc (next_id k)\<rparr>))"

definition run_tests :: "kernel \<Rightarrow> (string list \<times> kernel) res" where
  "run_tests k =
     bind_res (test_linked_list k) (\<lambda>l1.
     bind_res (test_hash_table k) (\<lambda>l2.
     bind_res (rb_tree_view k) (\<lambda>l3.
     bind_res (view_radix k) (\<lambda>(l4, k). Inr ([l1, l2, l3, l4], k)))))"

text \<open>
  \<open>proj2_proc_show\<close> of the submission, up to \<open>cleanup\<close>, with the records it logs; and all of it.
\<close>

definition log_parsed :: "klib \<Rightarrow> string \<Rightarrow> kernel \<Rightarrow> (int \<times> string list \<times> kernel) res" where
  "log_parsed L int_str k =
     bind_res (parse_params L int_str k) (\<lambda>(err, k).
       if err \<noteq> 0 then Inr (err, [], k)
       else bind_res (run_tests k) (\<lambda>(ls, k). Inr (err, ls, k)))"

definition sub_proc_show :: "klib \<Rightarrow> string option \<Rightarrow> kernel \<Rightarrow> (int \<times> string list \<times> kernel) res" where
  "sub_proc_show L int_str k =
     (case int_str of
        None \<Rightarrow> Inr (-1, [''Missing 'int_str' parameter, exiting ''], k)
      | Some s \<Rightarrow>
          bind_res (log_parsed L s k) (\<lambda>(err, ls, k).
          bind_res (cleanup L k) (\<lambda>k. Inr (err, ls @ [newline # ''Cleaning up...''], k))))"

lemma entry_texts_ok:
  "\<forall>x \<in> set xs. vals k x \<noteq> None \<Longrightarrow>
   entry_texts xs k = Inr (concat (map (\<lambda>v. dec v @ '' '') (map (item k) xs)))"
  by (induction xs) (simp_all add: entry_val_item)

lemma view_slots_ok:
  assumes "distinct (map fst (radix_slots k))"
  shows "set sl \<subseteq> set (radix_slots k) \<Longrightarrow> view_slots (map fst sl) k = entry_texts (map snd sl) k"
proof (induction sl)
  case (Cons p sl)
  then have "map_of (radix_slots k) (fst p) = Some (snd p)" using assms by (cases p) simp
  then show ?case using Cons by simp
qed simp

lemma run_tests_ok:
  assumes "kernel_ok k"
  shows "\<exists>ls. run_tests k = Inr (ls, k\<lparr>next_id := Suc (next_id k)\<rparr>) \<and>
    show_containers k = Inr (True, seq_printf (concat (map (\<lambda>l. l @ [newline]) ls)) k)"
proof -
  have live: "\<forall>x \<in> set (mylist k). vals k x \<noteq> None" "\<forall>x \<in> set (concat (myHTable k)). vals k x \<noteq> None"
    "\<forall>x \<in> set (inorder (rbroot k)). vals k x \<noteq> None" "\<forall>x \<in> set (map snd (radix_slots k)). vals k x \<noteq> None"
    using assms by (simp_all add: kernel_ok_def held_def)
  have "distinct (map fst (radix_slots k))"
    using assms increasing_distinct [of fst "radix_slots k"] by (simp add: kernel_ok_def)
  then have r: "view_slots (map fst (radix_slots k)) k = entry_texts (map snd (radix_slots k)) k"
    by (intro view_slots_ok) simp_all
  show ?thesis
    using live
    by (simp add: run_tests_def test_linked_list_def test_hash_table_def rb_tree_view_def view_radix_def
        r entry_texts_ok show_containers_ok [OF assms] seq_printf_def contents_of_def text_line_def
        map_concat comp_def case_prod_unfold)
qed

text \<open>
  C39. For a parameter whose fields are empty or numbers, the submission logs as four records
  exactly the four lines that the later module shows in the proc file, and leaves the proc file
  empty.
\<close>

theorem submission_logs_the_proc_lines:
  assumes "klib_laws L" and "parses L s"
  shows "\<exists>ls k k'. log_parsed L s (empty_kernel (\<lambda>_. False)) = Inr (0, ls, k) \<and> length ls = 4 \<and>
    seq_out k = [] \<and> show_parsed L s (empty_kernel (\<lambda>_. False)) = Inr (0, k') \<and>
    seq_out k' = concat (map (\<lambda>l. l @ [newline]) ls)"
proof -
  obtain k where k: "parse_params L s (empty_kernel (\<lambda>_. False)) = Inr (0, k)" "kernel_ok k"
    "seq_out k = []"
    using parse_params_ok [OF assms(2) kernel_ok_empty assms(1)] by (auto simp: empty_kernel_def)
  obtain ls where ls: "run_tests k = Inr (ls, k\<lparr>next_id := Suc (next_id k)\<rparr>)"
    "show_containers k = Inr (True, seq_printf (concat (map (\<lambda>l. l @ [newline]) ls)) k)"
    using run_tests_ok [OF k(2)] by blast
  then have "length ls = 4"
    by (auto simp: run_tests_def bind_res_Inr_iff)
  then show ?thesis
    using k ls by (simp add: log_parsed_def show_parsed_def seq_printf_def)
qed

theorem submission_logs_the_proc_lines_witness:
  "\<exists>ls k k'. log_parsed sample_klib ''3,-1,,3'' (empty_kernel (\<lambda>_. False)) = Inr (0, ls, k) \<and>
    length ls = 4 \<and> seq_out k = [] \<and>
    show_parsed sample_klib ''3,-1,,3'' (empty_kernel (\<lambda>_. False)) = Inr (0, k') \<and>
    seq_out k' = concat (map (\<lambda>l. l @ [newline]) ls)"
  by (rule submission_logs_the_proc_lines [OF sample_klib_laws numbers_sample(2)])

section \<open>Exercise 4\<close>

text \<open>
  \<open>store_value\<close> ends without a return, and its caller reads the value: what it then sees is the
  parameter \<open>left_over\<close>. An entry's list member does not start an allocation.
\<close>

datatype address = Entry nat | List_member nat

fun kfree_address :: "address \<Rightarrow> kernel \<Rightarrow> kernel res" where
  "kfree_address (Entry x) k = kfree x k"
| "kfree_address (List_member x) k = Inl BadFree"

definition ex4_store_value :: "(nat \<Rightarrow> int) \<Rightarrow> int \<Rightarrow> kernel \<Rightarrow> (int \<times> kernel) res" where
  "ex4_store_value left_over v k = bind_res (new_entry v k) (\<lambda>(x, k).
     Inr (left_over x, k\<lparr>mylist := mylist k @ [x]\<rparr>))"

fun ex4_test_linked_list :: "nat list \<Rightarrow> kernel \<Rightarrow> string list res" where
  "ex4_test_linked_list [] k = Inr []"
| "ex4_test_linked_list (x # xs) k =
     bind_res (entry_val k x) (\<lambda>v.
     bind_res (ex4_test_linked_list xs k) (\<lambda>ls.
       Inr ((''data in the list = '' @ dec v @ [newline]) # ls)))"

fun ex4_free_each :: "nat list \<Rightarrow> kernel \<Rightarrow> kernel res" where
  "ex4_free_each [] k = Inr k"
| "ex4_free_each (x # xs) k =
     bind_res (kfree_address (Entry x) k) (\<lambda>k.
     bind_res (kfree_address (List_member x) k) (ex4_free_each xs))"

definition ex4_destroy_linked_list_and_free :: "kernel \<Rightarrow> kernel res" where
  "ex4_destroy_linked_list_and_free k = ex4_free_each (mylist k) (k\<lparr>mylist := []\<rparr>)"

fun ex4_parse_fields :: "(nat \<Rightarrow> int) \<Rightarrow> klib \<Rightarrow> string list \<Rightarrow> int \<Rightarrow> kernel \<Rightarrow> (int \<times> kernel) res" where
  "ex4_parse_fields left_over L [] err k = Inr (err, k)"
| "ex4_parse_fields left_over L (p # ps) err k =
     (if p = [] then ex4_parse_fields left_over L ps err k
      else case kstrtoint L p of
        Inl e \<Rightarrow> Inr (e, k)
      | Inr v \<Rightarrow> bind_res (ex4_store_value left_over v k) (\<lambda>(err, k).
          if err \<noteq> 0 then Inr (err, k) else ex4_parse_fields left_over L ps err k))"

definition ex4_parse_params :: "(nat \<Rightarrow> int) \<Rightarrow> klib \<Rightarrow> string \<Rightarrow> kernel \<Rightarrow> (int \<times> kernel) res" where
  "ex4_parse_params left_over L int_str k =
     (let k' = k\<lparr>next_id := Suc (next_id k)\<rparr>
      in if alloc_fails k (next_id k) then Inr (- ENOMEM, k')
         else ex4_parse_fields left_over L (strsep_fields int_str) 0 k')"

definition ex4_cleanup :: "kernel \<Rightarrow> (string list \<times> kernel) res" where
  "ex4_cleanup k =
     bind_res (ex4_destroy_linked_list_and_free k) (\<lambda>k. Inr ([newline # ''Cleaning up...'' @ [newline]], k))"

definition ex4_init :: "(nat \<Rightarrow> int) \<Rightarrow> klib \<Rightarrow> string option \<Rightarrow> kernel \<Rightarrow> (int \<times> string list \<times> kernel) res" where
  "ex4_init left_over L int_str k =
     (case int_str of
        None \<Rightarrow> Inr (-1, [''Missing 'int_str' parameter, exiting'' @ [newline]], k)
      | Some s \<Rightarrow>
          bind_res (ex4_parse_params left_over L s k) (\<lambda>(err, k).
          bind_res (if err \<noteq> 0 then Inr [] else ex4_test_linked_list (mylist k) k) (\<lambda>ls.
          bind_res (ex4_cleanup k) (\<lambda>(ls', k). Inr (err, ls @ ls', k)))))"

definition ex4_live :: "kernel \<Rightarrow> bool" where
  "ex4_live k \<longleftrightarrow> (\<forall>n. \<not> alloc_fails k n) \<and> (\<forall>x \<in> set (mylist k). vals k x \<noteq> None)"

lemma ex4_store_live:
  "ex4_live k \<Longrightarrow> \<exists>k'. ex4_store_value left_over v k = Inr (left_over (next_id k), k') \<and> ex4_live k' \<and>
     mylist k' \<noteq> []"
  by (simp add: ex4_store_value_def new_entry_def ex4_live_def)

lemma ex4_parse_live:
  "ex4_live k \<Longrightarrow> \<exists>e k'. ex4_parse_fields left_over L ps err k = Inr (e, k') \<and> ex4_live k' \<and>
     (mylist k = [] \<or> mylist k' \<noteq> [])"
proof (induction left_over L ps err k rule: ex4_parse_fields.induct)
  case (2 left_over L p ps err k)
  show ?case
  proof (cases "p = []")
    case True
    then show ?thesis using 2 by simp
  next
    case p: False
    show ?thesis
    proof (cases "kstrtoint L p")
      case (Inl e)
      then show ?thesis using p "2.prems" by simp
    next
      case (Inr v)
      obtain k1 where k1: "ex4_store_value left_over v k = Inr (left_over (next_id k), k1)"
        "ex4_live k1" "mylist k1 \<noteq> []"
        using ex4_store_live [OF "2.prems"] by blast
      then show ?thesis
        using "2.IH"(2) [OF p Inr k1(1) refl] p Inr by auto
    qed
  qed
qed simp

lemma ex4_test_live: "\<forall>x \<in> set xs. vals k x \<noteq> None \<Longrightarrow> \<exists>ls. ex4_test_linked_list xs k = Inr ls"
  by (induction xs) (auto simp: entry_val_item)

lemma ex4_cleanup_live:
  "ex4_live k \<Longrightarrow> mylist k \<noteq> [] \<Longrightarrow> ex4_cleanup k = Inl BadFree"
  by (cases "mylist k")
    (auto simp: ex4_cleanup_def ex4_destroy_linked_list_and_free_def ex4_live_def kfree_def)

text \<open>
  Loading the exercise's module, with memory: without a parameter it returns -1; with one whose
  fields are all empty it only cleans up and returns 0; with one whose first non-empty field is
  not a number it returns the error of \<open>kstrtoint\<close>; and with a number there it always ends in a
  bad \<open>kfree\<close>, of the list member of an entry just freed, whatever the missing return of
  \<open>store_value\<close> left behind.
\<close>

theorem ex4_init_outcome:
  assumes "\<And>p e. kstrtoint L p = Inl e \<Longrightarrow> e \<noteq> 0"
  shows "let k = empty_kernel (\<lambda>_. False);
      tidied = (\<lambda>err. Inr (err, [newline # ''Cleaning up...'' @ [newline]], k\<lparr>next_id := 1\<rparr>))
    in ex4_init left_over L None k = Inr (-1, [''Missing 'int_str' parameter, exiting'' @ [newline]], k) \<and>
      ex4_init left_over L (Some s) k =
        (case filter (\<lambda>p. p \<noteq> []) (strsep_fields s) of
           [] \<Rightarrow> tidied 0
         | p # ps \<Rightarrow> (case kstrtoint L p of Inl e \<Rightarrow> tidied e | Inr v \<Rightarrow> Inl BadFree))"
proof -
  let ?k = "empty_kernel (\<lambda>_. False)" let ?k1 = "?k\<lparr>next_id := 1\<rparr>"
  have skip: "ex4_parse_fields left_over L fs err k =
      ex4_parse_fields left_over L (filter (\<lambda>p. p \<noteq> []) fs) err k" for fs err k
    by (induction fs arbitrary: err k) (auto split: sum.splits simp: bind_res_def)
  have start: "ex4_parse_params left_over L s ?k =
      ex4_parse_fields left_over L (filter (\<lambda>p. p \<noteq> []) (strsep_fields s)) 0 ?k1"
    using skip [of "strsep_fields s"] by (simp add: ex4_parse_params_def empty_kernel_def Let_def)
  have live: "ex4_live ?k1" by (simp add: ex4_live_def empty_kernel_def)
  have clean: "ex4_cleanup ?k1 = Inr ([newline # ''Cleaning up...'' @ [newline]], ?k1)"
    by (simp add: ex4_cleanup_def ex4_destroy_linked_list_and_free_def empty_kernel_def)
  have mine: "mylist ?k1 = []" by (simp add: empty_kernel_def)
  show ?thesis
  proof (cases "filter (\<lambda>p. p \<noteq> []) (strsep_fields s)")
    case Nil
    then show ?thesis using start clean mine by (simp add: ex4_init_def)
  next
    case (Cons p ps)
    then have "p \<in> set (filter (\<lambda>p. p \<noteq> []) (strsep_fields s))" by simp
    then have p: "p \<noteq> []" by simp
    show ?thesis
    proof (cases "kstrtoint L p")
      case (Inl e)
      then show ?thesis using start clean p Cons assms [OF Inl] by (simp add: ex4_init_def)
    next
      case (Inr v)
      obtain k2 where k2: "ex4_store_value left_over v ?k1 = Inr (left_over (next_id ?k1), k2)"
        "ex4_live k2" "mylist k2 \<noteq> []"
        using ex4_store_live [OF live] by blast
      then obtain e k' where "ex4_parse_params left_over L s ?k = Inr (e, k')" "ex4_live k'" "mylist k' \<noteq> []"
        using start p Cons Inr ex4_parse_live [OF k2(2), of left_over L ps "left_over (next_id ?k1)"]
        by (cases "left_over (next_id ?k1) = 0") auto
      moreover obtain ls where "ex4_test_linked_list (mylist k') k' = Inr ls"
        using ex4_test_live [of "mylist k'" k'] calculation(2) by (auto simp: ex4_live_def)
      ultimately show ?thesis
        using Cons Inr by (simp add: ex4_init_def ex4_cleanup_live)
    qed
  qed
qed

theorem ex4_init_outcome_witness:
  "ex4_init (\<lambda>_. 7) sample_klib (Some '',3,x'') (empty_kernel (\<lambda>_. False)) = Inl BadFree"
proof -
  have e: "e \<noteq> 0" if "kstrtoint sample_klib p = Inl e" for p e
    using that sample_klib_laws by (auto simp: klib_laws_def)
  have "kstrtoint sample_klib ''3'' = Inr 3"
    by (simp add: sample_klib_def sample_kstrtoint_def digits_value_def)
  then show ?thesis
    using ex4_init_outcome [where L = sample_klib and left_over = "\<lambda>_. 7" and s = "'',3,x''"] e
    by (simp add: Let_def)
qed

end
