(* ===== verification/Container_Tests.thy ===== *)
theory Container_Tests
  imports Containers_Log
begin

text \<open>
  The three trial modules of \<open>Project_2/test\<close>, one per container, each of which stores a few fixed
  numbers when it is loaded, prints them to the log and takes the container down, or not: the hash
  table (\<open>hash/test.c\<close>), the red-black tree (\<open>rb/test.c\<close>) and the radix tree (\<open>radix/test.c\<close>). They
  work on the heap and the structures of theory \<open>Containers\<close>.
\<close>

section \<open>The hash table\<close>

text \<open>\<open>store_hash_value\<close> has no return statement, and no caller looks at its value.\<close>

definition hash_store :: "klib \<Rightarrow> int \<Rightarrow> kernel \<Rightarrow> kernel res" where
  "hash_store L v k = bind_res (new_entry v k) (\<lambda>(x, k).
     Inr (k\<lparr>myHTable := (myHTable k)[bucket_of L v := x # myHTable k ! bucket_of L v]\<rparr>))"

definition hash_print :: "kernel \<Rightarrow> string res" where
  "hash_print k = bind_res (entry_texts (concat (myHTable k)) k) (\<lambda>s. Inr (s @ [newline]))"

text \<open>The load function, as far as the missing return: what it logs and leaves.\<close>

definition hash_test_init :: "klib \<Rightarrow> kernel \<Rightarrow> (string \<times> kernel) res" where
  "hash_test_init L k =
     bind_res (run_events (hash_store L) [1, 2, 3, 4, 5] k) (\<lambda>k.
     bind_res (hash_print k) (\<lambda>s.
     bind_res (remove_hash_table k) (\<lambda>k. Inr (s, k))))"

section \<open>The red-black tree\<close>

definition rb_store :: "klib \<Rightarrow> int \<Rightarrow> kernel \<Rightarrow> kernel res" where
  "rb_store L v k =
     bind_res (new_entry v k) (\<lambda>(x, k). bind_res (insert_rb_tree L x k) (\<lambda>(_, k). Inr k))"

fun key_lines :: "nat list \<Rightarrow> kernel \<Rightarrow> string list res" where
  "key_lines [] k = Inr []"
| "key_lines (x # xs) k =
     bind_res (entry_val k x) (\<lambda>v.
     bind_res (key_lines xs k) (\<lambda>ls. Inr ((''key='' @ dec v @ [newline]) # ls)))"

definition rb_view :: "kernel \<Rightarrow> string list res" where
  "rb_view k = key_lines (inorder (rbroot k)) k"

text \<open>Store, print; then remove. The load function does so twice.\<close>

definition rb_fill :: "klib \<Rightarrow> int list \<Rightarrow> kernel \<Rightarrow> (string list \<times> kernel) res" where
  "rb_fill L vs k =
     bind_res (run_events (rb_store L) vs k) (\<lambda>k. bind_res (rb_view k) (\<lambda>ls. Inr (ls, k)))"

definition rb_test_init :: "klib \<Rightarrow> kernel \<Rightarrow> (string list \<times> kernel) res" where
  "rb_test_init L k =
     bind_res (rb_fill L [2, 1, 3, 5, 4] k) (\<lambda>(ls, k).
     bind_res (rb_tree_remove L k) (\<lambda>k.
     bind_res (rb_fill L [18, 17, 3] k) (\<lambda>(ls', k).
     bind_res (rb_tree_remove L k) (\<lambda>k. Inr (ls @ ls', k)))))"

section \<open>The radix tree\<close>

definition radix_store :: "int \<Rightarrow> kernel \<Rightarrow> kernel res" where
  "radix_store v k = bind_res (radix_insert v k) (\<lambda>(_, k). Inr k)"

text \<open>
  \<open>view_radix\<close> looks each index up again and stops at one that is not found; its own allocation is
  never used and never freed.
\<close>

fun digit_lines :: "64 word list \<Rightarrow> kernel \<Rightarrow> string list res" where
  "digit_lines [] k = Inr []"
| "digit_lines (i # is) k =
     (case map_of (radix_slots k) i of
        None \<Rightarrow> Inr []
      | Some x \<Rightarrow> bind_res (entry_val k x) (\<lambda>v.
          bind_res (digit_lines is k) (\<lambda>ls. Inr ((''here is the digit: '' @ dec v @ [newline]) # ls))))"

definition radix_view :: "kernel \<Rightarrow> (string list \<times> kernel) res" where
  "radix_view k =
     bind_res (digit_lines (map fst (radix_slots k)) k) (\<lambda>ls. Inr (ls, k\<lparr>next_id := Suc (next_id k)\<rparr>))"

definition radix_test_init :: "kernel \<Rightarrow> (int \<times> string list \<times> kernel) res" where
  "radix_test_init k =
     bind_res (run_events radix_store [1, 2, 3, 4] k) (\<lambda>k.
     bind_res (radix_view k) (\<lambda>(ls, k). Inr (0, ls, k)))"

section \<open>Stores keep the containers well formed\<close>

definition chained :: "kernel \<Rightarrow> bool" where
  "chained k \<longleftrightarrow> kernel_ok k \<and> dom (vals k) \<subseteq> set (concat (myHTable k))"

lemma hash_store_value: "bind_res (store_hash_value L v k) (\<lambda>(_, k). Inr k) = hash_store L v k"
  by (simp add: store_hash_value_def hash_store_def bind_res_assoc case_prod_unfold Let_def)

lemma hash_store_chained:
  assumes "chained k" and "klib_laws L"
  shows "\<exists>k'. hash_store L v k = Inr k' \<and> chained k' \<and>
    c_hash (contents_of k') = (c_hash (contents_of k))[bucket_of L v := v # c_hash (contents_of k) ! bucket_of L v]"
proof -
  have ok: "kernel_ok k" using assms(1) by (simp add: chained_def)
  obtain k' where k': "store_hash_value L v k = Inr (0, k')" "kernel_ok k'"
    "contents_of k' = (contents_of k)\<lparr>c_hash := (c_hash (contents_of k))
      [bucket_of L v := v # c_hash (contents_of k) ! bucket_of L v]\<rparr>"
    using store_hash_value_ok [OF ok assms(2)] by blast
  have b: "bucket_of L v < length (myHTable k)" using ok assms(2) by (simp add: klib_laws_def kernel_ok_def)
  have "dom (vals k') \<subseteq> set (concat (myHTable k'))"
  proof -
    have "k' = (with_entry v k)\<lparr>myHTable := (myHTable k)[bucket_of L v := next_id k # myHTable k ! bucket_of L v]\<rparr>"
      using k'(1) new_entry_ok [OF ok, of v] by (simp add: store_hash_value_def Let_def)
    moreover have "set (concat ((myHTable k)[bucket_of L v := next_id k # myHTable k ! bucket_of L v])) =
        insert (next_id k) (set (concat (myHTable k)))"
      using mset_concat_update [OF b, of "next_id k"] by (metis set_mset_mset set_mset_add_mset_insert)
    ultimately show ?thesis using assms(1) by (auto simp: chained_def with_entry_def)
  qed
  then show ?thesis
    using k' by (simp add: chained_def flip: hash_store_value)
qed

interpretation hash_stores: step_refines "hash_store L" "\<lambda>k. chained k \<and> klib_laws L" "\<lambda>v. True"
  "\<lambda>k. c_hash (contents_of k)" "\<lambda>v c. c[bucket_of L v := v # c ! bucket_of L v]" for L
proof unfold_locales
  fix k :: kernel and v :: int and t :: kernel
  assume ok: "chained k \<and> klib_laws L"
  note one = hash_store_chained [of k L v]
  show "\<exists>t. hash_store L v k = Inr t \<and> chained t \<and> klib_laws L" using one ok by blast
  assume "hash_store L v k = Inr t"
  with one ok show "c_hash (contents_of t) = (c_hash (contents_of k))[bucket_of L v := v # c_hash (contents_of k) ! bucket_of L v]" by auto
qed

lemma rb_store_ok:
  assumes "kernel_ok k" and "klib_laws L"
  shows "\<exists>k'. rb_store L v k = Inr k' \<and> kernel_ok k' \<and>
    c_tree (contents_of k') = ins_by (\<lambda>w. w) v (c_tree (contents_of k))"
proof -
  have "rb_store L v k = bind_res (rb_tree_insert L v k) (\<lambda>(_, k). Inr k)"
    by (simp add: rb_tree_insert_def rb_store_def bind_res_assoc case_prod_unfold)
  then show ?thesis using rb_tree_insert_ok [OF assms, of v] by fastforce
qed

interpretation rb_stores: step_refines "rb_store L" "\<lambda>k. kernel_ok k \<and> klib_laws L" "\<lambda>v. True"
  "\<lambda>k. c_tree (contents_of k)" "ins_by (\<lambda>w. w)" for L
proof unfold_locales
  fix k :: kernel and v :: int and t :: kernel
  assume ok: "kernel_ok k \<and> klib_laws L"
  note one = rb_store_ok [of k L v]
  show "\<exists>t. rb_store L v k = Inr t \<and> kernel_ok t \<and> klib_laws L" using one ok by blast
  assume "rb_store L v k = Inr t"
  with one ok show "c_tree (contents_of t) = ins_by (\<lambda>w. w) v (c_tree (contents_of k))" by auto
qed

lemma key_lines_ok:
  "\<forall>x \<in> set xs. vals k x \<noteq> None \<Longrightarrow>
   key_lines xs k = Inr (map (\<lambda>v. ''key='' @ dec v @ [newline]) (map (item k) xs))"
  by (induction xs) (simp_all add: entry_val_item)

section \<open>What the trials do\<close>

lemma c_hash_fold:
  assumes "\<forall>v. bucket_of L v < length c" and "b < length c"
  shows "fold (\<lambda>v c. c[bucket_of L v := v # c ! bucket_of L v]) vs c ! b =
    rev (filter (\<lambda>v. bucket_of L v = b) vs) @ c ! b"
  using assms by (induction vs arbitrary: c) (auto simp: nth_list_update)

lemma length_c_hash_fold:
  "length (fold (\<lambda>v c. c[bucket_of L v := v # c ! bucket_of L v]) vs c) = length c"
  by (induction vs arbitrary: c) auto

lemma c_hash_values:
  assumes "klib_laws L"
  shows "fold (\<lambda>v c. c[bucket_of L v := v # c ! bucket_of L v]) vs (replicate 8 []) =
    map (\<lambda>b. rev (filter (\<lambda>v. bucket_of L v = b) vs)) [0..<8]"
proof (rule nth_equalityI)
  have b: "\<forall>v. bucket_of L v < 8" using assms by (simp add: klib_laws_def)
  show "i < length (fold (\<lambda>v c. c[bucket_of L v := v # c ! bucket_of L v]) vs (replicate 8 [])) \<Longrightarrow>
      fold (\<lambda>v c. c[bucket_of L v := v # c ! bucket_of L v]) vs (replicate 8 []) ! i =
      map (\<lambda>b. rev (filter (\<lambda>v. bucket_of L v = b) vs)) [0..<8] ! i" for i
    using b by (simp add: length_c_hash_fold c_hash_fold del: upt_rec_numeral)
qed (simp add: length_c_hash_fold)

text \<open>
  Loading the hash table's trial, with memory: the log shows the five numbers by bucket, the
  latest of a bucket first, and then the table is empty and no entry is left allocated.
\<close>

theorem hash_test_logs_and_frees:
  assumes "klib_laws L"
  shows "\<exists>k. hash_test_init L (empty_kernel (\<lambda>_. False)) =
      Inr (concat (map (\<lambda>v. dec v @ '' '') (concat (map (\<lambda>b. rev (filter (\<lambda>v. bucket_of L v = b) [1, 2, 3, 4, 5]))
        [0..<8]))) @ [newline], k) \<and>
    vals k = (\<lambda>_. None) \<and> myHTable k = replicate 8 []"
proof -
  let ?vs = "[1, 2, 3, 4, 5] :: int list" and ?k0 = "empty_kernel (\<lambda>_. False)"
  have "chained ?k0 \<and> klib_laws L"
    using kernel_ok_empty assms by (simp add: chained_def empty_kernel_def)
  then obtain k where k: "run_events (hash_store L) ?vs ?k0 = Inr k" "chained k"
    "c_hash (contents_of k) = fold (\<lambda>v c. c[bucket_of L v := v # c ! bucket_of L v]) ?vs (c_hash (contents_of ?k0))"
    using hash_stores.run_refines [of ?k0 L ?vs] by (auto simp: list_all_iff)
  have ok: "kernel_ok k" using k(2) by (simp add: chained_def)
  have "c_hash (contents_of k) = map (\<lambda>b. rev (filter (\<lambda>v. bucket_of L v = b) ?vs)) [0..<8]"
    unfolding k(3) contents_empty contents.simps by (rule c_hash_values [OF assms])
  then have c: "map (item k) (concat (myHTable k)) =
      concat (map (\<lambda>b. rev (filter (\<lambda>v. bucket_of L v = b) ?vs)) [0..<8])"
    by (simp add: contents_of_def map_concat del: filter.simps upt_rec_numeral)
  have live: "\<forall>x \<in> set (concat (myHTable k)). vals k x \<noteq> None" "distinct (concat (myHTable k))"
    using ok by (simp_all add: kernel_ok_def held_def)
  have "remove_hash_table k = Inr (k\<lparr>myHTable := replicate 8 [],
      vals := (\<lambda>x. if x \<in> set (concat (myHTable k)) then None else vals k x)\<rparr>)"
    using free_each_ok [OF live(2), of "k\<lparr>myHTable := replicate 8 []\<rparr>"] live(1)
    by (simp add: remove_hash_table_def cong: if_cong)
  moreover have "(\<lambda>x. if x \<in> set (concat (myHTable k)) then None else vals k x) = (\<lambda>_. None)"
    using k(2) by (auto simp: chained_def fun_eq_iff dom_def subset_iff)
  moreover have "hash_print k =
      Inr (concat (map (\<lambda>v. dec v @ '' '') (map (item k) (concat (myHTable k)))) @ [newline])"
    using entry_texts_ok [OF live(1)] by (simp add: hash_print_def)
  ultimately show ?thesis
    using k(1) unfolding c by (simp add: hash_test_init_def del: filter.simps upt_rec_numeral)
qed

theorem hash_test_logs_and_frees_witness:
  "\<exists>k. hash_test_init sample_klib (empty_kernel (\<lambda>_. False)) = Inr (''1 2 3 4 5 '' @ [newline], k) \<and>
    vals k = (\<lambda>_. None) \<and> myHTable k = replicate 8 []"
proof -
  have "concat (map (\<lambda>v. dec v @ '' '') (concat (map (\<lambda>b. rev (filter (\<lambda>v. bucket_of sample_klib v = b) [1, 2, 3, 4, 5]))
        [0..<8]))) = ''1 2 3 4 5 ''"
    by code_simp
  then show ?thesis using hash_test_logs_and_frees [OF sample_klib_laws] by simp
qed

text \<open>
  Loading the red-black tree's trial: the five numbers are logged in increasing order, and then
  the first removal uses the entry it has just freed, so that the second half never runs.
\<close>

theorem rb_test_uses_freed_node:
  assumes "klib_laws L"
  shows "\<exists>k. rb_fill L [2, 1, 3, 5, 4] (empty_kernel (\<lambda>_. False)) =
      Inr (map (\<lambda>v. ''key='' @ dec v @ [newline]) [1, 2, 3, 4, 5], k) \<and>
    rb_tree_remove L k = Inl UseAfterFree \<and> rb_test_init L (empty_kernel (\<lambda>_. False)) = Inl UseAfterFree"
proof -
  let ?vs = "[2, 1, 3, 5, 4] :: int list" and ?k0 = "empty_kernel (\<lambda>_. False)"
  obtain k where k: "run_events (rb_store L) ?vs ?k0 = Inr k" "kernel_ok k"
    "c_tree (contents_of k) = fold (ins_by (\<lambda>w. w)) ?vs (c_tree (contents_of ?k0))"
    using rb_stores.run_refines [of ?k0 L ?vs] kernel_ok_empty assms by (auto simp: list_all_iff)
  have c: "map (item k) (inorder (rbroot k)) = [1, 2, 3, 4, 5]"
    using k(3) by (simp add: contents_empty) (simp add: contents_of_def)
  have "\<forall>x \<in> set (inorder (rbroot k)). vals k x \<noteq> None" using k(2) by (simp add: kernel_ok_def held_def)
  note lines = key_lines_ok [OF this, unfolded c]
  have "rbroot k \<noteq> Leaf" using c by auto
  then have "rb_tree_remove L k = Inl UseAfterFree" using rb_tree_remove_uaf [OF k(2)] by simp
  moreover have "rb_fill L ?vs ?k0 = Inr (map (\<lambda>v. ''key='' @ dec v @ [newline]) [1, 2, 3, 4, 5], k)"
    using k(1) lines by (simp add: rb_fill_def rb_view_def del: run_events.simps)
  ultimately show ?thesis by (simp add: rb_test_init_def)
qed

theorem rb_test_uses_freed_node_witness:
  "\<exists>k. rb_fill sample_klib [2, 1, 3, 5, 4] (empty_kernel (\<lambda>_. False)) =
      Inr (map (\<lambda>v. ''key='' @ dec v @ [newline]) [1, 2, 3, 4, 5], k) \<and>
    rb_tree_remove sample_klib k = Inl UseAfterFree \<and>
    rb_test_init sample_klib (empty_kernel (\<lambda>_. False)) = Inl UseAfterFree"
  by (rule rb_test_uses_freed_node [OF sample_klib_laws])

text \<open>
  Loading the radix tree's trial, with memory, logs the four digits in order and returns 0; its
  four entries stay allocated, and its unloading does nothing.
\<close>

theorem radix_test_logs_and_keeps:
  "\<exists>k. radix_test_init (empty_kernel (\<lambda>_. False)) =
      Inr (0, map (\<lambda>v. ''here is the digit: '' @ dec v @ [newline]) [1, 2, 3, 4], k) \<and>
    map (vals k) [0, 1, 2, 3] = [Some 1, Some 2, Some 3, Some 4] \<and>
    map snd (radix_slots k) = [0, 1, 2, 3]"
  by (simp add: radix_test_init_def radix_store_def radix_insert_def new_entry_def empty_kernel_def
      radix_view_def radix_index_def entry_val_def)

text \<open>
  Well-formedness of the container module: from any well-formed state, in which no allocation fails, storing any
  numbers succeeds and keeps it so.
\<close>

lemma stores_keep_kernel_ok:
  assumes "kernel_ok k" and "klib_laws L"
  shows "case run_events (stored L) vs k of Inl _ \<Rightarrow> False
    | Inr k' \<Rightarrow> kernel_ok k' \<and> contents_of k' = fold (spec_store L) vs (contents_of k)"
  using stores.run_refines [of k L vs] assms by (auto simp: list_all_iff)

section \<open>What is allocated and what is held\<close>

definition allocated :: "kernel \<Rightarrow> nat set" where
  "allocated k = {x. vals k x \<noteq> None}"

text \<open>Every number takes four entries, whether it is new or not.\<close>

lemma insert_rb_tree_vals:
  "insert_rb_tree L x k = Inr (r, k') \<Longrightarrow> vals k' = vals k \<and> next_id k' = next_id k"
  by (auto simp: insert_rb_tree_def bind_res_Inr_iff split: option.splits)

lemma stored_allocates:
  assumes "stored L v k = Inr k'"
  shows "allocated k' = allocated k \<union> {next_id k ..< next_id k + 4} \<and> next_id k' = next_id k + 4"
  using assms
  by (auto simp: stored_def store_all_def bind_res_Inr_iff store_value_def store_hash_value_def rb_tree_insert_def
      radix_insert_def new_entry_def Let_def allocated_def dest!: insert_rb_tree_vals split: if_splits)

lemma stores_allocate:
  "run_events (stored L) vs k = Inr k' \<Longrightarrow>
    allocated k' = allocated k \<union> {next_id k ..< next_id k + 4 * length vs} \<and> next_id k' = next_id k + 4 * length vs"
proof (induction vs arbitrary: k)
  case (Cons v vs)
  then obtain j where j: "stored L v k = Inr j" "run_events (stored L) vs j = Inr k'" by (auto simp: bind_res_Inr_iff)
  show ?case using Cons.IH [OF j(2)] stored_allocates [OF j(1)] by auto
qed simp

text \<open>The number of entries that a container holds, by container.\<close>

lemma length_buckets:
  assumes "\<And>v. bucket_of L v < n"
  shows "length (concat (map (\<lambda>b. rev (filter (\<lambda>v. bucket_of L v = b) vs)) [0..<n])) = length vs"
proof (induction vs)
  case (Cons v vs)
  have "(\<Sum>b \<leftarrow> [0..<n]. length (filter (\<lambda>v. bucket_of L v = b) (v # vs))) =
      (\<Sum>b \<leftarrow> [0..<n]. (if b = bucket_of L v then 1 else 0) + length (filter (\<lambda>v. bucket_of L v = b) vs))"
    by (intro arg_cong [where f = sum_list] map_cong) auto
  also have "\<dots> = 1 + (\<Sum>b \<leftarrow> [0..<n]. length (filter (\<lambda>v. bucket_of L v = b) vs))"
    using assms [of v] by (simp add: sum_list_addf sum_list_distinct_conv_sum_set sum.delta)
  finally show ?case using Cons by (simp add: length_concat comp_def)
qed (simp add: length_concat comp_def)

lemma length_index_order: "finite A \<Longrightarrow> length (index_order A) = card A"
  using sum_length_filter_compl [of "\<lambda>v. 0 \<le> v" "sorted_list_of_set A"] by (simp add: index_order_def not_le)

text \<open>
  C22. What storing any numbers costs while no allocation fails: four entries for each number; the list and the hash
  table hold one each, the tree and the radix tree one for each different number, each entry in one
  container only, so that the two entries of every repetition for them are held by nothing and can never be freed.
\<close>

theorem stores_leak_repetitions:
  assumes "klib_laws L" and "\<forall>v \<in> set vs. in_int v"
  shows "\<exists>k. run_events (stored L) vs (empty_kernel (\<lambda>_. False)) = Inr k \<and> distinct (held k) \<and>
    card (allocated k) = 4 * length vs \<and> set (held k) \<subseteq> allocated k \<and>
    length (mylist k) = length vs \<and> length (concat (myHTable k)) = length vs \<and>
    length (inorder (rbroot k)) = card (set vs) \<and> length (radix_slots k) = card (set vs) \<and>
    card (allocated k - set (held k)) = 2 * (length vs - card (set vs))"
proof -
  let ?k0 = "empty_kernel (\<lambda>_. False)"
  obtain k where k: "run_events (stored L) vs ?k0 = Inr k" "kernel_ok k"
    "contents_of k = fold (spec_store L) vs (contents_of ?k0)"
    using stores.run_refines [of ?k0 L vs] kernel_ok_empty assms(1) by (auto simp: list_all_iff)
  have al: "allocated k = {0 ..< 4 * length vs}"
    using stores_allocate [OF k(1)] by (simp add: empty_kernel_def allocated_def)
  note c = contents_of_numbers [OF assms(1) k(3) assms(2)]
  have "length (concat (myHTable k)) = length (concat (c_hash (contents_of k)))"
    by (simp add: contents_of_def length_concat comp_def)
  then have h: "length (concat (myHTable k)) = length vs"
    using assms(1) unfolding c(2) by (subst (asm) length_buckets) (simp_all add: klib_laws_def)
  have lens: "length (mylist k) = length (c_list (contents_of k))" "length (inorder (rbroot k)) = length (c_tree (contents_of k))"
    "length (radix_slots k) = length (c_radix (contents_of k))"
    by (simp_all add: contents_of_def)
  then have l: "length (mylist k) = length vs" "length (inorder (rbroot k)) = card (set vs)"
    "length (radix_slots k) = card (set vs)"
    unfolding c by (simp_all add: length_index_order)
  have d: "distinct (held k)" "set (held k) \<subseteq> allocated k"
    using k(2) by (auto simp: kernel_ok_def allocated_def)
  then have "card (allocated k - set (held k)) = 4 * length vs - length (held k)"
    by (subst card_Diff_subset) (simp_all add: al distinct_card)
  moreover have "length (held k) = 2 * length vs + 2 * card (set vs)" using h l by (simp add: held_def)
  moreover have "card (set vs) \<le> length vs" by (rule card_length)
  ultimately show ?thesis using k(1) d h l al by auto
qed

theorem stores_leak_repetitions_witness:
  "\<exists>k. run_events (stored sample_klib) [3, -1, 3] (empty_kernel (\<lambda>_. False)) = Inr k \<and>
    card (allocated k) = 12 \<and> card (allocated k - set (held k)) = 2"
proof -
  have "\<forall>v \<in> set [3, -1, 3]. in_int v" by (simp add: in_int_def)
  from stores_leak_repetitions [OF sample_klib_laws this] show ?thesis by (auto simp: card_insert_if)
qed

end
