(* ===== verification/Uffd_Props.thy ===== *)
theory Uffd_Props
  imports Uffd_Correct
begin

text \<open>The properties of the userfaultfd programs.\<close>

section \<open>The loops of main\<close>

lemma strided_run:
  assumes "j \<le> N" and "N * Suc d < 2 ^ 31"
  shows "strided d body (N * Suc d) (j * Suc d) s = run_events (\<lambda>i. body (i * Suc d)) [j..<N] s"
  using assms
proof (induction "N - j" arbitrary: j s)
  case 0
  then have "j = N" by simp
  then show ?case by (subst strided.simps) simp
next
  case (Suc m)
  then have j: "j < N" by simp
  then have "Suc j * Suc d \<le> N * Suc d" by (intro mult_le_mono1) simp
  then have no: "j * Suc d + Suc d < 2 ^ 31" using Suc.prems(2) by simp
  have "j * Suc d < N * Suc d" using j by (intro mult_strict_right_mono) simp_all
  then have "strided d body (N * Suc d) (j * Suc d) s = bind_res (body (j * Suc d) s)
      (\<lambda>s. strided d body (N * Suc d) (Suc j * Suc d) s)"
    using no by (subst strided.simps) (simp add: algebra_simps)
  also have "\<dots> = bind_res (body (j * Suc d) s) (run_events (\<lambda>i. body (i * Suc d)) [Suc j..<N])"
    using Suc.hyps(2) j Suc.prems(2) by (intro bind_res_cong refl Suc.hyps(1)) auto
  finally show ?case using j by (simp add: upt_conv_Cons)
qed

text \<open>After \<open>m\<close> faults in address order: the first \<open>m\<close> pages are resident, each with its letter.\<close>

definition loaded :: "(nat \<Rightarrow> char) \<Rightarrow> nat \<Rightarrow> nat \<Rightarrow> region \<Rightarrow> bool" where
  "loaded letter n m r \<longleftrightarrow> region_ok 12 n r \<and> fault_cnt r = m \<and> m \<le> n \<and>
     (\<forall>p < n. resident r p = (p < m)) \<and>
     (\<forall>l < m * 4096. rbytes r ! l = letter (l div 4096))"

lemma loaded_touch:
  assumes ld: "loaded letter n m r" and l: "l < n * 4096" and near: "l div 4096 \<le> m"
    and srv: "all_served outs" and fill: "fill = (\<lambda>c. replicate 4096 (letter c))"
  shows "\<exists>r'. touch fill outs l r = Inr r' \<and> loaded letter n (max m (Suc (l div 4096))) r'"
proof -
  let ?p = "l div 4096"
  have ok: "region_ok 12 n r" using ld by (simp add: loaded_def)
  have l': "l < n * 2 ^ 12" using l by simp
  have p: "?p < n" using page_end(1) [OF l'] by simp
  have t: "touch fill outs l r =
      Inr (if resident r ?p then r else filled 12 ?p (fill (fault_cnt r)) r)"
    using touch_ok [OF ok l' srv, of fill] fill by simp
  show ?thesis
  proof (cases "?p < m")
    case True
    then show ?thesis using t ld p by (auto simp: loaded_def max_def)
  next
    case False
    then have m: "m = ?p" using near by simp
    let ?page = "replicate (2 ^ 12) (letter m)"
    let ?r = "filled 12 m ?page r"
    have mn: "m < n" using m p by simp
    have "rbytes ?r ! j = letter (j div 4096)" if "j < Suc m * 4096" for j
    proof -
      have "Suc m * 4096 \<le> n * 4096" using mn by (intro mult_le_mono1) simp
      then have "j < n * 2 ^ 12" using that by simp
      moreover have "j div 4096 \<noteq> m \<Longrightarrow> j < m * 4096" using that by simp
      ultimately show ?thesis
        using filled_byte [OF ok mn, of ?page j] ld by (auto simp: loaded_def)
    qed
    moreover have "region_ok 12 n ?r" by (rule region_ok_filled [OF ok mn]) simp
    ultimately have "loaded letter n (Suc m) ?r"
      using ld mn by (auto simp: loaded_def filled_def)
    then show ?thesis using t ld m mn fill by (auto simp: loaded_def)
  qed
qed

text \<open>A loop body that touches the byte at its offset and prints \<open>g\<close> of the offset.\<close>

definition prints :: "(nat \<Rightarrow> char) \<Rightarrow> nat \<Rightarrow> (nat \<Rightarrow> uffd_main_state \<Rightarrow> uffd_main_state res) \<Rightarrow>
    (nat \<Rightarrow> shown) \<Rightarrow> bool" where
  "prints letter n body g \<longleftrightarrow> (\<forall>m l r out. loaded letter n m r \<longrightarrow> l < n * 4096 \<longrightarrow> l div 4096 \<le> m \<longrightarrow>
     (\<exists>r'. body l (r, out) = Inr (r', out @ [g l]) \<and> loaded letter n (max m (Suc (l div 4096))) r'))"

lemma loaded_byte:
  assumes "loaded letter n (max m (Suc (l div 4096))) r"
  shows "rbytes r ! l = letter (l div 4096)" and "l < n * 4096 \<Longrightarrow> l < length (rbytes r)"
proof -
  have "l < Suc (l div 4096) * 4096" by (simp add: dividend_less_div_times)
  also have "\<dots> \<le> max m (Suc (l div 4096)) * 4096" by (intro mult_le_mono1) simp
  finally show "rbytes r ! l = letter (l div 4096)" using assms by (simp add: loaded_def)
  show "l < n * 4096 \<Longrightarrow> l < length (rbytes r)"
    using assms by (simp add: loaded_def region_ok_def)
qed

lemma show_char_prints:
  assumes "all_served outs" and "fill = (\<lambda>c. replicate 4096 (letter c))"
  shows "prints letter n (show_char no fill outs) (\<lambda>l. Char no l (letter (l div 4096)))"
  unfolding prints_def
proof (intro allI impI)
  fix m l r out
  assume "loaded letter n m r" "l < n * 4096" "l div 4096 \<le> m"
  then obtain r' where r': "touch fill outs l r = Inr r'" "loaded letter n (max m (Suc (l div 4096))) r'"
    using loaded_touch [OF _ _ _ assms] by blast
  then show "\<exists>r'. show_char no fill outs l (r, out) =
      Inr (r', out @ [Char no l (letter (l div 4096))]) \<and> loaded letter n (max m (Suc (l div 4096))) r'"
    using loaded_byte(1) [OF r'(2)] by (simp add: show_char_def read_byte_def)
qed

lemma show_str_prints:
  assumes "all_served outs" and "fill = (\<lambda>c. replicate 4096 NUL)"
  shows "prints (\<lambda>_. NUL) n (show_str no fill outs) (\<lambda>l. Str no l [])"
  unfolding prints_def
proof (intro allI impI)
  fix m l r out
  assume "loaded (\<lambda>_. NUL) n m r" "l < n * 4096" "l div 4096 \<le> m"
  then obtain r' where r': "touch fill outs l r = Inr r'"
      "loaded (\<lambda>_. NUL) n (max m (Suc (l div 4096))) r'"
    using loaded_touch [OF _ _ _ assms(1), of "\<lambda>_. NUL" n m r l fill] assms(2) by auto
  then have "read_cstr fill outs l r = Inr ([], r')"
    using loaded_byte(1) [OF r'(2)] by (simp add: read_cstr.simps [of fill outs l r] read_byte_def)
  then show "\<exists>r'. show_str no fill outs l (r, out) = Inr (r', out @ [Str no l []]) \<and>
      loaded (\<lambda>_. NUL) n (max m (Suc (l div 4096))) r'"
    using r' by (simp add: show_str_def)
qed

definition pages_after :: "nat \<Rightarrow> nat \<Rightarrow> nat" where
  "pages_after S j = (case j of 0 \<Rightarrow> 0 | Suc i \<Rightarrow> Suc (i * S div 4096))"

lemma loop_prints:
  assumes "prints letter n body g" and "loaded letter n m r" and "S \<le> 4096"
    and "\<And>i. i < j \<Longrightarrow> i * S < n * 4096"
  shows "\<exists>r'. run_events (\<lambda>i. body (i * S)) [0..<j] (r, out) =
      Inr (r', out @ map (\<lambda>i. g (i * S)) [0..<j]) \<and>
    loaded letter n (max m (pages_after S j)) r'"
  using assms(4)
proof (induction j)
  case 0
  then show ?case using assms(2) by (simp add: pages_after_def max_def)
next
  case (Suc j)
  then obtain r1 where r1: "run_events (\<lambda>i. body (i * S)) [0..<j] (r, out) =
      Inr (r1, out @ map (\<lambda>i. g (i * S)) [0..<j])"
    "loaded letter n (max m (pages_after S j)) r1"
    by auto
  have "j * S div 4096 \<le> pages_after S j"
  proof (cases j)
    case (Suc i)
    have "j * S div 4096 \<le> (i * S + 4096) div 4096"
      using assms(3) Suc by (intro div_le_mono) simp
    then show ?thesis using Suc by (simp add: pages_after_def)
  qed (simp add: pages_after_def)
  moreover have "pages_after S j \<le> pages_after S (Suc j)"
  proof (cases j)
    case (Suc i)
    then show ?thesis by (simp add: pages_after_def div_le_mono)
  qed (simp add: pages_after_def)
  ultimately obtain r2 where "body (j * S) (r1, out @ map (\<lambda>i. g (i * S)) [0..<j]) =
      Inr (r2, (out @ map (\<lambda>i. g (i * S)) [0..<j]) @ [g (j * S)])"
    "loaded letter n (max (max m (pages_after S j)) (Suc (j * S div 4096))) r2"
    using assms(1) r1(2) Suc.prems [of j] unfolding prints_def by fastforce
  moreover have "max (max m (pages_after S j)) (Suc (j * S div 4096)) = max m (pages_after S (Suc j))"
    using \<open>pages_after S j \<le> pages_after S (Suc j)\<close> by (simp add: pages_after_def max_def)
  ultimately show ?case
    using r1(1) by (auto simp: run_events_append)
qed

lemma strided_prints:
  assumes "prints letter n body g" and "loaded letter n m r" and "Suc d \<le> 4096"
    and "N * Suc d = n * 4096" and "n * 4096 < 2 ^ 31"
  shows "\<exists>r'. strided d body (n * 4096) 0 (r, out) =
      Inr (r', out @ map (\<lambda>i. g (i * Suc d)) [0..<N]) \<and> loaded letter n (max m (pages_after (Suc d) N)) r'"
proof -
  have "strided d body (N * Suc d) (0 * Suc d) (r, out) =
      run_events (\<lambda>i. body (i * Suc d)) [0..<N] (r, out)"
    using assms(4,5) by (intro strided_run) simp_all
  moreover have "i * Suc d < n * 4096" if "i < N" for i
    using that unfolding assms(4) [symmetric] by (intro mult_strict_right_mono) simp_all
  ultimately show ?thesis
    using loop_prints [OF assms(1,2,3), where j = N and out = out] assms(4) by simp
qed

lemma pages_after_all: "pages_after 2048 (2 * n) = n" "pages_after 1024 (4 * n) = n"
proof -
  show "pages_after 2048 (2 * n) = n"
  proof (cases n)
    case (Suc k)
    have "2 * n = Suc (Suc (2 * k))" by (simp add: Suc)
    moreover have "Suc (2 * k) * 2048 div 4096 = k" by simp
    ultimately show ?thesis by (simp add: pages_after_def Suc)
  qed (simp add: pages_after_def)
  show "pages_after 1024 (4 * n) = n"
  proof (cases n)
    case (Suc k)
    have "4 * n = Suc (3 + 4 * k)" by (simp add: Suc)
    moreover have "(3 + 4 * k) * 1024 div 4096 = k" by simp
    ultimately show ?thesis by (simp add: pages_after_def Suc)
  qed (simp add: pages_after_def)
qed

definition region_fits :: "nat \<Rightarrow> 64 word \<Rightarrow> bool" where
  "region_fits n base \<longleftrightarrow> n * 4096 < 2 ^ 31 \<and> unat base + n * 4096 < 2 ^ 64 \<and> 4096 dvd unat base"

lemma loaded_fresh: "region_fits n base \<Longrightarrow> loaded letter n 0 (fresh_region 4096 n base)"
  using region_ok_fresh [of 12 base n] by (simp add: loaded_def region_fits_def fresh_region_def)

lemma setup_ok_passes [simp]: "first_failure (setup_checks setup_ok) = None"
  by (simp add: setup_checks_def setup_ok_def)

lemma all_served_served [simp]: "all_served (\<lambda>_. served)"
  by (simp add: all_served_def handler_checks_def served_def)

lemma loop_2048:
  assumes "prints letter n body g" and "loaded letter n m r" and "n * 4096 < 2 ^ 31"
  shows "\<exists>r'. strided 2047 body (n * 4096) 0 (r, out) =
    Inr (r', out @ map (\<lambda>i. g (i * 2048)) [0..<2 * n]) \<and> loaded letter n n r'"
proof -
  have "max m n = n" using assms(2) by (simp add: loaded_def)
  then show ?thesis
    using strided_prints [OF assms(1,2) _ _ assms(3), of 2047 "2 * n" out]
    by (simp add: pages_after_all)
qed

lemma loop_1024:
  assumes "prints letter n body g" and "loaded letter n m r" and "n * 4096 < 2 ^ 31"
  shows "\<exists>r'. strided 1023 body (n * 4096) 0 (r, out) =
    Inr (r', out @ map (\<lambda>i. g (i * 1024)) [0..<4 * n]) \<and> loaded letter n n r'"
proof -
  have "max m n = n" using assms(2) by (simp add: loaded_def)
  then show ?thesis
    using strided_prints [OF assms(1,2) _ _ assms(3), of 1023 "4 * n" out]
    by (simp add: pages_after_all)
qed

lemma three_loops:
  assumes f: "region_fits n base"
    and p1: "prints letter n b1 g1" and p2: "prints letter n b2 g2" and p3: "prints letter n b3 g3"
  shows "\<exists>r. bind_res (strided 2047 b1 (n * 4096) 0 (fresh_region 4096 n base, [])) (\<lambda>s.
      bind_res (strided 2047 b2 (n * 4096) 0 s) (strided 1023 b3 (n * 4096) 0)) =
    Inr (r, map (\<lambda>i. g1 (i * 2048)) [0..<2 * n] @ map (\<lambda>i. g2 (i * 2048)) [0..<2 * n] @
      map (\<lambda>i. g3 (i * 1024)) [0..<4 * n]) \<and> fault_cnt r = n"
    and "\<exists>r. bind_res (strided 1023 b1 (n * 4096) 0 (fresh_region 4096 n base, [])) (\<lambda>s.
      bind_res (strided 2047 b2 (n * 4096) 0 s) (strided 1023 b3 (n * 4096) 0)) =
    Inr (r, map (\<lambda>i. g1 (i * 1024)) [0..<4 * n] @ map (\<lambda>i. g2 (i * 2048)) [0..<2 * n] @
      map (\<lambda>i. g3 (i * 1024)) [0..<4 * n]) \<and> fault_cnt r = n"
proof -
  have n: "n * 4096 < 2 ^ 31" using f by (simp add: region_fits_def)
  note l0 = loaded_fresh [OF f, of letter]
  have rest: "\<exists>r'. bind_res (strided 2047 b2 (n * 4096) 0 (r, out)) (strided 1023 b3 (n * 4096) 0) =
      Inr (r', (out @ map (\<lambda>i. g2 (i * 2048)) [0..<2 * n]) @ map (\<lambda>i. g3 (i * 1024)) [0..<4 * n]) \<and>
      fault_cnt r' = n" if r: "loaded letter n n r" for r out
  proof -
    obtain r2 where r2: "strided 2047 b2 (n * 4096) 0 (r, out) =
        Inr (r2, out @ map (\<lambda>i. g2 (i * 2048)) [0..<2 * n])" "loaded letter n n r2"
      using loop_2048 [OF p2 r n] by blast
    then show ?thesis
      using loop_1024 [OF p3 r2(2) n, of "out @ map (\<lambda>i. g2 (i * 2048)) [0..<2 * n]"]
      by (auto simp: loaded_def)
  qed
  show "\<exists>r. bind_res (strided 2047 b1 (n * 4096) 0 (fresh_region 4096 n base, [])) (\<lambda>s.
      bind_res (strided 2047 b2 (n * 4096) 0 s) (strided 1023 b3 (n * 4096) 0)) =
    Inr (r, map (\<lambda>i. g1 (i * 2048)) [0..<2 * n] @ map (\<lambda>i. g2 (i * 2048)) [0..<2 * n] @
      map (\<lambda>i. g3 (i * 1024)) [0..<4 * n]) \<and> fault_cnt r = n"
  proof -
    obtain r1 where r1: "strided 2047 b1 (n * 4096) 0 (fresh_region 4096 n base, []) =
        Inr (r1, map (\<lambda>i. g1 (i * 2048)) [0..<2 * n])" "loaded letter n n r1"
      using loop_2048 [OF p1 l0 n, of "[]"] by auto
    then show ?thesis using rest [OF r1(2), of "map (\<lambda>i. g1 (i * 2048)) [0..<2 * n]"] by simp
  qed
  show "\<exists>r. bind_res (strided 1023 b1 (n * 4096) 0 (fresh_region 4096 n base, [])) (\<lambda>s.
      bind_res (strided 2047 b2 (n * 4096) 0 s) (strided 1023 b3 (n * 4096) 0)) =
    Inr (r, map (\<lambda>i. g1 (i * 1024)) [0..<4 * n] @ map (\<lambda>i. g2 (i * 2048)) [0..<2 * n] @
      map (\<lambda>i. g3 (i * 1024)) [0..<4 * n]) \<and> fault_cnt r = n"
  proof -
    obtain r1 where r1: "strided 1023 b1 (n * 4096) 0 (fresh_region 4096 n base, []) =
        Inr (r1, map (\<lambda>i. g1 (i * 1024)) [0..<4 * n])" "loaded letter n n r1"
      using loop_1024 [OF p1 l0 n, of "[]"] by auto
    then show ?thesis using rest [OF r1(2), of "map (\<lambda>i. g1 (i * 1024)) [0..<4 * n]"] by simp
  qed
qed

text \<open>
  C23. \<open>Project_3_new/part1/uffd.c\<close> with pages of 4096 bytes: the n-th page, first touched in
  address order, holds the n-th letter of A to T, all three loops print that letter at every
  offset they visit (two or four per page), and there is exactly one fault per page (the second
  and third loop cause none).
\<close>

theorem uffd_letters:
  assumes "region_fits n base"
  shows "\<exists>r. uffd_main_new 4096 setup_ok (\<lambda>_. served) n base = Inr (r,
      map (\<lambda>i. Char 1 (i * 2048) (char_of (65 + i div 2 mod 20 :: nat))) [0..<2 * n] @
      map (\<lambda>i. Char 2 (i * 2048) (char_of (65 + i div 2 mod 20 :: nat))) [0..<2 * n] @
      map (\<lambda>i. Char 3 (i * 1024) (char_of (65 + i div 4 mod 20 :: nat))) [0..<4 * n]) \<and>
    fault_cnt r = n"
proof -
  let ?letter = "\<lambda>c. char_of (65 + c mod 20 :: nat) :: char"
  have "letter_page 4096 = (\<lambda>c. replicate 4096 (?letter c))" by (simp add: letter_page_def fun_eq_iff)
  then have p: "prints ?letter n (show_char no (letter_page 4096) (\<lambda>_. served))
      (\<lambda>l. Char no l (?letter (l div 4096)))" for no
    by (rule show_char_prints [OF all_served_served])
  show ?thesis
    using three_loops(1) [OF assms p p p, of 1 2 3] by (simp add: uffd_main_new_def Let_def)
qed

theorem uffd_letters_witness:
  "\<exists>r. uffd_main_new 4096 setup_ok (\<lambda>_. served) 3 (2 ^ 20) = Inr (r,
      map (\<lambda>i. Char 1 (i * 2048) (char_of (65 + i div 2 mod 20 :: nat))) [0..<2 * 3] @
      map (\<lambda>i. Char 2 (i * 2048) (char_of (65 + i div 2 mod 20 :: nat))) [0..<2 * 3] @
      map (\<lambda>i. Char 3 (i * 1024) (char_of (65 + i div 4 mod 20 :: nat))) [0..<4 * 3]) \<and>
    fault_cnt r = 3"
  by (rule uffd_letters) (simp add: region_fits_def)

text \<open>
  \<open>Project_3/part1/uffd.c\<close>: every page is cleared before it is copied in, so the first loop
  prints empty strings, the others NUL characters, again with one fault per page.
\<close>

theorem uffd_zero_pages:
  assumes "region_fits n base"
  shows "\<exists>r. uffd_main_old 4096 setup_ok (\<lambda>_. served) n base = Inr (r,
      map (\<lambda>i. Str 1 (i * 1024) []) [0..<4 * n] @
      map (\<lambda>i. Char 2 (i * 2048) NUL) [0..<2 * n] @
      map (\<lambda>i. Char 3 (i * 1024) NUL) [0..<4 * n]) \<and>
    fault_cnt r = n"
proof -
  have z: "zero_page 4096 = (\<lambda>c. replicate 4096 NUL)" by (simp add: zero_page_def fun_eq_iff)
  have p: "prints (\<lambda>_. NUL) n (show_char no (zero_page 4096) (\<lambda>_. served)) (\<lambda>l. Char no l NUL)" for no
    by (rule show_char_prints [OF all_served_served z])
  show ?thesis
    using three_loops(2) [OF assms show_str_prints [OF all_served_served z] p p, of 1 2 3]
    by (simp add: uffd_main_old_def Let_def)
qed

theorem uffd_zero_pages_witness:
  "\<exists>r. uffd_main_old 4096 setup_ok (\<lambda>_. served) 2 (2 ^ 20) = Inr (r,
      map (\<lambda>i. Str 1 (i * 1024) []) [0..<4 * 2] @
      map (\<lambda>i. Char 2 (i * 2048) NUL) [0..<2 * 2] @
      map (\<lambda>i. Char 3 (i * 1024) NUL) [0..<4 * 2]) \<and>
    fault_cnt r = 2"
  by (rule uffd_zero_pages) (simp add: region_fits_def)

section \<open>On-demand zero pages\<close>

text \<open>
  C24. Any loads and stores inside a region of which the handler fills each page with zeros on
  the first access return, and the loads see exactly what they would see in memory that was zero
  from the start, for any page size that is a power of two.
\<close>

theorem uffd_lazy_zero_memory:
  assumes "k < 64" and "unat base + n * 2 ^ k < 2 ^ 64" and "2 ^ k dvd unat base"
    and "all_served outs" and "list_all (access_ok k n) as"
  shows "\<exists>r seen. run_events (access_step outs k) as (fresh_region (2 ^ k) n base, []) = Inr (r, seen) \<and>
    (flat r, seen) = fold flat_step as (replicate (n * 2 ^ k) NUL, [])"
  using lazy_memory.run_refines [where s = "(fresh_region (2 ^ k) n base, [])" and k = k and n = n
      and outs = outs and es = as]
    region_ok_fresh [OF assms(1-3)] assms(4,5)
  by (auto simp: flat_fresh)

theorem uffd_lazy_zero_memory_witness:
  "\<exists>r seen. run_events (access_step (\<lambda>_. served) 4) [Store 17 CHR ''x'', Load 3, Load 17]
      (fresh_region (2 ^ 4) 2 (2 ^ 20), []) = Inr (r, seen) \<and>
    (flat r, seen) = fold flat_step [Store 17 CHR ''x'', Load 3, Load 17]
      (replicate (2 * 2 ^ 4) NUL, [])"
  by (rule uffd_lazy_zero_memory) (simp_all add: access_ok_def)

end
