(* ===== verification/Sockets_Props.thy ===== *)
theory Sockets_Props
  imports Sockets
begin

text \<open>
  What the socket programs do when a call fails, what a client and a server say to each other
  when none does, and the defects of the drafts in \<open>Project_3\<close>.
\<close>

section \<open>Running a program\<close>

named_theorems io_simps

lemmas [io_simps] = bind_io_def ret_def exit_io_def print_io_def sys_call_def recv_call_def
  need_def warn_def open_server_def Let_def start_def

text \<open>An environment in which calls on a descriptor that is not one fail, as documented.\<close>

definition rejects_bad_fds :: "env \<Rightarrow> bool" where
  "rejects_bad_fds e \<longleftrightarrow> (\<forall>tr fd. fd < 0 \<longrightarrow> fst (e tr (Setsockopt fd)) = -1)"

text \<open>
  The servers test the descriptor of \<open>socket\<close> against 0, so a failed call (a negative
  value) is not noticed there; but the next call then fails, and every server ends with that
  call's message, without having bound, listened or accepted.
\<close>

theorem servers_stop_on_failed_socket:
  assumes "rejects_bad_fds e" and "fst (e [] Socket) < 0"
  shows "list_all (\<lambda>server. server e start = (Inl ''setsockopt'',
      \<lparr>calls = [(Socket, fst (e [] Socket)), (Setsockopt (fst (e [] Socket)), -1)], shown = []\<rparr>))
    [p1_server, cs_server ptr, p22_server, p2_server mem_size, sub_server, v2_server n,
     \<lambda>e. bind_io (msi_accept e) (\<lambda>_. ret ()), \<lambda>e. bind_io (draft_accept e) (\<lambda>_. ret ())]"
proof -
  have "open_server e start = (Inl ''setsockopt'',
      \<lparr>calls = [(Socket, fst (e [] Socket)), (Setsockopt (fst (e [] Socket)), -1)], shown = []\<rparr>)"
    using assms by (simp add: io_simps rejects_bad_fds_def)
  moreover have "draft_accept e start = (Inl ''setsockopt'',
      \<lparr>calls = [(Socket, fst (e [] Socket)), (Setsockopt (fst (e [] Socket)), -1)], shown = []\<rparr>)"
    using assms by (simp add: io_simps rejects_bad_fds_def draft_accept_def)
  ultimately show ?thesis
    by (simp add: p1_server_def cs_server_def p22_server_def p2_server_def sub_server_def
        v2_server_def msi_accept_def bind_io_def)
qed

definition failing_env :: env where
  "failing_env tr c = (-1, [])"

theorem servers_stop_on_failed_socket_witness:
  "list_all (\<lambda>server. server failing_env start = (Inl ''setsockopt'',
      \<lparr>calls = [(Socket, -1), (Setsockopt (-1), -1)], shown = []\<rparr>))
    [p1_server, cs_server [], p22_server, p2_server 0, sub_server, v2_server 1,
     \<lambda>e. bind_io (msi_accept e) (\<lambda>_. ret ()), \<lambda>e. bind_io (draft_accept e) (\<lambda>_. ret ())]"
  using servers_stop_on_failed_socket [of failing_env "[]" 0 1]
  by (simp add: failing_env_def rejects_bad_fds_def)

section \<open>The two programs of project 1 together\<close>

text \<open>All calls succeed; what is received is given.\<close>

definition working :: "string \<Rightarrow> env \<Rightarrow> bool" where
  "working bytes e \<longleftrightarrow> (\<forall>tr. fst (e tr Socket) > 0 \<and> fst (e tr Inet_addr) > 0 \<and>
     (\<forall>fd. fst (e tr (Setsockopt fd)) = 0 \<and> fst (e tr (Bind fd)) = 0 \<and> fst (e tr (Listen fd)) = 0 \<and>
        fst (e tr (Connect fd)) = 0 \<and> 0 < fst (e tr (Accept fd)) \<and>
        (\<forall>n. snd (e tr (Recv fd n)) = bytes)))"

fun sent :: "(syscall \<times> int) list \<Rightarrow> string" where
  "sent [] = []"
| "sent ((Send fd s, r) # tr) = s @ sent tr"
| "sent (_ # tr) = sent tr"

lemma sent_append [simp]: "sent (tr @ tr') = sent tr @ sent tr'"
  by (induction tr rule: sent.induct) auto

lemma working_simps:
  assumes "working b e"
  shows "\<not> fst (e tr Socket) < 0" "fst (e tr Socket) \<noteq> 0" "\<not> fst (e tr Inet_addr) \<le> 0"
    "fst (e tr (Setsockopt fd)) = 0" "fst (e tr (Bind fd)) = 0" "fst (e tr (Listen fd)) = 0"
    "fst (e tr (Connect fd)) = 0" "\<not> fst (e tr (Accept fd)) < 0" "fst (e tr (Accept fd)) \<noteq> 0"
    "snd (e tr (Recv fd n)) = b"
  using assms unfolding working_def by (metis order_less_asym order_less_irrefl not_less)+

text \<open>
  When every call succeeds and each side receives what the other sent, the server of
  project 1 prints the client's greeting and the client the server's, both return, and the
  server answers on the descriptor that \<open>accept\<close> returned.
\<close>

theorem p1_hello_exchange:
  assumes "working (sent (calls (snd (p1_client ec start)))) es"
    and "working (sent (calls (snd (p1_server es start)))) ec"
  shows "\<exists>ps pc. p1_server es start = (Inr (), ps) \<and> p1_client ec start = (Inr (), pc) \<and>
    shown ps = [''Message from a client: Hello from client'', ''Hello message sent''] \<and>
    shown pc = [''Hello message sent'', ''Message from a server: Hello from server''] \<and>
    (\<exists>fd nfd r. (Accept fd, nfd) \<in> set (calls ps) \<and> (Send nfd hello_server, r) \<in> set (calls ps))"
proof -
  have c: "\<exists>pc. p1_client ec start = (Inr (), pc) \<and> sent (calls pc) = hello_client \<and>
      shown pc = [''Hello message sent'', ''Message from a server: '' @ received (take 1024 b)]"
    if "working b ec" for b
    by (simp add: p1_client_def io_simps working_simps [OF that] split_beta)
  then have sc: "sent (calls (snd (p1_client ec start))) = hello_client" using assms(2) by force
  have s: "\<exists>ps. p1_server es start = (Inr (), ps) \<and> sent (calls ps) = hello_server \<and>
      shown ps = [''Message from a client: '' @ received (take 1024 b), ''Hello message sent''] \<and>
      (\<exists>fd nfd r. (Accept fd, nfd) \<in> set (calls ps) \<and> (Send nfd hello_server, r) \<in> set (calls ps))"
    if "working b es" for b
    by (simp add: p1_server_def io_simps working_simps [OF that] split_beta)
  then have ss: "sent (calls (snd (p1_server es start))) = hello_server" using assms(1) by force
  show ?thesis
    using c [OF assms(2) [unfolded ss]] s [OF assms(1) [unfolded sc]]
    by (fastforce simp: received_def hello_server_def hello_client_def)
qed

definition answering_env :: "string \<Rightarrow> env" where
  "answering_env bytes tr c = (case c of
       Socket \<Rightarrow> (3, []) | Accept _ \<Rightarrow> (4, []) | Inet_addr \<Rightarrow> (1, [])
     | Recv _ n \<Rightarrow> (int (length bytes), bytes) | Send _ s \<Rightarrow> (int (length s), []) | _ \<Rightarrow> (0, []))"

lemma working_answering: "working bytes (answering_env bytes)"
  by (simp add: working_def answering_env_def)

theorem p1_hello_exchange_witness:
  "\<exists>ps pc. p1_server (answering_env hello_client) start = (Inr (), ps) \<and>
    p1_client (answering_env hello_server) start = (Inr (), pc) \<and>
    shown ps = [''Message from a client: Hello from client'', ''Hello message sent''] \<and>
    shown pc = [''Hello message sent'', ''Message from a server: Hello from server''] \<and>
    (\<exists>fd nfd r. (Accept fd, nfd) \<in> set (calls ps) \<and> (Send nfd hello_server, r) \<in> set (calls ps))"
proof -
  have "sent (calls (snd (p1_client (answering_env b) start))) = hello_client"
    "sent (calls (snd (p1_server (answering_env b) start))) = hello_server" for b
    by (simp_all add: p1_client_def p1_server_def io_simps working_simps [OF working_answering] split_beta)
  then show ?thesis
    using p1_hello_exchange [of "answering_env hello_server" "answering_env hello_client"]
    by (simp add: working_answering)
qed

section \<open>Defects of the drafts\<close>

text \<open>
  \<open>part22.c\<close> sends its greeting to descriptor 0, the standard input, whatever descriptor
  \<open>accept\<close> returned: the client that connected is never answered.
\<close>

theorem p22_server_answers_stdin:
  assumes "working bytes e"
  shows "\<exists>p fd nfd. p22_server e start = (Inr (), p) \<and> (Accept fd, nfd) \<in> set (calls p) \<and> 0 < nfd \<and>
    (\<forall>fd' s r. (Send fd' s, r) \<in> set (calls p) \<longrightarrow> fd' = 0 \<and> fd' \<noteq> nfd)"
proof -
  note w = working_simps [OF assms]
  have "0 < fst (e tr (Accept fd))" for tr fd using assms by (simp add: working_def)
  then show ?thesis
    by (simp add: p22_server_def io_simps w split_beta)
qed

theorem p22_server_answers_stdin_witness:
  "\<exists>p fd nfd. p22_server (answering_env []) start = (Inr (), p) \<and>
    (Accept fd, nfd) \<in> set (calls p) \<and> 0 < nfd \<and>
    (\<forall>fd' s r. (Send fd' s, r) \<in> set (calls p) \<longrightarrow> fd' = 0 \<and> fd' \<noteq> nfd)"
  using p22_server_answers_stdin [OF working_answering] .

text \<open>
  \<open>part2_v2\<close> compares the key pressed with the numbers 0 and 1, not with the characters:
  after the keys 0 to 9 it returns having made no socket call at all.
\<close>

theorem v2_main_ignores_digits:
  assumes "fst (e [] Getchar) \<in> {48..57}"
  shows "v2_main n e start =
    (Inr (), \<lparr>calls = [(Getchar, fst (e [] Getchar))], shown = [''Hello World'']\<rparr>)"
  using assms by (simp add: v2_main_def io_simps)

definition typing_env :: "int \<Rightarrow> env" where
  "typing_env key tr c = (case c of Getchar \<Rightarrow> (key, []) | _ \<Rightarrow> answering_env [] tr c)"

theorem v2_main_ignores_digits_witness:
  "v2_main 3 (typing_env 48) start =
    (Inr (), \<lparr>calls = [(Getchar, 48)], shown = [''Hello World'']\<rparr>)"
  using v2_main_ignores_digits [of "typing_env 48" 3] by (simp add: typing_env_def)

definition connects_at :: "nat \<Rightarrow> int \<Rightarrow> env \<Rightarrow> bool" where
  "connects_at k fd e \<longleftrightarrow> (\<forall>tr. fst (e tr (Connect fd)) =
     (if length (filter (\<lambda>(c, r). c = Connect fd) tr) < k then -1 else 0))"

lemma retry_connect_steps:
  assumes "connects_at k fd e" and "k = length (filter (\<lambda>(c, r). c = Connect fd) (calls p)) + j" and "j < n"
  shows "\<exists>q. retry_connect n fd e p = (Inr (), q) \<and>
    length (filter (\<lambda>(c, r). c = Connect fd) (calls q)) = Suc k \<and>
    length (filter (\<lambda>(c, r). c = Sleep) (calls q)) =
      length (filter (\<lambda>(c, r). c = Sleep) (calls p)) + j"
  using assms(2,3)
proof (induction j arbitrary: p n)
  case 0
  then obtain m where "n = Suc m" by (cases n) auto
  then show ?case using 0 assms(1) by (simp add: io_simps connects_at_def)
next
  case (Suc j)
  then obtain m where n: "n = Suc m" and m: "j < m" by (cases n) auto
  let ?p = "snd (bind_io (sys_call e (Connect fd)) (\<lambda>_. bind_io (print_io ''Connection Failed'')
    (\<lambda>_. sys_call e Sleep)) p)"
  have "\<exists>q. retry_connect m fd e ?p = (Inr (), q) \<and>
    length (filter (\<lambda>(c, r). c = Connect fd) (calls q)) = Suc k \<and>
    length (filter (\<lambda>(c, r). c = Sleep) (calls q)) =
      length (filter (\<lambda>(c, r). c = Sleep) (calls ?p)) + j"
    using Suc.prems m by (intro Suc.IH) (simp_all add: io_simps)
  moreover have "retry_connect n fd e p = retry_connect m fd e ?p"
    using Suc.prems assms(1) n by (simp add: io_simps connects_at_def)
  moreover have "length (filter (\<lambda>(c, r). c = Sleep) (calls ?p)) =
      Suc (length (filter (\<lambda>(c, r). c = Sleep) (calls p)))"
    by (simp add: io_simps)
  ultimately show ?case by simp
qed

text \<open>
  C25. The client that retries \<open>connect\<close> goes on as soon as the server is there: if the k-th
  attempt is the first to succeed, k + 1 attempts and k pauses are made, whatever more was allowed.
\<close>

theorem retry_connect_returns:
  assumes "connects_at k fd e" and "k < n"
  shows "\<exists>q. retry_connect n fd e start = (Inr (), q) \<and>
    length (filter (\<lambda>(c, r). c = Connect fd) (calls q)) = Suc k \<and>
    length (filter (\<lambda>(c, r). c = Sleep) (calls q)) = k"
  using retry_connect_steps [OF assms(1), of start k n] assms(2) by (simp add: start_def)

definition late_env :: "nat \<Rightarrow> env" where
  "late_env k tr c = (case c of
     Connect fd \<Rightarrow> (if length (filter (\<lambda>(c, r). c = Connect fd) tr) < k then -1 else 0, []) | _ \<Rightarrow> (0, []))"

theorem retry_connect_returns_witness:
  "\<exists>q. retry_connect 5 3 (late_env 2) start = (Inr (), q) \<and>
    length (filter (\<lambda>(c, r). c = Connect 3) (calls q)) = Suc 2 \<and>
    length (filter (\<lambda>(c, r). c = Sleep) (calls q)) = 2"
  by (rule retry_connect_returns) (simp_all add: connects_at_def late_env_def)

end
