(* ===== verification/Shm_Boot.thy ===== *)
theory Shm_Boot
  imports Shm Msi_System
begin

text \<open>
  How the two processes of \<open>Project_3/part3/part3.c\<close> come up. In each process \<open>main\<close> starts a server
  and a client thread, waits for both, starts the fault handler and goes to the menu. The threads
  share \<open>order\<close>, \<open>data\<close>, \<open>recv_data\<close> and \<open>page_size\<close> without a lock: the client thread sets \<open>order\<close> by
  whether its first \<open>connect\<close> succeeds, the server thread looks at it once, after \<open>accept\<close>. A
  step is one thread's code between two accesses to what the others read or write.
\<close>

section \<open>State\<close>

text \<open>\<open>stuff\<close>, and what it is before anything is stored in it.\<close>

record shm_stuff =
  st_addr :: "64 word"
  st_pages :: "64 word"
  st_uffd :: int
  st_length :: "64 word"

definition no_stuff :: shm_stuff where
  "no_stuff = \<lparr>st_addr = 0, st_pages = 0, st_uffd = 0, st_length = 0\<rparr>"

datatype shm_main_at = M_Server | M_Client | M_Join | M_Menu

datatype shm_server_at = V_None | V_Begin | V_Listening | V_Accepted | V_Map | V_Sent | V_Done

datatype shm_client_at = K_None | K_Begin | K_Linked | K_Failed | K_Retry | K_Receive | K_Done

datatype shm_handler_at = H_None | H_Begin | H_Loop

text \<open>
  \<open>joined\<close>: the other process's client is connected to this one's server; \<open>received\<close>: what this one's
  client has yet to read; \<open>mapped\<close>: where its pages really are and how many fit.
\<close>

record shm_proc =
  order :: nat
  m_at :: shm_main_at
  v_at :: shm_server_at
  k_at :: shm_client_at
  h_at :: shm_handler_at
  joined :: bool
  received :: "shm_stuff list"
  own_data :: shm_stuff
  recv_data :: shm_stuff
  psize :: nat
  mapped :: "(64 word \<times> nat) option"
  handler_on :: int
  menu_of :: "shm option"

type_synonym shm_pair = "side \<Rightarrow> shm_proc"

definition shm_idle :: shm_proc where
  "shm_idle = \<lparr>order = 0, m_at = M_Server, v_at = V_None, k_at = K_None, h_at = H_None, joined = False,
     received = [], own_data = no_stuff, recv_data = no_stuff, psize = 0, mapped = None, handler_on = 0,
     menu_of = None\<rparr>"

definition shm_boot_start :: shm_pair where
  "shm_boot_start w = shm_idle"

text \<open>
  What the kernel and the users do: the page size, the page counts entered, the address a mapping
  gets (given the one asked for, 0 for none), descriptors, which calls fail, and what the
  buffer of the menu's messages holds before the first.
\<close>

datatype shm_call =
    Create_server
  | Create_client
  | Create_handler
  | Map_pages
  | Open_uffd
  | Api_uffd
  | Register_uffd
  | Map_page

record shm_env =
  se_page :: nat
  se_count :: "side \<Rightarrow> 64 word"
  se_mmap :: "side \<Rightarrow> 64 word \<Rightarrow> 64 word"
  se_uffd :: "side \<Rightarrow> int"
  se_fails :: "side \<Rightarrow> shm_call \<Rightarrow> bool"
  se_msg :: "side \<Rightarrow> string"

section \<open>The threads\<close>

text \<open>\<open>mmap\<close> fails on an empty range, whatever else may make it fail.\<close>

definition map_range :: "shm_env \<Rightarrow> side \<Rightarrow> shm_call \<Rightarrow> 64 word \<Rightarrow> 64 word \<Rightarrow> 64 word res" where
  "map_range e w c hint len = (if len = 0 \<or> se_fails e w c then Inl (Exit ''mmap'') else Inr (se_mmap e w hint))"

definition uffd_checks :: "shm_env \<Rightarrow> side \<Rightarrow> shm_call list \<Rightarrow> unit res" where
  "uffd_checks e w cs =
     (case first_failure (map (\<lambda>c. (se_fails e w c,
          case c of Open_uffd \<Rightarrow> ''userfaultfd'' | Api_uffd \<Rightarrow> ''ioctl-UFFDIO_API'' | _ \<Rightarrow> ''ioctl-UFFDIO_REGISTER'')) cs) of
        None \<Rightarrow> Inr () | Some msg \<Rightarrow> Inl (Exit msg))"

definition range_length :: "shm_env \<Rightarrow> 64 word \<Rightarrow> 64 word" where
  "range_length e pages = pages * word_of_nat (se_page e)"

definition deliver :: "side \<Rightarrow> shm_stuff \<Rightarrow> shm_pair \<Rightarrow> shm_pair" where
  "deliver w d b = b(w := (b w)\<lparr>received := received (b w) @ [d]\<rparr>)"

text \<open>
  \<open>server_socket\<close>: \<open>socket\<close> to \<open>listen\<close>; \<open>accept\<close>; the test of \<open>order\<close>; on machine 1 the pages are
  mapped and the address is sent, before the descriptor is opened and the pages registered.
\<close>

definition shm_boot_server :: "shm_env \<Rightarrow> side \<Rightarrow> shm_pair \<Rightarrow> shm_pair res" where
  "shm_boot_server e w b =
     (let p = b w
      in case v_at p of
        V_None \<Rightarrow> Inl NotEnabled
      | V_Begin \<Rightarrow> Inr (b(w := p\<lparr>v_at := V_Listening\<rparr>))
      | V_Listening \<Rightarrow> if joined p then Inr (b(w := p\<lparr>v_at := V_Accepted\<rparr>)) else Inl NotEnabled
      | V_Accepted \<Rightarrow> Inr (b(w := p\<lparr>v_at := (if order p = 1 then V_Map else V_Done)\<rparr>))
      | V_Map \<Rightarrow>
          let len = range_length e (se_count e w) in
          bind_res (map_range e w Map_pages 0 len) (\<lambda>addr.
          let d = (own_data p)\<lparr>st_pages := se_count e w, st_length := len, st_addr := addr\<rparr>
          in Inr (deliver (peer w) d (b(w := p\<lparr>own_data := d, psize := se_page e,
                mapped := Some (addr, unat len div se_page e), v_at := V_Sent\<rparr>))))
      | V_Sent \<Rightarrow>
          bind_res (uffd_checks e w [Open_uffd, Api_uffd, Register_uffd]) (\<lambda>_.
          Inr (b(w := p\<lparr>own_data := (own_data p)\<lparr>st_uffd := se_uffd e w\<rparr>, v_at := V_Done\<rparr>)))
      | V_Done \<Rightarrow> Inl NotEnabled)"

text \<open>
  \<open>client_socket\<close>: the first \<open>connect\<close>; the order; the \<open>connect\<close> loop of machine 1 (a failed attempt
  changes nothing, so the thread waits until one can succeed); on machine 2 the address received,
  the descriptor, the pages mapped with that address as the hint, and their registration.
\<close>

definition shm_listens :: "side \<Rightarrow> shm_pair \<Rightarrow> bool" where
  "shm_listens w b \<longleftrightarrow> v_at (b w) \<noteq> V_None \<and> v_at (b w) \<noteq> V_Begin"

definition shm_link :: "side \<Rightarrow> shm_pair \<Rightarrow> shm_pair" where
  "shm_link w b = b(w := (b w)\<lparr>joined := True\<rparr>)"

definition shm_boot_client :: "shm_env \<Rightarrow> side \<Rightarrow> shm_pair \<Rightarrow> shm_pair res" where
  "shm_boot_client e w b =
     (let p = b w
      in case k_at p of
        K_None \<Rightarrow> Inl NotEnabled
      | K_Begin \<Rightarrow>
          if shm_listens (peer w) b then Inr (shm_link (peer w) (b(w := p\<lparr>k_at := K_Linked\<rparr>)))
          else Inr (b(w := p\<lparr>k_at := K_Failed\<rparr>))
      | K_Linked \<Rightarrow> Inr (b(w := p\<lparr>order := 2, k_at := K_Receive\<rparr>))
      | K_Failed \<Rightarrow> Inr (b(w := p\<lparr>order := 1, k_at := K_Retry\<rparr>))
      | K_Retry \<Rightarrow>
          if shm_listens (peer w) b then Inr (shm_link (peer w) (b(w := p\<lparr>k_at := K_Done\<rparr>)))
          else Inl NotEnabled
      | K_Receive \<Rightarrow>
          (case received p of
             [] \<Rightarrow> Inl NotEnabled
           | d # rest \<Rightarrow>
               let len = range_length e (st_pages d) in
               bind_res (uffd_checks e w [Open_uffd]) (\<lambda>_.
               bind_res (map_range e w Map_pages (st_addr d) len) (\<lambda>recv_addr.
               bind_res (uffd_checks e w [Api_uffd, Register_uffd]) (\<lambda>_.
               Inr (b(w := p\<lparr>received := rest, recv_data := d\<lparr>st_length := len, st_uffd := se_uffd e w\<rparr>,
                    psize := se_page e, mapped := Some (recv_addr, unat len div se_page e), k_at := K_Done\<rparr>))))))
      | K_Done \<Rightarrow> Inl NotEnabled)"

text \<open>
  \<open>main\<close>: the threads are created and joined, \<open>mch\<close> is chosen by \<open>order\<close>, the handler is created with
  its descriptor, and the menu begins on the pages of \<open>mch\<close>.
\<close>

definition chosen :: "shm_proc \<Rightarrow> shm_stuff" where
  "chosen p = (if order p = 1 then own_data p else if order p = 2 then recv_data p else no_stuff)"

definition menu_start :: "string \<Rightarrow> shm_proc \<Rightarrow> shm" where
  "menu_start msg p =
     (let mch = chosen p;
          (base, n) = (case mapped p of None \<Rightarrow> (0, 0) | Some m \<Rightarrow> m)
      in \<lparr>reg = fresh_region (psize p) n base, mch_addr = st_addr mch, pg_size = st_pages mch,
          mlength = unat (st_length mch), msgbuf = msg, lines = []\<rparr>)"

definition create :: "shm_env \<Rightarrow> side \<Rightarrow> shm_call \<Rightarrow> shm_proc \<Rightarrow> shm_pair \<Rightarrow> shm_pair res" where
  "create e w c p b = (if se_fails e w c then Inl (Exit ''pthread_create'') else Inr (b(w := p)))"

definition shm_boot_main :: "shm_env \<Rightarrow> side \<Rightarrow> shm_pair \<Rightarrow> shm_pair res" where
  "shm_boot_main e w b =
     (let p = b w
      in case m_at p of
        M_Server \<Rightarrow> create e w Create_server (p\<lparr>v_at := V_Begin, m_at := M_Client\<rparr>) b
      | M_Client \<Rightarrow> create e w Create_client (p\<lparr>k_at := K_Begin, m_at := M_Join\<rparr>) b
      | M_Join \<Rightarrow>
          if k_at p = K_Done \<and> v_at p = V_Done then
            create e w Create_handler (p\<lparr>handler_on := st_uffd (chosen p), h_at := H_Begin,
              menu_of := Some (menu_start (se_msg e w) p), m_at := M_Menu\<rparr>) b
          else Inl NotEnabled
      | M_Menu \<Rightarrow> Inl NotEnabled)"

text \<open>\<open>fault_handler_thread\<close> up to its loop: a page of \<open>page_size\<close> bytes to copy from.\<close>

definition shm_boot_handler :: "shm_env \<Rightarrow> side \<Rightarrow> shm_pair \<Rightarrow> shm_pair res" where
  "shm_boot_handler e w b =
     (let p = b w
      in case h_at p of
        H_Begin \<Rightarrow>
          bind_res (map_range e w Map_page 0 (word_of_nat (psize p))) (\<lambda>_. Inr (b(w := p\<lparr>h_at := H_Loop\<rparr>)))
      | _ \<Rightarrow> Inl NotEnabled)"

datatype shm_thread = Main_of side | Server_of side | Client_of side | Handler_of side

fun shm_boot_step :: "shm_env \<Rightarrow> shm_thread \<Rightarrow> shm_pair \<Rightarrow> shm_pair res" where
  "shm_boot_step e (Main_of w) b = shm_boot_main e w b"
| "shm_boot_step e (Server_of w) b = shm_boot_server e w b"
| "shm_boot_step e (Client_of w) b = shm_boot_client e w b"
| "shm_boot_step e (Handler_of w) b = shm_boot_handler e w b"

text \<open>
  The handler's loop: faults one after the other, each answered with the same page, which
  nothing ever writes to.
\<close>

definition shm_handler_loop :: "(pf_outcome \<times> 64 word) list \<Rightarrow> region \<Rightarrow> region res" where
  "shm_handler_loop faults r =
     (let page = replicate (rsize r) NUL
      in run_events (\<lambda>(out, address). fault_handler_iter (\<lambda>_. page) out address) faults r)"

end
