(* ===== verification/Shm_Boot_Props.thy ===== *)
theory Shm_Boot_Props
  imports Shm_Boot Shm_Correct
begin

text \<open>
  The start of \<open>Project_3/part3/part3.c\<close> under every schedule: its invariant, how long it takes and where
  it ends, and that the menus it comes to are those of the abstract specification.
\<close>

section \<open>The invariant\<close>

definition own_base :: "shm_env \<Rightarrow> side \<Rightarrow> 64 word" where
  "own_base e w = se_mmap e w 0"

definition own_sent :: "shm_env \<Rightarrow> side \<Rightarrow> shm_stuff" where
  "own_sent e w = \<lparr>st_addr = own_base e w, st_pages = se_count e w, st_uffd = 0,
     st_length = range_length e (se_count e w)\<rparr>"

definition pages_in :: "shm_env \<Rightarrow> side \<Rightarrow> nat" where
  "pages_in e w = unat (range_length e (se_count e w)) div se_page e"

definition order_ok :: "shm_proc \<Rightarrow> bool" where
  "order_ok p \<longleftrightarrow>
     (case k_at p of K_Retry \<Rightarrow> order p = 1 | K_Receive \<Rightarrow> order p = 2 | K_Done \<Rightarrow> order p = 1 \<or> order p = 2
      | _ \<Rightarrow> order p = 0)"

definition accept_ok :: "shm_proc \<Rightarrow> bool" where
  "accept_ok p \<longleftrightarrow> (joined p \<longrightarrow> v_at p \<noteq> V_None \<and> v_at p \<noteq> V_Begin) \<and>
     (v_at p = V_None \<or> v_at p = V_Begin \<or> v_at p = V_Listening \<or> joined p) \<and>
     (v_at p = V_Map \<or> v_at p = V_Sent \<longrightarrow> order p = 1)"

definition threads_ok :: "shm_env \<Rightarrow> side \<Rightarrow> shm_proc \<Rightarrow> bool" where
  "threads_ok e w p \<longleftrightarrow> (v_at p = V_None) = (m_at p = M_Server) \<and>
     (k_at p = K_None) = (m_at p = M_Server \<or> m_at p = M_Client) \<and>
     (m_at p = M_Menu \<longrightarrow> k_at p = K_Done \<and> v_at p = V_Done) \<and>
     (h_at p = H_None) = (m_at p \<noteq> M_Menu) \<and> (h_at p = H_Loop \<longrightarrow> psize p \<noteq> 0) \<and>
     menu_of p = (if m_at p = M_Menu then Some (menu_start (se_msg e w) p) else None)"

definition memory_ok :: "shm_env \<Rightarrow> side \<Rightarrow> shm_proc \<Rightarrow> bool" where
  "memory_ok e w p \<longleftrightarrow>
     (if mapped p = None then own_data p = no_stuff \<and> psize p = 0 \<and> v_at p \<noteq> V_Sent \<and> (order p = 2 \<longrightarrow> k_at p \<noteq> K_Done)
      else psize p = se_page e \<and>
        (if order p = 1 then mapped p = Some (own_base e w, pages_in e w) \<and> (v_at p = V_Sent \<or> v_at p = V_Done) \<and>
           own_data p = (own_sent e w)\<lparr>st_uffd := (if v_at p = V_Done then se_uffd e w else 0)\<rparr>
         else order p = 2 \<and> k_at p = K_Done \<and>
           mapped p = Some (se_mmap e w (own_base e (peer w)), pages_in e (peer w)) \<and>
           recv_data p = (own_sent e (peer w))\<lparr>st_uffd := se_uffd e w\<rparr>))"

definition address_sent :: "shm_proc \<Rightarrow> bool" where
  "address_sent p \<longleftrightarrow> order p = 1 \<and> mapped p \<noteq> None"

definition address_read :: "shm_proc \<Rightarrow> bool" where
  "address_read p \<longleftrightarrow> order p = 2 \<and> mapped p \<noteq> None"

text \<open>The connection of \<open>p\<close>'s client to \<open>q\<close>'s server, where \<open>q\<close> is the process \<open>w\<close>.\<close>

definition socket_ok :: "shm_env \<Rightarrow> side \<Rightarrow> shm_proc \<Rightarrow> shm_proc \<Rightarrow> bool" where
  "socket_ok e w q p \<longleftrightarrow> joined q = (k_at p = K_Linked \<or> k_at p = K_Receive \<or> k_at p = K_Done) \<and>
     received p = (if address_sent q \<and> \<not> address_read p then [own_sent e w] else []) \<and>
     (address_read p \<longrightarrow> address_sent q)"

definition shm_proc_ok :: "shm_env \<Rightarrow> side \<Rightarrow> shm_proc \<Rightarrow> bool" where
  "shm_proc_ok e w p \<longleftrightarrow> order_ok p \<and> accept_ok p \<and> threads_ok e w p \<and> memory_ok e w p"

definition shm_boot_inv :: "shm_env \<Rightarrow> shm_pair \<Rightarrow> bool" where
  "shm_boot_inv e b \<longleftrightarrow> (\<forall>w. shm_proc_ok e w (b w) \<and> socket_ok e w (b w) (b (peer w)))"

lemmas shm_parts = shm_proc_ok_def order_ok_def accept_ok_def threads_ok_def memory_ok_def socket_ok_def
  address_sent_def address_read_def

lemma shm_boot_inv_start: "shm_boot_inv e shm_boot_start"
  by (simp add: shm_boot_inv_def shm_boot_start_def shm_idle_def shm_parts)

lemma shm_boot_invD:
  assumes "shm_boot_inv e b"
  shows "shm_proc_ok e w (b w)" "shm_proc_ok e (peer w) (b (peer w))"
    "socket_ok e w (b w) (b (peer w))" "socket_ok e (peer w) (b (peer w)) (b w)"
  using assms by (auto simp: shm_boot_inv_def dest: spec [of _ "peer w"])

lemma shm_boot_invI:
  assumes "shm_proc_ok e w (b w)" "shm_proc_ok e (peer w) (b (peer w))"
    "socket_ok e w (b w) (b (peer w))" "socket_ok e (peer w) (b (peer w)) (b w)"
  shows "shm_boot_inv e b"
  unfolding shm_boot_inv_def all_side [of _ w] using assms by simp

text \<open>Of the two processes, one moves, and of the other only the connection and the socket may change.\<close>

lemma shm_boot_inv_update:
  assumes "shm_boot_inv e b" and "shm_proc_ok e w p" "socket_ok e w p (b (peer w))" "socket_ok e (peer w) (b (peer w)) p"
  shows "shm_boot_inv e (b(w := p))"
  using assms shm_boot_invD [OF assms(1), of w] by (intro shm_boot_invI [where w = w]) simp_all

lemma menu_start_frame [simp]:
  "menu_start msg (p\<lparr>received := x\<rparr>) = menu_start msg p" "menu_start msg (p\<lparr>joined := j\<rparr>) = menu_start msg p"
  "menu_start msg (p\<lparr>h_at := h\<rparr>) = menu_start msg p" "menu_start msg (p\<lparr>m_at := m\<rparr>) = menu_start msg p"
  "menu_start msg (p\<lparr>menu_of := s\<rparr>) = menu_start msg p" "menu_start msg (p\<lparr>handler_on := u\<rparr>) = menu_start msg p"
  by (simp_all add: menu_start_def chosen_def)

text \<open>Which parts of the state each conjunct looks at.\<close>

lemma order_ok_frame [simp]:
  "order_ok (p\<lparr>v_at := v\<rparr>) = order_ok p" "order_ok (p\<lparr>received := x\<rparr>) = order_ok p"
  "order_ok (p\<lparr>joined := j\<rparr>) = order_ok p" "order_ok (p\<lparr>own_data := d\<rparr>) = order_ok p"
  "order_ok (p\<lparr>psize := n\<rparr>) = order_ok p" "order_ok (p\<lparr>mapped := m\<rparr>) = order_ok p"
  "order_ok (p\<lparr>h_at := h\<rparr>) = order_ok p" "order_ok (p\<lparr>m_at := a\<rparr>) = order_ok p"
  "order_ok (p\<lparr>menu_of := s\<rparr>) = order_ok p" "order_ok (p\<lparr>handler_on := u\<rparr>) = order_ok p"
  "order_ok (p\<lparr>recv_data := d\<rparr>) = order_ok p"
  by (simp_all add: order_ok_def cong: shm_client_at.case_cong)

lemma order_ok_simps:
  "order_ok p \<Longrightarrow> k_at p = K_Retry \<Longrightarrow> order p = 1" "order_ok p \<Longrightarrow> k_at p = K_Receive \<Longrightarrow> order p = 2"
  "order_ok p \<Longrightarrow> k_at p \<in> {K_None, K_Begin, K_Linked, K_Failed} \<Longrightarrow> order p = 0"
  "order_ok p \<Longrightarrow> k_at p = K_Done \<Longrightarrow> order p = 1 \<or> order p = 2"
  by (auto simp: order_ok_def)

lemma joined_frame [simp]:
  "threads_ok e w (p\<lparr>joined := j\<rparr>) = threads_ok e w p" "threads_ok e w (p\<lparr>received := x\<rparr>) = threads_ok e w p"
  "memory_ok e w (p\<lparr>joined := j\<rparr>) = memory_ok e w p" "memory_ok e w (p\<lparr>received := x\<rparr>) = memory_ok e w p"
  "accept_ok (p\<lparr>received := x\<rparr>) = accept_ok p" "accept_ok (p\<lparr>k_at := k\<rparr>) = accept_ok p"
  "memory_ok e w (p\<lparr>m_at := a\<rparr>) = memory_ok e w p" "memory_ok e w (p\<lparr>h_at := h\<rparr>) = memory_ok e w p"
  "memory_ok e w (p\<lparr>menu_of := s\<rparr>) = memory_ok e w p" "memory_ok e w (p\<lparr>handler_on := u\<rparr>) = memory_ok e w p"
  "accept_ok (p\<lparr>m_at := a\<rparr>) = accept_ok p" "accept_ok (p\<lparr>h_at := h\<rparr>) = accept_ok p"
  "accept_ok (p\<lparr>menu_of := s\<rparr>) = accept_ok p" "accept_ok (p\<lparr>handler_on := u\<rparr>) = accept_ok p"
  by (simp_all add: threads_ok_def memory_ok_def accept_ok_def)

lemma memory_okD:
  "memory_ok e w p \<Longrightarrow> order p = 2 \<Longrightarrow> k_at p \<noteq> K_Done \<Longrightarrow> mapped p = None"
  "memory_ok e w p \<Longrightarrow> order p = 0 \<Longrightarrow> mapped p = None"
  "memory_ok e w p \<Longrightarrow> v_at p = V_Sent \<Longrightarrow> mapped p \<noteq> None"
  "memory_ok e w p \<Longrightarrow> order p = 1 \<Longrightarrow> v_at p \<noteq> V_Sent \<Longrightarrow> v_at p \<noteq> V_Done \<Longrightarrow>
     mapped p = None \<and> own_data p = no_stuff"
  "memory_ok e w p \<Longrightarrow> mapped p = None \<Longrightarrow> own_data p = no_stuff \<and> psize p = 0"
  by (cases "mapped p"; simp add: memory_ok_def)+

lemma memory_ok_k_at: "order p \<noteq> 2 \<Longrightarrow> memory_ok e w (p\<lparr>k_at := k\<rparr>) = memory_ok e w p"
  by (simp add: memory_ok_def)

lemma socket_ok_frame [simp]:
  "socket_ok e w (q\<lparr>v_at := v\<rparr>) p = socket_ok e w q p" "socket_ok e w q (p\<lparr>v_at := v\<rparr>) = socket_ok e w q p"
  "socket_ok e w (q\<lparr>own_data := d\<rparr>) p = socket_ok e w q p" "socket_ok e w q (p\<lparr>own_data := d\<rparr>) = socket_ok e w q p"
  "socket_ok e w (q\<lparr>recv_data := d\<rparr>) p = socket_ok e w q p" "socket_ok e w q (p\<lparr>recv_data := d\<rparr>) = socket_ok e w q p"
  "socket_ok e w (q\<lparr>psize := n\<rparr>) p = socket_ok e w q p" "socket_ok e w q (p\<lparr>psize := n\<rparr>) = socket_ok e w q p"
  "socket_ok e w (q\<lparr>m_at := a\<rparr>) p = socket_ok e w q p" "socket_ok e w q (p\<lparr>m_at := a\<rparr>) = socket_ok e w q p"
  "socket_ok e w (q\<lparr>h_at := h\<rparr>) p = socket_ok e w q p" "socket_ok e w q (p\<lparr>h_at := h\<rparr>) = socket_ok e w q p"
  "socket_ok e w (q\<lparr>menu_of := s\<rparr>) p = socket_ok e w q p" "socket_ok e w q (p\<lparr>menu_of := s\<rparr>) = socket_ok e w q p"
  "socket_ok e w (q\<lparr>handler_on := u\<rparr>) p = socket_ok e w q p" "socket_ok e w q (p\<lparr>handler_on := u\<rparr>) = socket_ok e w q p"
  "socket_ok e w (q\<lparr>received := x\<rparr>) p = socket_ok e w q p" "socket_ok e w q (p\<lparr>joined := j\<rparr>) = socket_ok e w q p"
  by (simp_all add: socket_ok_def address_sent_def address_read_def)

lemma shm_proc_ok_received [simp]: "shm_proc_ok e w (p\<lparr>received := x\<rparr>) = shm_proc_ok e w p"
  by (simp add: shm_parts cong: shm_client_at.case_cong)

lemma uffd_checks_Inl: "uffd_checks e w cs = Inl f \<Longrightarrow> \<exists>msg. f = Exit msg"
  by (auto simp: uffd_checks_def split: option.splits)

lemma map_range_cases: "map_range e w c hint len = Inr a \<Longrightarrow> a = se_mmap e w hint \<and> len \<noteq> 0"
  "map_range e w c hint len = Inl f \<Longrightarrow> f = Exit ''mmap''"
  by (auto simp: map_range_def split: if_splits)

text \<open>What a step may come to.\<close>

definition moved :: "shm_env \<Rightarrow> shm_pair res \<Rightarrow> bool" where
  "moved e r \<longleftrightarrow> (case r of Inl f \<Rightarrow> f = NotEnabled \<or> (\<exists>msg. f = Exit msg) | Inr b \<Rightarrow> shm_boot_inv e b)"

lemma moved_simps [simp]: "moved e (Inl NotEnabled)" "moved e (Inl (Exit msg))" "moved e (Inr b) = shm_boot_inv e b"
  by (simp_all add: moved_def)

lemma moved_bind: "(\<And>f. r = Inl f \<Longrightarrow> \<exists>msg. f = Exit msg) \<Longrightarrow> (\<And>x. r = Inr x \<Longrightarrow> moved e (g x)) \<Longrightarrow>
    moved e (bind_res r g)"
  by (cases r) (auto simp: moved_def)

lemma proc_okD: "shm_proc_ok e w p \<Longrightarrow> order_ok p \<and> accept_ok p \<and> threads_ok e w p \<and> memory_ok e w p"
  by (simp add: shm_proc_ok_def)

lemma server_goes:
  assumes inv: "shm_boot_inv e b" and "accept_ok ((b w)\<lparr>v_at := v\<rparr>)" "threads_ok e w ((b w)\<lparr>v_at := v\<rparr>)"
    "memory_ok e w ((b w)\<lparr>v_at := v\<rparr>)"
  shows "shm_boot_inv e (b(w := (b w)\<lparr>v_at := v\<rparr>))"
  using shm_boot_invD [OF inv, of w] assms(2-)
  by (intro shm_boot_inv_update [OF inv]) (simp_all add: shm_proc_ok_def)

lemma map_step:
  assumes inv: "shm_boot_inv e b" and at: "v_at (b w) = V_Map"
    and len: "len = range_length e (se_count e w)" and addr: "addr = own_base e w"
    and d: "d = (own_data (b w))\<lparr>st_pages := se_count e w, st_length := len, st_addr := addr\<rparr>"
  shows "shm_boot_inv e (deliver (peer w) d (b(w := (b w)\<lparr>own_data := d, psize := se_page e,
      mapped := Some (addr, unat len div se_page e), v_at := V_Sent\<rparr>)))"
proof -
  let ?p = "(b w)\<lparr>own_data := d, psize := se_page e, mapped := Some (addr, unat len div se_page e), v_at := V_Sent\<rparr>"
  let ?q = "(b (peer w))\<lparr>received := received (b (peer w)) @ [d]\<rparr>"
  note i = shm_boot_invD [OF inv, of w] and p = proc_okD [OF shm_boot_invD(1) [OF inv, of w]]
  have o: "order (b w) = 1" using p at by (simp add: accept_ok_def)
  have m: "mapped (b w) = None" "own_data (b w) = no_stuff"
    using p at o memory_okD(4) by auto
  have sent: "d = own_sent e w" using m by (simp add: d len addr own_sent_def no_stuff_def)
  have "m_at (b w) \<noteq> M_Menu" "m_at (b w) \<noteq> M_Server" "h_at (b w) = H_None" using p at by (auto simp: threads_ok_def)
  then have "shm_proc_ok e w ?p"
    using p at o sent by (simp add: shm_proc_ok_def accept_ok_def threads_ok_def memory_ok_def own_sent_def addr len pages_in_def)
  moreover have "shm_proc_ok e (peer w) ?q" using i(2) by simp
  moreover have "socket_ok e w ?p ?q" "socket_ok e (peer w) ?q ?p"
    using i(3,4) o m sent by (simp_all add: socket_ok_def address_sent_def address_read_def)
  ultimately show ?thesis by (intro shm_boot_invI [where w = w]) (simp_all add: deliver_def)
qed

lemma sent_step:
  assumes inv: "shm_boot_inv e b" and at: "v_at (b w) = V_Sent"
  shows "shm_boot_inv e (b(w := (b w)\<lparr>own_data := (own_data (b w))\<lparr>st_uffd := se_uffd e w\<rparr>, v_at := V_Done\<rparr>))"
proof -
  note i = shm_boot_invD [OF inv, of w] and p = proc_okD [OF shm_boot_invD(1) [OF inv, of w]]
  have o: "order (b w) = 1" using p at by (simp add: accept_ok_def)
  have m: "mapped (b w) \<noteq> None" using p at memory_okD(3) by auto
  have "m_at (b w) \<noteq> M_Menu" "m_at (b w) \<noteq> M_Server" using p at by (auto simp: threads_ok_def)
  then have "shm_proc_ok e w ((b w)\<lparr>own_data := (own_data (b w))\<lparr>st_uffd := se_uffd e w\<rparr>, v_at := V_Done\<rparr>)"
    using p at o m by (simp add: shm_proc_ok_def accept_ok_def threads_ok_def memory_ok_def)
  then show ?thesis using i by (intro shm_boot_inv_update [OF inv]) simp_all
qed

lemma server_moves_ok:
  assumes inv: "shm_boot_inv e b"
  shows "moved e (shm_boot_server e w b)"
proof (cases "v_at (b w)")
  case V_Map
  then show ?thesis
    using map_step [OF inv V_Map refl refl refl]
    by (auto simp: shm_boot_server_def Let_def own_base_def intro!: moved_bind dest!: map_range_cases)
next
  case V_Sent
  then show ?thesis
    using sent_step [OF inv V_Sent]
    by (auto simp: shm_boot_server_def Let_def intro!: moved_bind dest: uffd_checks_Inl)
qed (use shm_boot_invD(1) [OF inv, of w] in \<open>auto simp: shm_boot_server_def Let_def intro!: server_goes [OF inv] dest!: proc_okD\<close>,
     auto simp: accept_ok_def threads_ok_def memory_ok_def split: if_splits)

section \<open>The client threads\<close>

lemma client_goes:
  assumes inv: "shm_boot_inv e b" and "order_ok p" "accept_ok p" "threads_ok e w p" "memory_ok e w p"
    and "socket_ok e w p (b (peer w))" "socket_ok e (peer w) (b (peer w)) p"
  shows "shm_boot_inv e (b(w := p))"
  using assms by (intro shm_boot_inv_update [OF inv]) (simp_all add: shm_proc_ok_def)

lemma link_step:
  assumes inv: "shm_boot_inv e b" and at: "k_at (b w) = K_Begin \<and> pc = K_Linked \<or> k_at (b w) = K_Retry \<and> pc = K_Done"
    and lis: "shm_listens (peer w) b"
  shows "shm_boot_inv e (shm_link (peer w) (b(w := (b w)\<lparr>k_at := pc\<rparr>)))"
proof -
  let ?p = "(b w)\<lparr>k_at := pc\<rparr>" and ?q = "(b (peer w))\<lparr>joined := True\<rparr>"
  note i = shm_boot_invD [OF inv, of w] and p = proc_okD [OF shm_boot_invD(1) [OF inv, of w]]
    and q = proc_okD [OF shm_boot_invD(2) [OF inv, of w]]
  have o: "order (b w) = (if pc = K_Done then 1 else 0)" using p at by (auto simp: order_ok_def)
  have "m_at (b w) = M_Join" using p at by (cases "m_at (b w)") (auto simp: threads_ok_def)
  then have "threads_ok e w ?p" using p at by (auto simp: threads_ok_def)
  moreover have n2: "order (b w) \<noteq> 2" using o by simp
  then have "memory_ok e w ?p" using p by (simp add: memory_ok_k_at)
  moreover have "order_ok ?p" using o at by (auto simp: order_ok_def)
  ultimately have "shm_proc_ok e w ?p" using p by (simp add: shm_proc_ok_def)
  moreover have "accept_ok ?q" using q lis by (simp add: accept_ok_def shm_listens_def)
  then have "shm_proc_ok e (peer w) ?q" using q by (simp add: shm_proc_ok_def)
  moreover have "joined (b (peer w)) = False" using i(3,4) at by (auto simp: socket_ok_def)
  then have "socket_ok e w ?p ?q"
    using i(3) at by (auto simp: socket_ok_def address_sent_def address_read_def)
  moreover have "socket_ok e (peer w) ?q ?p"
    using i(4) n2 at by (auto simp: socket_ok_def address_sent_def address_read_def)
  ultimately show ?thesis by (intro shm_boot_invI [where w = w]) (simp_all add: shm_link_def)
qed

lemma receive_step:
  assumes inv: "shm_boot_inv e b" and at: "k_at (b w) = K_Receive" and rec: "received (b w) = d # rest"
    and len: "len = range_length e (st_pages d)" and addr: "addr = se_mmap e w (st_addr d)"
  shows "shm_boot_inv e (b(w := (b w)\<lparr>received := rest, recv_data := d\<lparr>st_length := len, st_uffd := se_uffd e w\<rparr>,
      psize := se_page e, mapped := Some (addr, unat len div se_page e), k_at := K_Done\<rparr>))"
proof -
  let ?p = "(b w)\<lparr>received := rest, recv_data := d\<lparr>st_length := len, st_uffd := se_uffd e w\<rparr>,
      psize := se_page e, mapped := Some (addr, unat len div se_page e), k_at := K_Done\<rparr>"
  note i = shm_boot_invD [OF inv, of w] and p = proc_okD [OF shm_boot_invD(1) [OF inv, of w]]
  have o: "order (b w) = 2" using p at by (simp add: order_ok_def)
  have m: "mapped (b w) = None" using p at o memory_okD(1) by auto
  have d: "d = own_sent e (peer w)" "rest = []" "address_sent (b (peer w))"
    using i(4) rec by (auto simp: socket_ok_def split: if_splits)
  have "m_at (b w) = M_Join" using p at by (cases "m_at (b w)") (auto simp: threads_ok_def)
  then have "threads_ok e w ?p" "accept_ok ?p" "order_ok ?p" "memory_ok e w ?p"
    using p at o m d by (auto simp: threads_ok_def accept_ok_def order_ok_def memory_ok_def own_sent_def len addr pages_in_def)
  moreover have "socket_ok e w ?p (b (peer w))" "socket_ok e (peer w) (b (peer w)) ?p"
    using i(3,4) o at m d by (auto simp: socket_ok_def address_sent_def address_read_def)
  ultimately show ?thesis by (intro client_goes [OF inv])
qed

lemma numbered_step:
  assumes inv: "shm_boot_inv e b" and at: "k_at (b w) = K_Linked \<and> n = 2 \<and> pc = K_Receive \<or>
      k_at (b w) = K_Failed \<and> n = 1 \<and> pc = K_Retry"
  shows "shm_boot_inv e (b(w := (b w)\<lparr>order := n, k_at := pc\<rparr>))"
proof -
  let ?p = "(b w)\<lparr>order := n, k_at := pc\<rparr>"
  note i = shm_boot_invD [OF inv, of w] and p = proc_okD [OF shm_boot_invD(1) [OF inv, of w]]
  have o: "order (b w) = 0" using p at by (auto simp: order_ok_def)
  have m: "mapped (b w) = None" using p o memory_okD(2) by auto
  have "m_at (b w) = M_Join" using p at by (cases "m_at (b w)") (auto simp: threads_ok_def)
  then have "threads_ok e w ?p" "accept_ok ?p" "order_ok ?p" "memory_ok e w ?p"
    using p at o m by (auto simp: threads_ok_def accept_ok_def order_ok_def memory_ok_def)
  moreover have "socket_ok e w ?p (b (peer w))" "socket_ok e (peer w) (b (peer w)) ?p"
    using i(3,4) o at m by (auto simp: socket_ok_def address_sent_def address_read_def)
  ultimately show ?thesis by (intro client_goes [OF inv])
qed

lemma failed_step:
  assumes inv: "shm_boot_inv e b" and at: "k_at (b w) = K_Begin"
  shows "shm_boot_inv e (b(w := (b w)\<lparr>k_at := K_Failed\<rparr>))"
proof -
  note i = shm_boot_invD [OF inv, of w] and p = proc_okD [OF shm_boot_invD(1) [OF inv, of w]]
  have "order (b w) = 0" using p at by (auto simp: order_ok_def)
  moreover have "m_at (b w) = M_Join" using p at by (cases "m_at (b w)") (auto simp: threads_ok_def)
  ultimately show ?thesis
    using p i at by (intro client_goes [OF inv])
      (auto simp: threads_ok_def accept_ok_def order_ok_def memory_ok_def socket_ok_def address_sent_def
        address_read_def split: if_splits)
qed

lemma client_moves_ok:
  assumes inv: "shm_boot_inv e b"
  shows "moved e (shm_boot_client e w b)"
proof (cases "k_at (b w)")
  case K_Receive
  then show ?thesis
    using receive_step [OF inv K_Receive _ refl refl]
    by (auto simp: shm_boot_client_def Let_def intro!: moved_bind dest!: map_range_cases
        dest: uffd_checks_Inl split: list.split)
qed (use link_step [OF inv] numbered_step [OF inv] failed_step [OF inv] in \<open>auto simp: shm_boot_client_def Let_def\<close>)

section \<open>The main threads and the handlers\<close>

lemma main_moves_ok:
  assumes inv: "shm_boot_inv e b"
  shows "moved e (shm_boot_main e w b)"
proof -
  note i = shm_boot_invD [OF inv, of w] and p = proc_okD [OF shm_boot_invD(1) [OF inv, of w]]
  have made: "moved e (create e w c p' b)" if "shm_boot_inv e (b(w := p'))" for c p'
    using that by (simp add: create_def)
  show ?thesis
  proof (cases "m_at (b w)")
    case M_Server
    let ?p = "(b w)\<lparr>v_at := V_Begin, m_at := M_Client\<rparr>"
    have at: "v_at (b w) = V_None" "k_at (b w) = K_None" "h_at (b w) = H_None" "menu_of (b w) = None"
      using p M_Server by (simp_all add: threads_ok_def)
    then have "order (b w) = 0" "mapped (b w) = None" using p memory_okD(2) by (auto simp: order_ok_def)
    moreover have "\<not> joined (b w)" using p at by (simp add: accept_ok_def)
    ultimately have "accept_ok ?p" "threads_ok e w ?p" "memory_ok e w ?p"
      using p at by (simp_all add: accept_ok_def threads_ok_def memory_ok_def)
    then have "shm_boot_inv e (b(w := ?p))"
      using p i by (intro client_goes [OF inv]) simp_all
    then show ?thesis using M_Server made by (simp add: shm_boot_main_def Let_def)
  next
    case M_Client
    let ?p = "(b w)\<lparr>k_at := K_Begin, m_at := M_Join\<rparr>"
    have at: "k_at (b w) = K_None" "v_at (b w) \<noteq> V_None" "h_at (b w) = H_None" "menu_of (b w) = None"
      using p M_Client by (auto simp: threads_ok_def)
    then have o: "order (b w) = 0" "mapped (b w) = None" using p memory_okD(2) by (auto simp: order_ok_def)
    then have "order_ok ?p" "accept_ok ?p" "threads_ok e w ?p" "memory_ok e w ?p"
      using p at by (simp_all add: order_ok_def accept_ok_def threads_ok_def memory_ok_def)
    moreover have "socket_ok e w ?p (b (peer w))" "socket_ok e (peer w) (b (peer w)) ?p"
      using i(3,4) o at by (simp_all add: socket_ok_def address_sent_def address_read_def)
    ultimately have "shm_boot_inv e (b(w := ?p))" by (intro client_goes [OF inv])
    then show ?thesis using M_Client made by (simp add: shm_boot_main_def Let_def)
  next
    case M_Join
    let ?p = "(b w)\<lparr>handler_on := st_uffd (chosen (b w)), h_at := H_Begin,
      menu_of := Some (menu_start (se_msg e w) (b w)), m_at := M_Menu\<rparr>"
    have "shm_boot_inv e (b(w := ?p))" if "k_at (b w) = K_Done" "v_at (b w) = V_Done"
    proof -
      have "accept_ok ?p" "threads_ok e w ?p" "memory_ok e w ?p"
        using p that M_Join by (simp_all add: threads_ok_def)
      then show ?thesis using p i by (intro client_goes [OF inv]) simp_all
    qed
    then show ?thesis using M_Join made by (simp add: shm_boot_main_def Let_def)
  qed (simp add: shm_boot_main_def Let_def)
qed

lemma handler_moves_ok:
  assumes inv: "shm_boot_inv e b"
  shows "moved e (shm_boot_handler e w b)"
proof (cases "h_at (b w)")
  case H_Begin
  note i = shm_boot_invD [OF inv, of w] and p = proc_okD [OF shm_boot_invD(1) [OF inv, of w]]
  let ?p = "(b w)\<lparr>h_at := H_Loop\<rparr>"
  have "shm_boot_inv e (b(w := ?p))" if "psize (b w) \<noteq> 0"
  proof -
    have "accept_ok ?p" "threads_ok e w ?p" "memory_ok e w ?p"
      using p that H_Begin by (simp_all add: threads_ok_def)
    then show ?thesis using p i by (intro client_goes [OF inv]) simp_all
  qed
  then show ?thesis
    using H_Begin by (cases "psize (b w) = 0")
      (auto simp: shm_boot_handler_def Let_def intro!: moved_bind dest!: map_range_cases)
qed (simp_all add: shm_boot_handler_def Let_def)

lemma shm_step_moves: "shm_boot_inv e b \<Longrightarrow> moved e (shm_boot_step e t b)"
  by (cases t) (simp_all add: server_moves_ok client_moves_ok main_moves_ok handler_moves_ok)

interpretation shm_booting: step_within "shm_boot_step e" "shm_boot_inv e" "\<lambda>t. True"
  "\<lambda>t b f. f = NotEnabled \<or> (\<exists>msg. f = Exit msg)" for e
proof unfold_locales
  fix b t f b'
  assume "shm_boot_inv e b"
  then have "moved e (shm_boot_step e t b)" by (rule shm_step_moves)
  then show "shm_boot_step e t b = Inl f \<Longrightarrow> f = NotEnabled \<or> (\<exists>msg. f = Exit msg)"
    and "shm_boot_step e t b = Inr b' \<Longrightarrow> shm_boot_inv e b'"
    by (simp_all add: moved_def)
qed

section \<open>How long a start takes\<close>

text \<open>The steps the threads of a process may still make.\<close>

definition server_left :: "shm_proc \<Rightarrow> nat" where
  "server_left p = (case v_at p of V_None \<Rightarrow> 5 | V_Begin \<Rightarrow> 5 | V_Listening \<Rightarrow> 4 | V_Accepted \<Rightarrow> 3 | V_Map \<Rightarrow> 2
     | V_Sent \<Rightarrow> 1 | V_Done \<Rightarrow> 0)"

definition client_left :: "shm_proc \<Rightarrow> nat" where
  "client_left p = (case k_at p of K_None \<Rightarrow> 3 | K_Begin \<Rightarrow> 3 | K_Linked \<Rightarrow> 2 | K_Failed \<Rightarrow> 2 | K_Retry \<Rightarrow> 1
     | K_Receive \<Rightarrow> 1 | K_Done \<Rightarrow> 0)"

definition main_left :: "shm_proc \<Rightarrow> nat" where
  "main_left p = (case m_at p of M_Server \<Rightarrow> 3 | M_Client \<Rightarrow> 2 | M_Join \<Rightarrow> 1 | M_Menu \<Rightarrow> 0) +
     (case h_at p of H_None \<Rightarrow> 1 | H_Begin \<Rightarrow> 1 | H_Loop \<Rightarrow> 0)"

definition steps_left :: "shm_proc \<Rightarrow> nat" where
  "steps_left p = server_left p + client_left p + main_left p"

definition pair_left :: "shm_pair \<Rightarrow> nat" where
  "pair_left b = steps_left (b One) + steps_left (b Two)"

lemma pair_left_side: "pair_left b = steps_left (b w) + steps_left (b (peer w))"
  by (cases w) (simp_all add: pair_left_def)

lemmas lefts = steps_left_def server_left_def client_left_def main_left_def

lemma steps_left_frame [simp]: "steps_left (p\<lparr>received := x\<rparr>) = steps_left p" "steps_left (p\<lparr>joined := j\<rparr>) = steps_left p"
  by (simp_all add: lefts)

lemma pair_left_update:
  "steps_left p < steps_left (b w) \<Longrightarrow> pair_left (b(w := p)) < pair_left b"
  "steps_left p < steps_left (b w) \<Longrightarrow> pair_left (deliver (peer w) d (b(w := p))) < pair_left b"
  "steps_left p < steps_left (b w) \<Longrightarrow> pair_left (shm_link (peer w) (b(w := p))) < pair_left b"
  by (simp_all add: pair_left_side [where w = w] deliver_def shm_link_def)

lemma shm_step_left:
  assumes inv: "shm_boot_inv e b" and step: "shm_boot_step e t b = Inr b'"
  shows "pair_left b' < pair_left b"
proof (cases t)
  case (Main_of w)
  have "threads_ok e w (b w)" using proc_okD [OF shm_boot_invD(1) [OF inv, of w]] by simp
  then show ?thesis
    using step Main_of
    by (cases "m_at (b w)") (auto simp: shm_boot_main_def Let_def create_def lefts threads_ok_def
        intro!: pair_left_update split: if_splits)
next
  case (Server_of w)
  then show ?thesis
    using step by (cases "v_at (b w)") (auto simp: shm_boot_server_def Let_def lefts bind_res_Inr_iff
        intro!: pair_left_update split: if_splits)
next
  case (Client_of w)
  then show ?thesis
    using step by (cases "k_at (b w)") (auto simp: shm_boot_client_def Let_def lefts bind_res_Inr_iff
        intro!: pair_left_update split: if_splits list.splits)
next
  case (Handler_of w)
  then show ?thesis
    using step by (cases "h_at (b w)") (auto simp: shm_boot_handler_def Let_def lefts bind_res_Inr_iff
        intro!: pair_left_update)
qed

lemma shm_any: "list_all (\<lambda>t. True) ts"
  by (simp add: list_all_def)

lemmas shm_run_stays = shm_booting.run_stays [OF shm_boot_inv_start shm_any]

lemma shm_run_left:
  "shm_boot_inv e b \<Longrightarrow> run_events (shm_boot_step e) ts b = Inr b' \<Longrightarrow> pair_left b' + length ts \<le> pair_left b"
proof (induction ts arbitrary: b)
  case (Cons t ts)
  then obtain c where "shm_boot_step e t b = Inr c" "run_events (shm_boot_step e) ts c = Inr b'"
    by (auto simp: bind_res_Inr_iff)
  then show ?case
    using Cons.IH [of c] shm_booting.step_stays [OF Cons.prems(1) TrueI] shm_step_left [OF Cons.prems(1)] by fastforce
qed simp

section \<open>Where a start ends\<close>

text \<open>
  The ends: \<open>w\<close> is machine 1 and the other machine 2, both at their menus with their handlers; both
  are machine 1, each with the other's address unread; both are machine 2 and wait for an address.
\<close>

definition at_menu :: "shm_proc \<Rightarrow> bool" where
  "at_menu p \<longleftrightarrow> m_at p = M_Menu \<and> h_at p = H_Loop \<and> mapped p \<noteq> None"

definition shm_paired :: "side \<Rightarrow> shm_pair \<Rightarrow> bool" where
  "shm_paired w b \<longleftrightarrow> order (b w) = 1 \<and> order (b (peer w)) = 2 \<and>
     list_all (\<lambda>v. at_menu (b v) \<and> received (b v) = []) [w, peer w]"

definition shm_both_first :: "shm_env \<Rightarrow> shm_pair \<Rightarrow> bool" where
  "shm_both_first e b \<longleftrightarrow>
     list_all (\<lambda>v. order (b v) = 1 \<and> at_menu (b v) \<and> received (b v) = [own_sent e (peer v)]) [One, Two]"

definition shm_both_second :: "shm_pair \<Rightarrow> bool" where
  "shm_both_second b \<longleftrightarrow> list_all (\<lambda>v. order (b v) = 2 \<and> k_at (b v) = K_Receive \<and> m_at (b v) = M_Join \<and>
     mapped (b v) = None \<and> received (b v) = []) [One, Two]"

text \<open>Machine 1 whose server thread looked at \<open>order\<close> before it was set, so that it has no pages.\<close>

definition shm_missed :: "side \<Rightarrow> shm_pair \<Rightarrow> bool" where
  "shm_missed w b \<longleftrightarrow> order (b w) = 1 \<and> v_at (b w) = V_Done \<and> m_at (b w) = M_Menu \<and> h_at (b w) = H_Begin \<and>
     mapped (b w) = None \<and> psize (b w) = 0"

definition shm_at_rest :: "shm_env \<Rightarrow> shm_pair \<Rightarrow> bool" where
  "shm_at_rest e b \<longleftrightarrow> (\<forall>t. shm_boot_step e t b = Inl NotEnabled)"

text \<open>No call fails: the page count entered is such that the length is not 0, and everything else works.\<close>

definition shm_works :: "shm_env \<Rightarrow> bool" where
  "shm_works e \<longleftrightarrow> (\<forall>w c. \<not> se_fails e w c) \<and> (\<forall>w. range_length e (se_count e w) \<noteq> 0) \<and>
     (word_of_nat (se_page e) :: 64 word) \<noteq> 0"

lemma shm_worksD:
  assumes "shm_works e"
  shows "uffd_checks e w cs = Inr ()" "range_length e (se_count e v) \<noteq> 0"
    "create e w c p b = Inr (b(w := p))" "len \<noteq> 0 \<Longrightarrow> map_range e w c hint len = Inr (se_mmap e w hint)"
    "map_range e w c hint 0 = Inl (Exit ''mmap'')" "(word_of_nat (se_page e) :: 64 word) \<noteq> 0"
  using assms first_failure_None [of "map (\<lambda>c. (se_fails e w c, case c of Open_uffd \<Rightarrow> ''userfaultfd''
      | Api_uffd \<Rightarrow> ''ioctl-UFFDIO_API'' | _ \<Rightarrow> ''ioctl-UFFDIO_REGISTER'')) cs"]
  by (auto simp: shm_works_def uffd_checks_def create_def map_range_def split: option.splits)

lemma received_sent:
  assumes "shm_boot_inv e b" and "received (b w) = d # rest"
  shows "d = own_sent e (peer w)"
  using shm_boot_invD(4) [OF assms(1), of w] assms(2) by (auto simp: socket_ok_def split: if_splits)

text \<open>
  What ends a process during a start: a call that fails, an \<open>mmap\<close> of no bytes because of the page count entered
  or the page size, and the handler of a machine without pages.
\<close>

definition shm_msg :: "shm_call \<Rightarrow> string" where
  "shm_msg c = (case c of Create_server \<Rightarrow> ''pthread_create'' | Create_client \<Rightarrow> ''pthread_create''
     | Create_handler \<Rightarrow> ''pthread_create'' | Map_pages \<Rightarrow> ''mmap'' | Map_page \<Rightarrow> ''mmap''
     | Open_uffd \<Rightarrow> ''userfaultfd'' | Api_uffd \<Rightarrow> ''ioctl-UFFDIO_API'' | Register_uffd \<Rightarrow> ''ioctl-UFFDIO_REGISTER'')"

definition shm_stop :: "shm_env \<Rightarrow> fault \<Rightarrow> bool" where
  "shm_stop e f \<longleftrightarrow> (\<exists>w c. se_fails e w c \<and> f = Exit (shm_msg c)) \<or>
     f = Exit ''mmap'' \<and> ((\<exists>w. range_length e (se_count e w) = 0) \<or> (word_of_nat (se_page e) :: 64 word) = 0)"

lemma shm_calls_enabled [simp]:
  "create e w c p b \<noteq> Inl NotEnabled" "map_range e w c hint len \<noteq> Inl NotEnabled" "uffd_checks e w cs \<noteq> Inl NotEnabled"
  by (auto simp: create_def map_range_def uffd_checks_def split: option.split)

lemma shm_stopI:
  "se_fails e w c \<Longrightarrow> f = Exit (shm_msg c) \<Longrightarrow> shm_stop e f"
  "range_length e (se_count e w) = 0 \<Longrightarrow> shm_stop e (Exit ''mmap'')"
  "(word_of_nat (se_page e) :: 64 word) = 0 \<Longrightarrow> shm_stop e (Exit ''mmap'')"
  by (auto simp: shm_stop_def)

lemma create_stop: "create e w c p b = Inl f \<Longrightarrow> c \<in> {Create_server, Create_client, Create_handler} \<Longrightarrow> shm_stop e f"
  using shm_stopI(1) [of e w c f] by (auto simp: create_def shm_msg_def split: if_splits)

lemma map_pages_stop: "map_range e w Map_pages hint (range_length e (se_count e v)) = Inl f \<Longrightarrow> shm_stop e f"
  using shm_stopI(1) [of e w Map_pages f] shm_stopI(2) [of e v] by (auto simp: map_range_def shm_msg_def split: if_splits)

lemma map_page_stop: "map_range e w Map_page hint (word_of_nat (se_page e)) = Inl f \<Longrightarrow> shm_stop e f"
  using shm_stopI(1) [of e w Map_page f] shm_stopI(3) [of e] by (auto simp: map_range_def shm_msg_def split: if_splits)

lemma uffd_stop:
  assumes "uffd_checks e w cs = Inl f" and "set cs \<subseteq> {Open_uffd, Api_uffd, Register_uffd}"
  shows "shm_stop e f"
proof -
  obtain msg where m: "first_failure (map (\<lambda>c. (se_fails e w c,
      case c of Open_uffd \<Rightarrow> ''userfaultfd'' | Api_uffd \<Rightarrow> ''ioctl-UFFDIO_API'' | _ \<Rightarrow> ''ioctl-UFFDIO_REGISTER'')) cs) =
      Some msg" "f = Exit msg"
    using assms(1) by (auto simp: uffd_checks_def split: option.splits)
  then obtain c where c: "c \<in> set cs" "se_fails e w c"
    "msg = (case c of Open_uffd \<Rightarrow> ''userfaultfd'' | Api_uffd \<Rightarrow> ''ioctl-UFFDIO_API'' | _ \<Rightarrow> ''ioctl-UFFDIO_REGISTER'')"
    using first_failure_Some [OF m(1)] by auto
  then have "msg = shm_msg c" using assms(2) by (auto simp: shm_msg_def)
  then show ?thesis using m(2) c(2) shm_stopI(1) by blast
qed

lemma shm_step_stops:
  assumes inv: "shm_boot_inv e b" and step: "shm_boot_step e t b = Inl f"
  shows "f = NotEnabled \<or> shm_stop e f \<or> f = Exit ''mmap'' \<and> (\<exists>w. t = Handler_of w \<and> shm_missed w b)"
proof (cases t)
  case (Main_of w)
  then show ?thesis
    using step create_stop by (cases "m_at (b w)") (auto simp: shm_boot_main_def Let_def split: if_splits)
next
  case (Server_of w)
  then show ?thesis
    using step map_pages_stop uffd_stop [of e w "[Open_uffd, Api_uffd, Register_uffd]" f]
    by (cases "v_at (b w)") (auto simp: shm_boot_server_def Let_def bind_res_Inl_iff split: if_splits)
next
  case (Client_of w)
  have "shm_stop e g" if "map_range e w Map_pages hint (range_length e (st_pages d)) = Inl g" "received (b w) = d # rest"
    for g hint d rest
    using received_sent [OF inv that(2)] map_pages_stop that(1) by (simp add: own_sent_def)
  then show ?thesis
    using step Client_of uffd_stop [of e w "[Open_uffd]" f] uffd_stop [of e w "[Api_uffd, Register_uffd]" f]
    by (cases "k_at (b w)") (auto simp: shm_boot_client_def Let_def bind_res_Inl_iff split: if_splits list.splits)
next
  case (Handler_of w)
  note p = proc_okD [OF shm_boot_invD(1) [OF inv, of w]]
  show ?thesis
  proof (cases "h_at (b w) = H_Begin")
    case True
    then have at: "m_at (b w) = M_Menu" "k_at (b w) = K_Done" "v_at (b w) = V_Done"
      using p by (cases "m_at (b w)"; simp add: threads_ok_def)+
    have m: "map_range e w Map_page 0 (word_of_nat (psize (b w))) = Inl f"
      using step True Handler_of by (auto simp: shm_boot_handler_def Let_def bind_res_Inl_iff)
    show ?thesis
    proof (cases "mapped (b w)")
      case None
      then have z: "psize (b w) = 0" using p memory_okD(5) by blast
      moreover have "order (b w) \<noteq> 2" using p at None by (simp add: memory_ok_def)
      then have "order (b w) = 1" using p at order_ok_simps(4) by blast
      moreover have "f = Exit ''mmap''" using m z by (simp add: map_range_def)
      ultimately show ?thesis
        using None True at Handler_of by (simp add: shm_missed_def)
    next
      case (Some m')
      then have "psize (b w) = se_page e" using p by (simp add: memory_ok_def)
      then show ?thesis using m map_page_stop by simp
    qed
  next
    case False
    then show ?thesis using step Handler_of by (cases "h_at (b w)") (simp_all add: shm_boot_handler_def)
  qed
qed

lemma shm_at_restD:
  assumes "shm_at_rest e b"
  shows "shm_boot_main e w b = Inl NotEnabled" "shm_boot_server e w b = Inl NotEnabled"
    "shm_boot_client e w b = Inl NotEnabled" "shm_boot_handler e w b = Inl NotEnabled"
proof -
  have "shm_boot_step e t b = Inl NotEnabled" for t using assms by (simp add: shm_at_rest_def)
  from this [of "Main_of w"] this [of "Server_of w"] this [of "Client_of w"] this [of "Handler_of w"]
  show "shm_boot_main e w b = Inl NotEnabled" "shm_boot_server e w b = Inl NotEnabled"
    "shm_boot_client e w b = Inl NotEnabled" "shm_boot_handler e w b = Inl NotEnabled" by simp_all
qed

lemma shm_rest_started:
  assumes rest: "shm_at_rest e b"
  shows "m_at (b w) = M_Join \<and> \<not> (k_at (b w) = K_Done \<and> v_at (b w) = V_Done) \<or> m_at (b w) = M_Menu"
  using shm_at_restD(1) [OF rest, of w]
  by (cases "m_at (b w)") (auto simp: shm_boot_main_def Let_def split: if_splits)

lemma shm_rest_served:
  assumes inv: "shm_boot_inv e b" and rest: "shm_at_rest e b"
  shows "v_at (b w) = V_Done \<or> v_at (b w) = V_Listening \<and> \<not> joined (b w)"
proof -
  have "v_at (b w) \<noteq> V_None"
    using shm_rest_started [OF rest, of w] proc_okD [OF shm_boot_invD(1) [OF inv, of w]] by (auto simp: threads_ok_def)
  then show ?thesis
    using shm_at_restD(2) [OF rest, of w]
    by (cases "v_at (b w)") (auto simp: shm_boot_server_def Let_def bind_res_Inl_iff split: if_splits)
qed

lemma shm_rest_where:
  assumes inv: "shm_boot_inv e b" and rest: "shm_at_rest e b"
  shows "v_at (b w) = V_Done" and "k_at (b w) = K_Receive \<and> received (b w) = [] \<or> k_at (b w) = K_Done"
proof -
  have client: "k_at (b v) = K_Receive \<and> received (b v) = [] \<or> k_at (b v) = K_Done" for v
  proof -
    have "k_at (b v) \<noteq> K_None"
      using shm_rest_started [OF rest, of v] proc_okD [OF shm_boot_invD(1) [OF inv, of v]] by (auto simp: threads_ok_def)
    moreover have "shm_listens (peer v) b"
      using shm_rest_served [OF inv rest, of "peer v"] by (auto simp: shm_listens_def)
    ultimately show ?thesis
      using shm_at_restD(3) [OF rest, of v]
      by (cases "k_at (b v)") (auto simp: shm_boot_client_def Let_def bind_res_Inl_iff split: if_splits list.splits)
  qed
  show "k_at (b w) = K_Receive \<and> received (b w) = [] \<or> k_at (b w) = K_Done" by (rule client)
  have "joined (b w)"
    using shm_boot_invD(3) [OF inv, of w] client [of "peer w"] by (auto simp: socket_ok_def)
  then show "v_at (b w) = V_Done" using shm_rest_served [OF inv rest, of w] by simp
qed

lemma rest_numbered:
  assumes inv: "shm_boot_inv e b" and rest: "shm_at_rest e b" and "k_at (b w) = K_Done"
  shows "at_menu (b w)" and "order (b w) = 1 \<or> order (b w) = 2"
proof -
  note p = proc_okD [OF shm_boot_invD(1) [OF inv, of w]]
  have m: "m_at (b w) = M_Menu"
    using shm_rest_started [OF rest, of w] shm_rest_where(1) [OF inv rest, of w] assms(3) by blast
  then have h: "h_at (b w) = H_Begin \<or> h_at (b w) = H_Loop"
    using p by (cases "h_at (b w)") (auto simp: threads_ok_def)
  have "h_at (b w) \<noteq> H_Begin"
    using shm_at_restD(4) [OF rest, of w] by (auto simp: shm_boot_handler_def Let_def bind_res_Inl_iff)
  then have l: "h_at (b w) = H_Loop" using h by simp
  then have "psize (b w) \<noteq> 0" using p by (simp add: threads_ok_def)
  then have "mapped (b w) \<noteq> None" using p memory_okD(5) [of e w "b w"] by metis
  then show "at_menu (b w)" using m l by (simp add: at_menu_def)
  show "order (b w) = 1 \<or> order (b w) = 2" using p assms(3) order_ok_simps(4) by blast
qed

lemma shm_rest_ends:
  assumes inv: "shm_boot_inv e b" and rest: "shm_at_rest e b"
  shows "shm_paired One b \<or> shm_paired Two b \<or> shm_both_first e b \<or> shm_both_second b"
proof -
  have num: "k_at (b w) = K_Receive \<and> order (b w) = 2 \<and> received (b w) = [] \<and> m_at (b w) = M_Join \<and> mapped (b w) = None \<or>
      k_at (b w) = K_Done \<and> at_menu (b w) \<and> (order (b w) = 1 \<or> order (b w) = 2)" for w
  proof (cases "k_at (b w) = K_Done")
    case True
    then show ?thesis using rest_numbered [OF inv rest True] by simp
  next
    case False
    then have at: "k_at (b w) = K_Receive" "received (b w) = []" using shm_rest_where(2) [OF inv rest, of w] by auto
    note p = proc_okD [OF shm_boot_invD(1) [OF inv, of w]]
    have o: "order (b w) = 2" using p at order_ok_simps(2) by blast
    have "mapped (b w) = None" using p at o memory_okD(1) by auto
    moreover have "m_at (b w) = M_Join" using p at by (cases "m_at (b w)") (auto simp: threads_ok_def)
    ultimately show ?thesis using at o by simp
  qed
  have sock: "received (b v) = (if address_sent (b (peer v)) \<and> \<not> address_read (b v) then [own_sent e (peer v)] else [])"
    "address_read (b v) \<longrightarrow> address_sent (b (peer v))" for v
    using shm_boot_invD(4) [OF inv, of v] by (simp_all add: socket_ok_def)
  have pair: "shm_paired w b" if "order (b w) = 1" "order (b (peer w)) = 2" for w
  proof -
    have sent: "address_sent (b w)" and "at_menu (b w)" using num [of w] that by (auto simp: address_sent_def at_menu_def)
    moreover have "k_at (b (peer w)) = K_Done"
      using num [of "peer w"] sock(1) [of "peer w"] sent by (auto simp: address_read_def)
    then have "at_menu (b (peer w))" "address_read (b (peer w))"
      using num [of "peer w"] that by (auto simp: address_read_def at_menu_def)
    moreover have "received (b w) = []" "received (b (peer w)) = []"
      using sock(1) [of w] sock(1) [of "peer w"] that calculation by (auto simp: address_sent_def)
    ultimately show ?thesis using that by (simp add: shm_paired_def)
  qed
  have sent: "order (b v) = 1 \<Longrightarrow> address_sent (b v)" for v
    using num [of v] by (auto simp: address_sent_def at_menu_def)
  have sent2: "order (b v) = 2 \<Longrightarrow> \<not> address_sent (b v)" for v by (simp add: address_sent_def)
  consider (a) "order (b One) = 1" "order (b Two) = 2" | (b) "order (b Two) = 1" "order (b One) = 2"
    | (c) "order (b One) = 1" "order (b Two) = 1" | (d) "order (b One) = 2" "order (b Two) = 2"
    using num [of One] num [of Two] by auto
  then show ?thesis
  proof cases
    case a then show ?thesis using pair [of One] by simp
  next
    case b then show ?thesis using pair [of Two] by simp
  next
    case c
    then have "shm_both_first e b"
      using num [of One] num [of Two] sock(1) [of One] sock(1) [of Two] sent [of One] sent [of Two]
      by (auto simp: shm_both_first_def address_read_def)
    then show ?thesis by blast
  next
    case d
    have "\<not> address_read (b One)" "\<not> address_read (b Two)"
      using sock(2) [of One] sock(2) [of Two] sent2 [of One] sent2 [of Two] d by auto
    then have "shm_both_second b"
      using num [of One] num [of Two] d by (auto simp: shm_both_second_def address_read_def at_menu_def)
    then show ?thesis by blast
  qed
qed

lemma shm_start_extends:
  assumes "shm_boot_inv e b"
  shows "\<exists>us. case run_events (shm_boot_step e) us b of
      Inl f \<Rightarrow> shm_stop e f \<or> f = Exit ''mmap'' \<and> (\<exists>ts w c. us = ts @ [Handler_of w] \<and>
        run_events (shm_boot_step e) ts b = Inr c \<and> shm_missed w c)
    | Inr c \<Rightarrow> shm_at_rest e c"
  using assms
proof (induction "pair_left b" arbitrary: b rule: less_induct)
  case less
  show ?case
  proof (cases "shm_at_rest e b")
    case True
    then show ?thesis by (intro exI [of _ "[]"]) simp
  next
    case False
    then obtain t where t: "shm_boot_step e t b \<noteq> Inl NotEnabled" by (auto simp: shm_at_rest_def)
    show ?thesis
    proof (cases "shm_boot_step e t b")
      case (Inl f)
      then have "run_events (shm_boot_step e) [t] b = Inl f" by simp
      moreover have "shm_stop e f \<or> f = Exit ''mmap'' \<and> (\<exists>w. t = Handler_of w \<and> shm_missed w b)"
        using shm_step_stops [OF less.prems Inl] t Inl by auto
      ultimately show ?thesis by (intro exI [of _ "[t]"]) auto
    next
      case (Inr b')
      have "shm_boot_inv e b'" using shm_booting.step_stays [OF less.prems TrueI Inr] .
      then obtain us where us: "case run_events (shm_boot_step e) us b' of
          Inl f \<Rightarrow> shm_stop e f \<or> f = Exit ''mmap'' \<and> (\<exists>ts w c. us = ts @ [Handler_of w] \<and>
            run_events (shm_boot_step e) ts b' = Inr c \<and> shm_missed w c)
        | Inr c \<Rightarrow> shm_at_rest e c"
        using less.hyps [OF shm_step_left [OF less.prems Inr]] by blast
      have longer: "\<exists>ts' w c. t # us = ts' @ [Handler_of w] \<and> run_events (shm_boot_step e) ts' b = Inr c \<and> shm_missed w c"
        if "us = ts @ [Handler_of w]" "run_events (shm_boot_step e) ts b' = Inr c" "shm_missed w c" for ts w c
        using that Inr by (intro exI [of _ "t # ts"] exI [of _ w] exI [of _ c]) simp
      show ?thesis
      proof (cases "run_events (shm_boot_step e) us b'")
        case (Inl f)
        then show ?thesis using us longer Inr by (intro exI [of _ "t # us"]) auto
      next
        case (Inr c)
        then show ?thesis using us \<open>shm_boot_step e t b = Inr b'\<close> by (intro exI [of _ "t # us"]) simp
      qed
    qed
  qed
qed

text \<open>
  C26. The start of the page menu: whatever the scheduler does, the threads of both processes
  make at most twenty-four steps. A process ends only when a call fails, when the page count entered (or the page
  size) makes an \<open>mmap\<close> of no bytes, or in the fault handler of a machine 1 whose
  server thread looked at \<open>order\<close> too early, which has no page size. Every schedule can be continued until that happens
  or no thread can move, and then one process is machine 1 and the other machine 2, both at their menus, or both
  took themselves for machine 1, or both for machine 2 and wait for ever.
\<close>

theorem shm_start_ends:
  "case run_events (shm_boot_step e) ts shm_boot_start of
      Inl f \<Rightarrow> f = NotEnabled \<or> shm_stop e f \<or> f = Exit ''mmap'' \<and>
        (\<exists>us w vs b. ts = us @ Handler_of w # vs \<and> run_events (shm_boot_step e) us shm_boot_start = Inr b \<and> shm_missed w b)
    | Inr b \<Rightarrow> length ts \<le> 24 \<and>
        (\<exists>us. case run_events (shm_boot_step e) us b of
            Inl f \<Rightarrow> shm_stop e f \<or> f = Exit ''mmap'' \<and> (\<exists>ts w c. us = ts @ [Handler_of w] \<and>
              run_events (shm_boot_step e) ts b = Inr c \<and> shm_missed w c)
          | Inr c \<Rightarrow> shm_at_rest e c) \<and>
        (if shm_at_rest e b then shm_paired One b \<or> shm_paired Two b \<or> shm_both_first e b \<or> shm_both_second b else True)"
proof (cases "run_events (shm_boot_step e) ts shm_boot_start")
  case (Inl f)
  obtain us t vs b where run: "ts = us @ t # vs" "run_events (shm_boot_step e) us shm_boot_start = Inr b"
    and b: "shm_boot_inv e b" "shm_boot_step e t b = Inl f"
    using shm_booting.run_stops [OF shm_boot_inv_start shm_any Inl] by blast
  then show ?thesis using shm_step_stops [OF b] Inl by fastforce
next
  case (Inr b)
  have inv: "shm_boot_inv e b" by (rule shm_run_stays [OF Inr])
  moreover have "pair_left shm_boot_start = 24" by (simp add: pair_left_def lefts shm_boot_start_def shm_idle_def)
  ultimately show ?thesis
    using Inr shm_run_left [OF shm_boot_inv_start Inr] shm_rest_ends [OF inv] shm_start_extends [OF inv] by simp
qed

text \<open>When no call fails the only thread that ends its process is the handler of a machine without pages.\<close>

lemma works_stop: "shm_works e \<Longrightarrow> \<not> shm_stop e f"
  by (auto simp: shm_works_def shm_stop_def)

section \<open>The menu after a start\<close>

text \<open>
  Pages of a power-of-two size, at least one and at most 2 GiB of them on each machine, at aligned
  addresses with room, and a kernel that grants the address it is asked for.
\<close>

definition shm_fits :: "nat \<Rightarrow> shm_env \<Rightarrow> bool" where
  "shm_fits k e \<longleftrightarrow> k < 31 \<and> se_page e = 2 ^ k \<and>
     (\<forall>w. unat (se_count e w) * 2 ^ k < 2 ^ 31 \<and> 2 ^ k dvd unat (own_base e w) \<and>
        unat (own_base e w) + unat (se_count e w) * 2 ^ k < 2 ^ 64 \<and> text_ok (2 ^ k) (se_msg e w) \<and>
        se_mmap e w (own_base e (peer w)) = own_base e (peer w))"

text \<open>The process whose page count a process works with.\<close>

definition leader :: "side \<Rightarrow> shm_pair \<Rightarrow> side" where
  "leader w b = (if order (b w) = 1 then w else peer w)"

lemma fits_pages:
  assumes "shm_fits k e"
  shows "unat (range_length e (se_count e w)) = unat (se_count e w) * 2 ^ k" and "pages_in e w = unat (se_count e w)"
proof -
  have small: "unat (se_count e w) * 2 ^ k < 2 ^ 64" and "(2 :: nat) ^ k < 2 ^ 64" and ps: "se_page e = 2 ^ k"
    using assms power_strict_increasing [of k 64 "2 :: nat"] by (auto simp: shm_fits_def intro: less_trans)
  then have "unat (se_count e w * word_of_nat (2 ^ k)) = unat (se_count e w) * 2 ^ k"
    by (simp only: unat_word_ariths unat_of_nat) simp
  then show l: "unat (range_length e (se_count e w)) = unat (se_count e w) * 2 ^ k"
    by (simp add: range_length_def ps)
  show "pages_in e w = unat (se_count e w)" by (simp add: pages_in_def l ps)
qed

lemma menu_is_start:
  assumes inv: "shm_boot_inv e b" and fits: "shm_fits k e" and at: "at_menu (b w)"
  shows "menu_of (b w) = Some (shm_start (2 ^ k) (unat (se_count e (leader w b)))
    (own_base e (leader w b)) (own_base e (leader w b)) (se_msg e w))"
proof -
  note p = proc_okD [OF shm_boot_invD(1) [OF inv, of w]]
  have m: "menu_of (b w) = Some (menu_start (se_msg e w) (b w))" "k_at (b w) = K_Done" "v_at (b w) = V_Done"
    using p at by (simp_all add: threads_ok_def at_menu_def)
  have map: "mapped (b w) \<noteq> None" using at by (simp add: at_menu_def)
  have ps: "se_page e = 2 ^ k" and grant: "se_mmap e w (own_base e (peer w)) = own_base e (peer w)"
    using fits by (auto simp: shm_fits_def)
  consider "order (b w) = 1" | "order (b w) = 2" using p m order_ok_simps(4) by blast
  then show ?thesis
  proof cases
    case 1
    then show ?thesis
      using p map ps m fits_pages [OF fits, of w]
      by (simp add: memory_ok_def menu_start_def chosen_def shm_start_def leader_def own_sent_def)
  next
    case 2
    then show ?thesis
      using p map ps m grant fits_pages [OF fits, of "peer w"]
      by (simp add: memory_ok_def menu_start_def chosen_def shm_start_def leader_def own_sent_def)
  qed
qed

text \<open>
  C27. From the start of the programs to the commands, where the kernel maps the pages at the address it is asked for
  (aligned, and less than 2 GiB): whatever schedule brought a process to its menu with its fault
  handler running, and whether or not the other process came up, every sequence of read and write commands with
  messages shorter than a page behaves as the abstract menu over a zeroed array with as many pages as machine 1 asked for.
\<close>

theorem shm_started_menu_refines:
  assumes "run_events (shm_boot_step e) ts shm_boot_start = Inr b" and "at_menu (b w)" and "shm_fits k e"
    and "all_served outs" and "list_all (command_ok (2 ^ k)) cs"
  shows "\<exists>s t. menu_of (b w) = Some s \<and> run_events (shm_menu outs) cs s = Inr t \<and>
    page_file_of t = fold (spec_menu (2 ^ k) (unat (se_count e (leader w b)))) cs
      \<lparr>bytes = replicate (unat (se_count e (leader w b)) * 2 ^ k) NUL, last_message = se_msg e w, seen = []\<rparr>"
proof -
  let ?l = "leader w b"
  have inv: "shm_boot_inv e b" by (rule shm_run_stays [OF assms(1)])
  have "k < 31" "unat (se_count e ?l) * 2 ^ k < 2 ^ 31" "2 ^ k dvd unat (own_base e ?l)"
    "unat (own_base e ?l) + unat (se_count e ?l) * 2 ^ k < 2 ^ 64" "text_ok (2 ^ k) (se_msg e w)"
    using assms(3) by (simp_all add: shm_fits_def)
  from shm_menu_refines [OF this(1,2,4,3,5) assms(4,5)] show ?thesis
    using menu_is_start [OF inv assms(3,2)] by simp
qed

section \<open>The ends are reached\<close>

text \<open>Process \<open>One\<close> is started first; process \<open>Two\<close> when \<open>One\<close>'s first \<open>connect\<close> has failed.\<close>

definition shm_up :: "shm_thread list" where
  "shm_up = [Main_of One, Main_of One, Server_of One, Client_of One, Main_of Two, Main_of Two, Server_of Two, Client_of Two]"

definition shm_good_start :: "shm_thread list" where
  "shm_good_start = shm_up @ [Client_of Two, Client_of One, Client_of One, Server_of One, Server_of One, Server_of One,
     Server_of One, Client_of Two, Server_of Two, Server_of Two, Main_of One, Main_of Two, Handler_of One, Handler_of Two]"

definition shm_hasty_start :: "shm_thread list" where
  "shm_hasty_start = shm_up @ [Server_of One, Server_of One, Client_of One, Client_of One, Main_of One, Handler_of One]"

definition shm_fail_together :: "shm_thread list" where
  "shm_fail_together = concat (map (\<lambda>t. [t One, t Two]) [Main_of, Main_of, Client_of, Server_of, Client_of, Client_of,
     Server_of, Server_of, Server_of, Server_of, Main_of, Handler_of])"

definition shm_connect_together :: "shm_thread list" where
  "shm_connect_together = concat (map (\<lambda>t. [t One, t Two]) [Main_of, Main_of, Server_of, Client_of, Client_of,
     Server_of, Server_of])"

lemmas shm_schedules = shm_up_def shm_good_start_def shm_hasty_start_def shm_fail_together_def shm_connect_together_def

lemmas shm_run = run_events.simps shm_boot_step.simps shm_boot_server_def shm_boot_client_def shm_boot_main_def
  shm_boot_handler_def shm_boot_start_def shm_idle_def shm_listens_def shm_link_def deliver_def

lemma shm_at_rest_threads: "shm_at_rest e b \<longleftrightarrow>
    list_all (\<lambda>w. shm_boot_main e w b = Inl NotEnabled \<and> shm_boot_server e w b = Inl NotEnabled \<and>
      shm_boot_client e w b = Inl NotEnabled \<and> shm_boot_handler e w b = Inl NotEnabled) [One, Two]"
proof -
  have "shm_at_rest e b \<longleftrightarrow> (\<forall>w. shm_boot_main e w b = Inl NotEnabled \<and> shm_boot_server e w b = Inl NotEnabled \<and>
      shm_boot_client e w b = Inl NotEnabled \<and> shm_boot_handler e w b = Inl NotEnabled)" (is "_ \<longleftrightarrow> ?all")
  proof
    assume ?all
    then have "shm_boot_step e t b = Inl NotEnabled" for t by (cases t) simp_all
    then show "shm_at_rest e b" by (simp add: shm_at_rest_def)
  qed (simp add: shm_at_restD)
  then show ?thesis by (simp add: all_side [of _ One])
qed

lemma shm_good_runs:
  "shm_works e \<Longrightarrow> \<exists>b. run_events (shm_boot_step e) shm_good_start shm_boot_start = Inr b \<and> shm_at_rest e b \<and>
     shm_paired One b"
  by (simp add: shm_schedules shm_run shm_worksD shm_at_rest_threads shm_paired_def at_menu_def Let_def)

lemma shm_together_runs:
  "shm_works e \<Longrightarrow> \<exists>b. run_events (shm_boot_step e) shm_fail_together shm_boot_start = Inr b \<and> shm_at_rest e b \<and>
     shm_both_first e b"
  "shm_works e \<Longrightarrow> \<exists>b. run_events (shm_boot_step e) shm_connect_together shm_boot_start = Inr b \<and> shm_at_rest e b \<and>
     shm_both_second b"
  by (simp_all add: shm_schedules shm_run shm_worksD shm_at_rest_threads shm_both_first_def shm_both_second_def
      at_menu_def own_sent_def own_base_def no_stuff_def Let_def)

lemma shm_hasty_runs:
  "shm_works e \<Longrightarrow> run_events (shm_boot_step e) shm_hasty_start shm_boot_start = Inl (Exit ''mmap'')"
  by (simp add: shm_schedules shm_run shm_worksD Let_def)

text \<open>
  Each end does happen. Two processes started together both become machine 1, so that each has its own
  pages and an address it never reads, or both machine 2; and in \<open>shm_hasty_start\<close> the server
  thread of machine 1 looks at \<open>order\<close> before it is set, after which \<open>mmap\<close> of no bytes ends the process.
\<close>

theorem shm_start_races:
  assumes "shm_works e"
  shows "list_all (\<lambda>(ts, P). case run_events (shm_boot_step e) ts shm_boot_start of
      Inl _ \<Rightarrow> False | Inr b \<Rightarrow> shm_at_rest e b \<and> P b)
    [(shm_good_start, shm_paired One), (shm_fail_together, shm_both_first e), (shm_connect_together, shm_both_second)] \<and>
    run_events (shm_boot_step e) shm_hasty_start shm_boot_start = Inl (Exit ''mmap'')"
  using shm_good_runs [OF assms] shm_together_runs [OF assms] shm_hasty_runs [OF assms] by auto

definition sample_shm :: shm_env where
  "sample_shm = \<lparr>se_page = 8, se_count = (\<lambda>w. case w of One \<Rightarrow> 2 | Two \<Rightarrow> 5),
     se_mmap = (\<lambda>w hint. if hint = 0 then 2 ^ 20 else hint), se_uffd = (\<lambda>_. 5), se_fails = (\<lambda>_ _. False),
     se_msg = (\<lambda>_. [])\<rparr>"

lemma sample_shm_ok: "shm_works sample_shm" "shm_fits 3 sample_shm"
  by (auto simp: shm_works_def shm_fits_def sample_shm_def range_length_def own_base_def text_ok_def split: side.split)

text \<open>Machine 2, started with two pages of eight bytes by machine 1, which asked for them.\<close>

theorem shm_started_menu_refines_witness:
  "\<exists>b. run_events (shm_boot_step sample_shm) shm_good_start shm_boot_start = Inr b \<and>
    (\<exists>s t. menu_of (b Two) = Some s \<and>
      run_events (shm_menu (\<lambda>_. served)) [MWrite 1 ''abc'', MRead 1, MRead (-1), MRead 2] s = Inr t \<and>
      page_file_of t = fold (spec_menu (2 ^ 3) (unat (se_count sample_shm (leader Two b))))
        [MWrite 1 ''abc'', MRead 1, MRead (-1), MRead 2]
        \<lparr>bytes = replicate (unat (se_count sample_shm (leader Two b)) * 2 ^ 3) NUL,
         last_message = se_msg sample_shm Two, seen = []\<rparr>)"
proof -
  obtain b where b: "run_events (shm_boot_step sample_shm) shm_good_start shm_boot_start = Inr b" "shm_paired One b"
    using shm_good_runs [OF sample_shm_ok(1)] by blast
  have "at_menu (b Two)" using b(2) by (simp add: shm_paired_def)
  moreover have "all_served (\<lambda>_. served)" by (simp add: all_served_def handler_checks_def served_def)
  moreover have "list_all (command_ok (2 ^ 3)) [MWrite 1 ''abc'', MRead 1, MRead (-1), MRead 2]"
    by (simp add: command_ok_def text_ok_def)
  ultimately show ?thesis
    using shm_started_menu_refines [OF b(1) _ sample_shm_ok(2)] b(1) by blast
qed

section \<open>An address that is not granted\<close>

text \<open>
  C28. \<open>mmap\<close> takes the address machine 1 sent for a hint. When machine 2 is given its pages at another place, out of
  reach of that address, it goes on to use the address it was sent: the first page it reads, or writes a
  message to, is outside of its memory.
\<close>

lemma at_offset_frame: "at_offset (s\<lparr>msgbuf := x\<rparr>) = at_offset s" "at_offset (s\<lparr>lines := y\<rparr>) = at_offset s"
  by (simp_all add: at_offset_def fun_eq_iff)

lemma outside_faults:
  assumes "length (rbytes r) \<le> l"
  shows "read_cstr fill outs l r = Inl OutOfBounds" and "write_bytes outs l (c # cs) r = Inl OutOfBounds"
  using assms by (simp_all add: read_cstr.simps [of fill] read_byte_def write_byte_def touch_def)

theorem shm_ungranted_faults:
  assumes "run_events (shm_boot_step e) ts shm_boot_start = Inr b" and "at_menu (b w)" and "order (b w) = 2"
    and "i < unat (se_count e (peer w))" and "k < 31" and "se_page e = 2 ^ k" and "Suc i * 2 ^ k < 2 ^ 31"
    and "pages_in e (peer w) * 2 ^ k \<le>
      unat (own_base e (peer w) + word_of_nat (i * 2 ^ k) - se_mmap e w (own_base e (peer w)))"
    and "line \<noteq> []" and "text_ok (2 ^ k) line"
  shows "\<exists>s. menu_of (b w) = Some s \<and> shm_menu outs (MRead (int i)) s = Inl OutOfBounds \<and>
    shm_menu outs (MWrite (int i) line) s = Inl OutOfBounds"
proof -
  have inv: "shm_boot_inv e b" by (rule shm_run_stays [OF assms(1)])
  note p = proc_okD [OF shm_boot_invD(1) [OF inv, of w]]
  have m: "menu_of (b w) = Some (menu_start (se_msg e w) (b w))" and map: "mapped (b w) \<noteq> None"
    using p assms(2) by (simp_all add: threads_ok_def at_menu_def)
  let ?s = "menu_start (se_msg e w) (b w)" and ?a = "word_of_int (int i) :: 64 word" and ?l = "int (i * 2 ^ k)"
  have s: "reg ?s = fresh_region (2 ^ k) (pages_in e (peer w)) (se_mmap e w (own_base e (peer w)))"
    "mch_addr ?s = own_base e (peer w)" "pg_size ?s = se_count e (peer w)"
    using p map assms(3,6) by (simp_all add: memory_ok_def menu_start_def chosen_def own_sent_def)
  have "Suc i * 1 \<le> Suc i * 2 ^ k" by (intro mult_le_mono2) simp
  from le_less_trans [OF this assms(7)] have i: "i < 2 ^ 31" by simp
  then have a: "unat ?a = i" by (simp add: unat_of_nat)
  have one: "?a \<noteq> -1"
  proof
    assume "?a = -1"
    then have "unat ?a = unat (-1 :: 64 word)" by (simp only:)
    then show False using a i by (simp add: unsigned_minus_1_eq_mask mask_eq_exp_minus_1)
  qed
  have ok: "access_allowed ?a (?s\<lparr>msgbuf := x\<rparr>)" "access_allowed ?a ?s" for x
    using assms(4) a by (simp_all add: access_allowed_def s word_less_nat_alt)
  have off: "page_offset ?a (2 ^ k) = ?l"
    using page_offset_small [of k "Suc i" ?a, unfolded a] assms(5,7) by simp
  have out: "length (rbytes (reg ?s)) \<le> at_offset ?s ?l"
    using assms(8) by (simp add: at_offset_def s) (simp add: fresh_region_def)
  have ps: "rsize (reg ?s) = 2 ^ k" by (simp add: s fresh_region_def)
  have "shm_menu outs (MRead (int i)) ?s = Inl OutOfBounds"
    using ok one off ps outside_faults(1) [OF out] at_offset_frame
    by (simp add: mem_read_def read_at_def Let_def)
  moreover have "shm_menu outs (MWrite (int i) line) ?s = Inl OutOfBounds"
  proof -
    have line: "takeWhile (\<lambda>c. c \<noteq> NUL) line = line" "length line < 2 ^ k"
      using assms(10) by (auto simp: text_ok_def takeWhile_eq_all_conv)
    obtain c cs where "line = c # cs" using assms(9) by (cases line) auto
    then have "mem_write outs ?a line (?s\<lparr>msgbuf := line\<rparr>) = Inl OutOfBounds"
      using one off ps outside_faults(2) [OF out] at_offset_frame by (simp add: mem_write_def write_at_def)
    then show ?thesis
      using ok line(2) ps assms(9) by (simp only: shm_menu.simps Let_def line(1)) simp
  qed
  ultimately show ?thesis using m by blast
qed

definition elsewhere_shm :: shm_env where
  "elsewhere_shm = sample_shm\<lparr>se_mmap := (\<lambda>w hint. if hint = 0 then 2 ^ 20 else 2 ^ 24)\<rparr>"

theorem shm_ungranted_faults_witness:
  "\<exists>b s. run_events (shm_boot_step elsewhere_shm) shm_good_start shm_boot_start = Inr b \<and> menu_of (b Two) = Some s \<and>
    shm_menu (\<lambda>_. served) (MRead (int 1)) s = Inl OutOfBounds \<and>
    shm_menu (\<lambda>_. served) (MWrite (int 1) ''abc'') s = Inl OutOfBounds"
proof -
  have "shm_works elsewhere_shm" using sample_shm_ok(1) by (simp add: elsewhere_shm_def shm_works_def range_length_def)
  then obtain b where b: "run_events (shm_boot_step elsewhere_shm) shm_good_start shm_boot_start = Inr b" "shm_paired One b"
    using shm_good_runs by blast
  have two: "at_menu (b Two)" "order (b Two) = 2" using b(2) by (simp_all add: shm_paired_def)
  have "pages_in elsewhere_shm (peer Two) * 2 ^ 3 \<le> unat (own_base elsewhere_shm (peer Two) + word_of_nat (1 * 2 ^ 3) -
      se_mmap elsewhere_shm Two (own_base elsewhere_shm (peer Two)))"
    by (simp add: pages_in_def own_base_def elsewhere_shm_def sample_shm_def range_length_def)
  then show ?thesis
    using shm_ungranted_faults [OF b(1) two, of 1 3 "''abc''" "\<lambda>_. served"] b(1)
    by (auto simp: elsewhere_shm_def sample_shm_def text_ok_def)
qed

section \<open>The fault handler\<close>

text \<open>
  Faults at different pages that are not there yet: each is answered with a page of zeros, which is what the process
  already saw there, and nothing else is touched; the first call that fails ends the process.
\<close>

lemma shm_handler_loop_stops:
  assumes "first_failure (handler_checks out) = Some msg"
  shows "shm_handler_loop ((out, address) # faults) r = Inl (Exit msg)"
  using assms by (simp add: shm_handler_loop_def fault_handler_iter_def Let_def)

lemma shm_handler_loop_fills:
  assumes "region_ok k n r" and "distinct (map (\<lambda>l. l div 2 ^ k) ls)"
    and "\<forall>l \<in> set ls. l < n * 2 ^ k \<and> \<not> resident r (l div 2 ^ k)" and "all_served (\<lambda>_. out)"
  shows "\<exists>r'. shm_handler_loop (map (\<lambda>l. (out, rbase r + word_of_nat l)) ls) r = Inr r' \<and> region_ok k n r' \<and>
    flat r' = flat r \<and> fault_cnt r' = fault_cnt r + length ls \<and>
    (\<forall>p. resident r' p = (resident r p \<or> p \<in> (\<lambda>l. l div 2 ^ k) ` set ls))"
  using assms(1-3)
proof (induction ls arbitrary: r)
  case Nil
  then show ?case by (simp add: shm_handler_loop_def)
next
  case (Cons l ls)
  let ?r = "filled k (l div 2 ^ k) (replicate (2 ^ k) NUL) r" and ?fill = "\<lambda>_. replicate (2 ^ k) NUL"
  have l: "l < n * 2 ^ k" "\<not> resident r (l div 2 ^ k)" using Cons.prems(3) by auto
  have t: "touch ?fill (\<lambda>_. out) l r = Inr ?r"
    using touch_ok [OF Cons.prems(1) l(1) assms(4), of ?fill] l(2) by simp
  have size: "rsize r = 2 ^ k" "length (rbytes r) = n * 2 ^ k" using Cons.prems(1) by (simp_all add: region_ok_def)
  then have iter: "fault_handler_iter ?fill out (rbase r + word_of_nat l) r = Inr ?r"
    using t l by (simp add: touch_def)
  have zero: "zero_page (2 ^ k) = ?fill" by (simp add: zero_page_def fun_eq_iff)
  have ok: "region_ok k n ?r" "flat ?r = flat r"
    using touch_zero [OF Cons.prems(1) l(1) assms(4)] t unfolding zero by auto
  have same: "rbase ?r = rbase r" "rsize ?r = 2 ^ k" "fault_cnt ?r = Suc (fault_cnt r)"
    "resident ?r p = (resident r p \<or> p = l div 2 ^ k)" for p
    using size by (simp_all add: filled_def)
  have "\<forall>j \<in> set ls. j < n * 2 ^ k \<and> \<not> resident ?r (j div 2 ^ k)"
  proof
    fix j assume j: "j \<in> set ls"
    then have "j div 2 ^ k \<in> (\<lambda>l. l div 2 ^ k) ` set ls" by (rule imageI)
    then have "j div 2 ^ k \<noteq> l div 2 ^ k" using Cons.prems(2) by auto
    then show "j < n * 2 ^ k \<and> \<not> resident ?r (j div 2 ^ k)" using Cons.prems(3) j same(4) by simp
  qed
  from Cons.IH [OF ok(1) _ this] obtain r' where
    "shm_handler_loop (map (\<lambda>l. (out, rbase r + word_of_nat l)) ls) ?r = Inr r'" "region_ok k n r'"
    "flat r' = flat ?r" "fault_cnt r' = fault_cnt ?r + length ls"
    "\<forall>p. resident r' p = (resident ?r p \<or> p \<in> (\<lambda>l. l div 2 ^ k) ` set ls)"
    using Cons.prems(2) same(1) by auto
  then show ?case
    using iter size ok(2) same by (auto simp: shm_handler_loop_def Let_def)
qed

end
