(* ===== verification/Msi_Answers.thy ===== *)
theory Msi_Answers
  imports Msi_Blocking
begin

text \<open>
  The answers of \<open>Project_3_new/part4/part4.c\<close> as the bytes they are. The menu reads an answer with one
  \<open>read\<close> of at most a page, which may return a part of it, or the end of an earlier answer and
  this one together: \<open>send\<close> leaves no mark between answers, and the menu does not look at how many
  bytes it got.
\<close>

section \<open>Reads of any length\<close>

definition answer_bytes :: "sys \<Rightarrow> side \<Rightarrow> char list" where
  "answer_bytes s w = concat (replies s w)"

text \<open>\<open>Got w k\<close>: the menu of \<open>w\<close> gets \<open>k\<close> bytes, or what there is, or a page.\<close>

datatype byte_event = Other event | Got side nat

definition got_bytes :: "side \<Rightarrow> nat \<Rightarrow> sys \<Rightarrow> char list" where
  "got_bytes w k s = take k (take (page_size (mach s w)) (answer_bytes s w))"

fun byte_step :: "byte_event \<Rightarrow> sys \<Rightarrow> sys res" where
  "byte_step (Other e) s = (case e of Reply w \<Rightarrow> Inl NotEnabled | _ \<Rightarrow> sys_step e s)"
| "byte_step (Got w k) s =
     (let got = got_bytes w k s
      in if got = [] then Inl NotEnabled
         else bind_res (menu_reply got (mach s w)) (\<lambda>(out, mc).
           Inr (s\<lparr>mach := (mach s)(w := mc), replies := (replies s)(w := [drop (length got) (answer_bytes s w)]),
                  printed := (printed s)(w := printed s w @ out)\<rparr>)))"

definition byte_event_ok :: "nat \<Rightarrow> nat \<Rightarrow> byte_event \<Rightarrow> bool" where
  "byte_event_ok N ps e = (case e of Other e \<Rightarrow> event_ok N ps e | Got w k \<Rightarrow> True)"

section \<open>The invariant\<close>

definition no_replies :: "sys \<Rightarrow> sys" where
  "no_replies s = s\<lparr>replies := (\<lambda>_. [])\<rparr>"

definition byte_safe :: "nat \<Rightarrow> nat \<Rightarrow> sys \<Rightarrow> bool" where
  "byte_safe N ps s \<longleftrightarrow> safe N ps (no_replies s) \<and> (\<forall>w. NUL \<notin> set (answer_bytes s w))"

lemma no_replies_sel [simp]: "mach (no_replies s) = mach s" "requests (no_replies s) = requests s"
  "printed (no_replies s) = printed s" "replies (no_replies s) w = []"
  by (simp_all add: no_replies_def)

lemma byte_safe_machine: "byte_safe N ps s \<Longrightarrow> safe_machine N ps (mach s w)"
  by (simp add: byte_safe_def safe_def)

lemma safe_no_replies: "safe N ps s \<Longrightarrow> safe N ps (no_replies s)"
  by (simp add: safe_def)

lemma server_handle_text: "server_handle td mc = Inr (bytes, mc') \<Longrightarrow> NUL \<notin> set bytes"
  by (auto simp: server_handle_def Let_def cstr_at_def bind_res_Inr_iff dest: cstr_no_NUL split: if_splits)

text \<open>A step that takes no answer does the same whatever answers are on their way.\<close>

lemma step_without_replies:
  assumes "\<forall>w. e \<noteq> Reply w"
  shows "case sys_step e s of Inl f \<Rightarrow> f = NotEnabled \<or> sys_step e (no_replies s) = Inl f
    | Inr t \<Rightarrow> \<exists>t'. sys_step e (no_replies s) = Inr t' \<and> no_replies t' = no_replies t \<and>
        (\<forall>w. set (answer_bytes t w) \<subseteq> set (answer_bytes s w) \<union> - {NUL})"
proof (cases e)
  case (Key w c)
  then show ?thesis
    by (cases "menu_command c (mach s w)") (auto simp: after_menu_def no_replies_def answer_bytes_def split: option.split)
next
  case (Iter w)
  then show ?thesis
    by (cases "menu_iter (mach s w)") (auto simp: after_menu_def no_replies_def answer_bytes_def split: option.split)
next
  case (Serve w)
  show ?thesis
  proof (cases "menu_at (mach s w) = Exited \<or> requests s w = []")
    case True
    then show ?thesis using Serve by auto
  next
    case False
    then obtain td rest where r: "requests s w = td # rest" by (cases "requests s w") auto
    then show ?thesis
      using Serve False server_handle_text [of td "mach s w"]
      by (cases "server_handle td (mach s w)") (auto simp: no_replies_def answer_bytes_def)
  qed
next
  case (Reply w)
  then show ?thesis using assms by simp
next
  case (Hangup w)
  then show ?thesis by (auto simp: no_replies_def answer_bytes_def)
next
  case (Eof w)
  then show ?thesis
    by (cases "menu_reply [] (mach s w)") (auto simp: no_replies_def answer_bytes_def)
qed

lemma other_step:
  assumes s: "byte_safe N ps s" and e: "event_ok N ps e" and r: "\<forall>w. e \<noteq> Reply w"
  shows "case sys_step e s of Inl f \<Rightarrow> f = NotEnabled | Inr t \<Rightarrow> byte_safe N ps t"
proof -
  have safe: "safe N ps (no_replies s)" using s by (simp add: byte_safe_def)
  note st = safe_step [OF safe e] and wo = step_without_replies [OF r, of s]
  show ?thesis
  proof (cases "sys_step e s")
    case (Inl f)
    then show ?thesis using st wo by auto
  next
    case (Inr t)
    then obtain t' where t': "sys_step e (no_replies s) = Inr t'" "no_replies t' = no_replies t"
      and "\<forall>w. set (answer_bytes t w) \<subseteq> set (answer_bytes s w) \<union> - {NUL}"
      using wo by auto
    moreover have "safe N ps (no_replies t)" using st t' safe_no_replies [of N ps t'] by simp
    ultimately show ?thesis using s Inr by (auto simp: byte_safe_def)
  qed
qed

lemma got_bytes_answers: "set (got_bytes w k s) \<subseteq> set (answer_bytes s w)"
  by (auto simp: got_bytes_def dest: in_set_takeD)

lemma reply_full:
  assumes s: "safe_machine N ps mc" and "length bytes = ps" "NUL \<notin> set bytes" "menu_at mc = Await i nxt"
  shows "menu_reply bytes mc = Inl OutOfBounds"
proof -
  have "length (recv_message mc) = ps" using s by (auto simp: safe_machine_def machine_ok_def)
  then have "overlay (recv_message mc) 0 bytes = bytes" using assms(2) by (simp add: overlay_def)
  then show ?thesis using assms by (simp add: menu_reply_def Let_def cstr_def)
qed

lemma got_step:
  assumes s: "byte_safe N ps s"
  shows "case byte_step (Got w k) s of
      Inl f \<Rightarrow> f = NotEnabled \<or> f = OutOfBounds \<and> ps \<le> k \<and> ps \<le> length (answer_bytes s w)
    | Inr t \<Rightarrow> byte_safe N ps t"
proof -
  let ?got = "got_bytes w k s"
  have m: "safe_machine N ps (mach s w)" by (rule byte_safe_machine [OF s])
  then have ps: "page_size (mach s w) = ps" by (simp add: safe_machine_def)
  have len: "length ?got = min k (min ps (length (answer_bytes s w)))" by (simp add: got_bytes_def ps)
  have clean: "NUL \<notin> set ?got" using s got_bytes_answers [of w k s] by (auto simp: byte_safe_def)
  have rest: "NUL \<notin> set (drop (length ?got) (answer_bytes s w))"
    using s by (auto simp: byte_safe_def dest: in_set_dropD)
  show ?thesis
  proof (cases "length ?got < ps")
    case True
    have "byte_safe N ps (s\<lparr>mach := (mach s)(w := mc), replies := (replies s)(w := [drop (length ?got) (answer_bytes s w)]),
        printed := pr\<rparr>)" if "safe_machine N ps mc" for mc pr
      using s that rest by (auto simp: byte_safe_def safe_def answer_bytes_def)
    then show ?thesis
      using menu_reply_safe [OF m True] by (auto simp: Let_def)
  next
    case False
    then have full: "length ?got = ps" "ps \<le> k" "ps \<le> length (answer_bytes s w)" using len by auto
    show ?thesis
    proof (cases "menu_at (mach s w)")
      case (Await i nxt)
      then show ?thesis using reply_full [OF m full(1) clean] full by (simp add: Let_def)
    qed (simp_all add: Let_def menu_reply_def)
  qed
qed

interpretation byte_threads: step_within byte_step "byte_safe N ps" "byte_event_ok N ps"
  "\<lambda>e s f. f = NotEnabled \<or> f = OutOfBounds \<and> (\<exists>w k. e = Got w k \<and> ps \<le> k \<and> ps \<le> length (answer_bytes s w))" for N ps
proof unfold_locales
  fix s e f t
  assume s: "byte_safe N ps s" and e: "byte_event_ok N ps e"
  have "case byte_step e s of Inl f \<Rightarrow> f = NotEnabled \<or> f = OutOfBounds \<and>
      (\<exists>w k. e = Got w k \<and> ps \<le> k \<and> ps \<le> length (answer_bytes s w)) | Inr t \<Rightarrow> byte_safe N ps t"
  proof (cases e)
    case (Other e')
    then have "event_ok N ps e'" using e by (simp add: byte_event_ok_def)
    note step = other_step [OF s this]
    show ?thesis
      using Other step by (cases e') (auto simp del: sys_step.simps split: sum.split_asm)
  next
    case (Got w k)
    then show ?thesis using got_step [OF s, where w = w and k = k] by (auto simp del: byte_step.simps split: sum.splits)
  qed
  then show "byte_step e s = Inl f \<Longrightarrow> f = NotEnabled \<or> f = OutOfBounds \<and>
      (\<exists>w k. e = Got w k \<and> ps \<le> k \<and> ps \<le> length (answer_bytes s w))"
    and "byte_step e s = Inr t \<Longrightarrow> byte_safe N ps t"
    by simp_all
qed

lemma start_byte_safe:
  assumes "ps \<in> {1<..2 ^ 18}" and "N \<in> {1..4096}" and "buffers_ok ps recvbuf"
  shows "\<exists>s. init_sys ps (int N) garbage recvbuf msgbuf = Inr s \<and> byte_safe N ps s"
proof -
  obtain s where s: "init_sys ps (int N) garbage recvbuf msgbuf = Inr s" and g: "good N ps s"
    using init_good [OF assms] by blast
  have "answer_bytes s w = []" for w using good_calm [OF g] by (simp add: answer_bytes_def calm_def)
  then show ?thesis using s safe_no_replies [OF good_safe [OF g]] by (auto simp: byte_safe_def)
qed

text \<open>
  C11. With page numbers that exist, lines that are not empty, without NUL and shorter than a page, buffers
  that are terminated at the start, and records that arrive whole: under every interleaving of the
  threads' steps, and however the reads cut the answers up, the one access out of bounds that can happen is
  the menu printing its buffer after a read that filled it, which takes a page of answers that came
  together; and such a read always does that.
\<close>

theorem msi_answers_in_parts:
  assumes "ps \<in> {1<..2 ^ 18}" and "N \<in> {1..4096}" and "buffers_ok ps recvbuf" and "list_all (byte_event_ok N ps) es"
  shows "\<exists>s. init_sys ps (int N) garbage recvbuf msgbuf = Inr s \<and>
    (case run_events byte_step es s of
       Inl f \<Rightarrow> f = NotEnabled \<or> f = OutOfBounds \<and>
         (\<exists>us w k vs t. es = us @ Got w k # vs \<and> run_events byte_step us s = Inr t \<and>
            ps \<le> k \<and> ps \<le> length (answer_bytes t w))
     | Inr t \<Rightarrow> \<forall>w k i nxt. menu_at (mach t w) = Await i nxt \<longrightarrow> ps \<le> k \<longrightarrow> ps \<le> length (answer_bytes t w) \<longrightarrow>
         byte_step (Got w k) t = Inl OutOfBounds)"
proof -
  obtain s where s: "init_sys ps (int N) garbage recvbuf msgbuf = Inr s" and safe: "byte_safe N ps s"
    using start_byte_safe [OF assms(1-3)] by blast
  have full: "byte_step (Got w k) t = Inl OutOfBounds"
    if t: "byte_safe N ps t" and at: "menu_at (mach t w) = Await i nxt" "ps \<le> k" "ps \<le> length (answer_bytes t w)" for t w k i nxt
  proof -
    have m: "safe_machine N ps (mach t w)" by (rule byte_safe_machine [OF t])
    then have len: "length (got_bytes w k t) = ps" using at by (simp add: got_bytes_def safe_machine_def)
    have "NUL \<notin> set (got_bytes w k t)" using t got_bytes_answers [of w k t] by (auto simp: byte_safe_def)
    then have "menu_reply (got_bytes w k t) (mach t w) = Inl OutOfBounds" using reply_full [OF m len] at(1) by blast
    moreover have "got_bytes w k t \<noteq> []" using len assms(1) by auto
    ultimately show ?thesis by (simp add: Let_def)
  qed
  show ?thesis
  proof (cases "run_events byte_step es s")
    case (Inl f)
    obtain us e vs t where "es = us @ e # vs" "run_events byte_step us s = Inr t"
      "f = NotEnabled \<or> f = OutOfBounds \<and> (\<exists>w k. e = Got w k \<and> ps \<le> k \<and> ps \<le> length (answer_bytes t w))"
      using byte_threads.run_stops [OF safe assms(4) Inl] by blast
    then show ?thesis using s Inl by fastforce
  next
    case (Inr t)
    then show ?thesis using s full byte_threads.run_stays [OF safe assms(4) Inr] by simp
  qed
qed

section \<open>Answers that come too late\<close>

lemma answer_part:
  assumes s: "byte_safe N ps s" and at: "menu_at (mach s w) = Await i nxt" and k: "0 < k" "answer_bytes s w \<noteq> []"
    and len: "length (answer_bytes s w) < ps"
  shows "\<exists>tail mc. byte_step (Got w k) s = Inr (s\<lparr>mach := (mach s)(w := mc),
      replies := (replies s)(w := [drop k (answer_bytes s w)]),
      printed := (printed s)(w := printed s w @ [ReadingPage (take k (answer_bytes s w) @ tail)])\<rparr>) \<and>
    menu_at mc = nxt \<and> list_MSI mc = list_MSI (mach s w)"
proof -
  let ?got = "take k (answer_bytes s w)"
  have m: "safe_machine N ps (mach s w)" by (rule byte_safe_machine [OF s])
  then have ok: "machine_ok N (mach s w)" "page_size (mach s w) = ps" by (simp_all add: safe_machine_def)
  have got: "got_bytes w k s = ?got" using len by (simp add: got_bytes_def ok)
  have short: "length ?got < page_size (mach s w)" using len ok by simp
  have fits: "length ?got \<le> length (recv_message (mach s w))" using short ok by (simp add: machine_ok_def)
  have clean: "\<forall>c \<in> set ?got. c \<noteq> NUL" using s by (auto simp: byte_safe_def dest!: in_set_takeD)
  let ?tail = "takeWhile (\<lambda>c. c \<noteq> NUL) (drop (length ?got) (recv_message (mach s w)))"
  have "cstr (overlay (recv_message (mach s w)) 0 ?got) = Inr (?got @ ?tail)"
    using recv_overlay(2) [OF ok(1) short] clean by (simp add: overlay_def takeWhile_append2)
  then obtain mc where reply: "menu_reply ?got (mach s w) = Inr ([ReadingPage (?got @ ?tail)], mc)"
    and mc: "menu_at mc = nxt" "list_MSI mc = list_MSI (mach s w)"
    using at fits by (simp add: menu_reply_def Let_def del: length_take)
  have drop: "drop (length ?got) (answer_bytes s w) = drop k (answer_bytes s w)" by (simp add: min_def)
  have ne: "?got \<noteq> []" using k by simp
  have "byte_step (Got w k) s = Inr (s\<lparr>mach := (mach s)(w := mc),
      replies := (replies s)(w := [drop k (answer_bytes s w)]),
      printed := (printed s)(w := printed s w @ [ReadingPage (?got @ ?tail)])\<rparr>)"
    using ne by (simp only: byte_step.simps Let_def got reply drop bind_res_simps prod.case if_False)
  then show ?thesis using mc by blast
qed

text \<open>
  C12. An answer that is read in two parts: the first read shows only the first part, and the rest is taken
  for the answer to the menu's next request, whatever page that is for and before the other machine has
  seen it. The page is Shared then, and what the other machine sends for it is one answer behind.
\<close>

theorem msi_short_answer_shifts:
  assumes "ps \<in> {1<..2 ^ 18}" and "N \<in> {1..4096}" and "buffers_ok ps recvbuf" and "list_all (byte_event_ok N ps) es"
    and "bind_res (init_sys ps (int N) garbage recvbuf msgbuf) (run_events byte_step es) = Inr s"
    and "menu_at (mach s w) = Await i Prompt" and "answer_bytes s w = first @ later" and "first \<noteq> []" "later \<noteq> []"
    and "length (first @ later) < ps" and "j < N" and "list_MSI (mach s w) j = flags Inv"
  shows "\<exists>t tail1 tail2 td.
    run_events byte_step [Got w (length first), Other (Key w (Read (int j))), Got w ps] s = Inr t \<and>
    printed t w = printed s w @ [ReadingPage (first @ tail1), ReadingPage (later @ tail2)] \<and>
    list_MSI (mach t w) j = flags Shd \<and> mach t (peer w) = mach s (peer w) \<and>
    requests t (peer w) = requests s (peer w) @ [td] \<and> page_num td = int j \<and> answer_bytes t w = []"
proof -
  obtain s0 where "init_sys ps (int N) garbage recvbuf msgbuf = Inr s0" "byte_safe N ps s0"
    using start_byte_safe [OF assms(1-3)] by blast
  then have s: "byte_safe N ps s" using byte_threads.run_stays [OF _ assms(4)] assms(5) by simp
  have ps: "0 < ps" using assms(1) by simp
  obtain tail1 mc where one: "byte_step (Got w (length first)) s = Inr (s\<lparr>mach := (mach s)(w := mc),
      replies := (replies s)(w := [later]), printed := (printed s)(w := printed s w @ [ReadingPage (first @ tail1)])\<rparr>)"
    (is "_ = Inr ?s1") and mc: "menu_at mc = Prompt" "list_MSI mc = list_MSI (mach s w)"
    using answer_part [OF s assms(6), of "length first"] assms(7-10) by auto
  have s1: "byte_safe N ps ?s1" using got_step [OF s, where w = w and k = "length first"] one by simp
  have m1: "safe_machine N ps mc" using byte_safe_machine [OF s1, of w] by simp
  let ?mc = "mc\<lparr>temp_data := (temp_data mc)\<lparr>page_num := int j\<rparr>\<rparr>"
  have ok: "machine_ok N ?mc" using m1 machine_ok_numbered by (simp add: safe_machine_def)
  have "to_int32 (int j) = int j" using ok assms(11) to_int32_page by blast
  then have "menu_command (Read (int j)) mc = Inr ([], Some (read_request j ?mc),
      (clear_page j ?mc)\<lparr>temp_data := read_request j ?mc, list_MSI := (list_MSI mc)(j := flags Shd), menu_at := Await j Prompt\<rparr>)"
    (is "_ = Inr (_, Some ?td, ?mc2)")
    using menu_read_page_Inv [OF ok assms(11)] menu_read_number [of N mc j] m1 assms(11,12) mc
    by (simp add: menu_command_def safe_machine_def)
  then have two: "byte_step (Other (Key w (Read (int j)))) ?s1 = Inr (?s1\<lparr>mach := (mach ?s1)(w := ?mc2),
      printed := (printed ?s1)(w := printed ?s1 w), requests := (requests ?s1)(peer w := requests ?s1 (peer w) @ [?td])\<rparr>)"
    (is "_ = Inr ?s2") by (simp add: after_menu_def)
  have "event_ok N ps (Key w (Read (int j)))" using assms(11) by (simp add: event_ok_def cmd_ok_def)
  then have s2: "byte_safe N ps ?s2" using other_step [OF s1, of "Key w (Read (int j))"] two by simp
  have "answer_bytes ?s2 w = later" by (simp add: answer_bytes_def)
  then obtain tail2 mc3 where three: "byte_step (Got w ps) ?s2 = Inr (?s2\<lparr>mach := (mach ?s2)(w := mc3),
      replies := (replies ?s2)(w := [[]]), printed := (printed ?s2)(w := printed ?s2 w @ [ReadingPage (later @ tail2)])\<rparr>)"
    and mc3: "list_MSI mc3 = list_MSI (mach ?s2 w)"
    using answer_part [OF s2, of w j Prompt ps] ps assms(9,10) by auto
  have "run_events byte_step [Got w (length first), Other (Key w (Read (int j))), Got w ps] s = Inr (?s2\<lparr>mach := (mach ?s2)(w := mc3),
      replies := (replies ?s2)(w := [[]]), printed := (printed ?s2)(w := printed ?s2 w @ [ReadingPage (later @ tail2)])\<rparr>)"
    by (simp only: run_events.simps one two three bind_res_simps)
  then show ?thesis using mc3 by (auto simp: answer_bytes_def)
qed

text \<open>
  A page with five letters is read in two parts, and then one with seven: at the second \<open>read\<close> there are eleven bytes,
  of which it takes a page, without a terminator.
\<close>

definition two_pages :: "byte_event list" where
  "two_pages = [Other (Key Two (Write 1 ''hello'')), Other (Serve One), Other (Key Two (Write 2 ''worldly'')),
     Other (Serve One), Other (Key One (Read 1)), Other (Serve Two)]"

definition overrun :: "byte_event list" where
  "overrun = two_pages @ [Got One 1, Other (Key One (Read 2)), Other (Serve Two), Got One 8]"

lemma two_pages_ok: "list_all (byte_event_ok 3 8) two_pages" "list_all (byte_event_ok 3 8) overrun"
  by (simp_all add: two_pages_def overrun_def byte_event_ok_def event_ok_def cmd_ok_def line_ok_def)

lemma answers_overrun:
  "case bind_res (init_sys 8 (int 3) zero_info (blank_buffers 8) (\<lambda>_. [])) (run_events byte_step overrun) of
     Inl f \<Rightarrow> f = OutOfBounds | Inr _ \<Rightarrow> False"
  by code_simp

theorem msi_answers_in_parts_witness:
  "\<exists>s. init_sys 8 (int 3) zero_info (blank_buffers 8) (\<lambda>_. []) = Inr s \<and>
    (case run_events byte_step overrun s of
       Inl f \<Rightarrow> f = NotEnabled \<or> f = OutOfBounds \<and>
         (\<exists>us w k vs t. overrun = us @ Got w k # vs \<and> run_events byte_step us s = Inr t \<and>
            8 \<le> k \<and> 8 \<le> length (answer_bytes t w))
     | Inr t \<Rightarrow> \<forall>w k i nxt. menu_at (mach t w) = Await i nxt \<longrightarrow> 8 \<le> k \<longrightarrow> 8 \<le> length (answer_bytes t w) \<longrightarrow>
         byte_step (Got w k) t = Inl OutOfBounds)"
  by (rule msi_answers_in_parts [OF _ _ blank_buffers_ok two_pages_ok(2)]) simp_all

theorem msi_short_answer_shifts_witness:
  "\<exists>s t tail1 tail2 td.
    bind_res (init_sys 8 (int 3) zero_info (blank_buffers 8) (\<lambda>_. [])) (run_events byte_step two_pages) = Inr s \<and>
    run_events byte_step [Got One (length ''he''), Other (Key One (Read (int 2))), Got One 8] s = Inr t \<and>
    printed t One = printed s One @ [ReadingPage (''he'' @ tail1), ReadingPage (''llo'' @ tail2)] \<and>
    list_MSI (mach t One) 2 = flags Shd \<and> mach t (peer One) = mach s (peer One) \<and>
    requests t (peer One) = requests s (peer One) @ [td] \<and> page_num td = int 2 \<and> answer_bytes t One = []"
proof -
  have "case bind_res (init_sys 8 (int 3) zero_info (blank_buffers 8) (\<lambda>_. [])) (run_events byte_step two_pages) of
    Inl f \<Rightarrow> False
  | Inr s \<Rightarrow> menu_at (mach s One) = Await 1 Prompt \<and> answer_bytes s One = ''he'' @ ''llo'' \<and>
      list_MSI (mach s One) 2 = flags Inv"
    by code_simp
  then obtain s where s: "bind_res (init_sys 8 (int 3) zero_info (blank_buffers 8) (\<lambda>_. [])) (run_events byte_step two_pages) = Inr s"
    "menu_at (mach s One) = Await 1 Prompt" "answer_bytes s One = ''he'' @ ''llo''" "list_MSI (mach s One) 2 = flags Inv"
    by (auto split: sum.splits)
  have "(8 :: nat) \<in> {1<..2 ^ 18}" "(3 :: nat) \<in> {1..4096}" "(0 :: nat) < 8" "(2 :: nat) < 3" "length (''he'' @ ''llo'') < 8"
    "''he'' \<noteq> []" "''llo'' \<noteq> []"
    by simp_all
  from msi_short_answer_shifts [OF this(1,2) blank_buffers_ok [OF this(3)] two_pages_ok(1) s(1-3) this(6,7,5,4) s(4)] show ?thesis
    using s(1) by blast
qed

end
