(* ===== verification/S2fs.thy ===== *)
theory S2fs
  imports Prelude
begin

text \<open>
  The process tree and the file system over it: \<open>Project_4/part1/proj4.c\<close> prints the tree,
  \<open>part2/s2fs.c\<close> has a file that counts its readers, \<open>part3/s2fs.c\<close> a file with a fixed text in a
  directory, and \<open>part4/s2fs.c\<close> mirrors the process tree as directories and files, each file
  describing the process of its name.
\<close>

section \<open>Processes\<close>

datatype task = Task (comm: string) (pid: int) (children: "task list")

definition indent :: "nat \<Rightarrow> string" where
  "indent space = concat (replicate (space - 1) ''  '')"

text \<open>\<open>recursive_search\<close>: the lines printed for a process and, indented, its descendants.\<close>

fun recursive_search :: "task \<Rightarrow> nat \<Rightarrow> string list" where
  "recursive_search (Task c p cs) space =
     (indent space @ ''-'' @ c @ '' ['' @ dec p @ '']'' @ [newline]) #
     concat (map (\<lambda>t. recursive_search t (Suc space)) cs)"

definition proj4_proc_show :: "task \<Rightarrow> string list \<times> int" where
  "proj4_proc_show init_task =
     ((''Loading proctree Module...'' @ [newline]) # recursive_search init_task 0, 0)"

section \<open>Reading from a buffer\<close>

definition EFAULT :: int where "EFAULT = 14"
definition EINVAL :: int where "EINVAL = 22"
definition ENOMEM_fs :: int where "ENOMEM_fs = 12"

text \<open>
  \<open>snprintf(tmp, TMPSIZE, ...)\<close>: what fits is stored with a NUL, the rest of the buffer (its
  contents \<open>junk\<close>) stays; the value is the full length.
\<close>

definition snprintf_to :: "char list \<Rightarrow> string \<Rightarrow> char list" where
  "snprintf_to junk s = overlay junk 0 (take (length junk - 1) s @ [NUL])"

text \<open>
  The part of every \<open>s2fs_read_file\<close> after the formatting: value, bytes given to the user, new
  offset. A read past the end of \<open>tmp\<close> is a fault.
\<close>

definition copy_out :: "char list \<Rightarrow> int \<Rightarrow> bool \<Rightarrow> nat \<Rightarrow> nat \<Rightarrow> (int \<times> string \<times> nat) res" where
  "copy_out tmp len copy_fails count offset =
     (if len < int offset then Inr (0, [], offset)
      else
        let count = min count (nat len - offset)
        in if length tmp < offset + count then Inl OutOfBounds
           else if copy_fails then Inr (- EFAULT, [], offset)
           else Inr (int count, take count (drop offset tmp), offset + count))"

section \<open>Part 2: the counter file\<close>

text \<open>
  \<open>private_data\<close> of an open file: the counter it was created with, nothing, or a pointer to a
  variable of a function that has returned.
\<close>

datatype private_data = Counter | No_data | Dangling

definition TMPSIZE :: nat where
  "TMPSIZE = 17"

definition p2_read :: "char list \<Rightarrow> bool \<Rightarrow> nat \<Rightarrow> nat \<Rightarrow> int \<Rightarrow> (int \<times> string \<times> nat \<times> int) res" where
  "p2_read junk copy_fails count offset counter =
     (let v = (if 0 < offset then counter - 1 else counter);
          counter' = (if 0 < offset then counter else to_int32 (counter + 1));
          s = dec v @ [newline]
      in bind_res (copy_out (snprintf_to junk s) (int (length s)) copy_fails count offset)
           (\<lambda>(r, bytes, offset'). Inr (r, bytes, offset', counter')))"

text \<open>\<open>s2fs_write_file\<close>, the same in parts 2, 3 and 4 but for \<open>TMPSIZE\<close> and the private data.\<close>

definition fs_write ::
  "(string \<Rightarrow> int) \<Rightarrow> nat \<Rightarrow> private_data \<Rightarrow> bool \<Rightarrow> string \<Rightarrow> nat \<Rightarrow> int \<Rightarrow> (int \<times> int) res" where
  "fs_write simple_strtol tmpsize data copy_fails buf offset counter =
     (if offset \<noteq> 0 then Inr (- EINVAL, counter)
      else if tmpsize \<le> length buf then Inr (- EINVAL, counter)
      else if copy_fails then Inr (- EFAULT, counter)
      else case data of
        Counter \<Rightarrow> Inr (int (length buf), to_int32 (simple_strtol (takeWhile (\<lambda>c. c \<noteq> NUL) buf)))
      | No_data \<Rightarrow> Inl NullDeref
      | Dangling \<Rightarrow> Inl UseAfterFree)"

definition p2_write :: "(string \<Rightarrow> int) \<Rightarrow> bool \<Rightarrow> string \<Rightarrow> nat \<Rightarrow> int \<Rightarrow> (int \<times> int) res" where
  "p2_write simple_strtol copy_fails buf offset counter =
     fs_write simple_strtol TMPSIZE Counter copy_fails buf offset counter"

section \<open>Part 3: a fixed text\<close>

definition hello_world :: string where
  "hello_world = ''Hello World!'' @ [newline]"

definition p3_read :: "char list \<Rightarrow> bool \<Rightarrow> nat \<Rightarrow> nat \<Rightarrow> (int \<times> string \<times> nat) res" where
  "p3_read junk copy_fails count offset =
     copy_out (snprintf_to junk hello_world) (int (length hello_world)) copy_fails count offset"

text \<open>No file of part 3 is given private data.\<close>

definition p3_write :: "(string \<Rightarrow> int) \<Rightarrow> bool \<Rightarrow> string \<Rightarrow> nat \<Rightarrow> (int \<times> int) res" where
  "p3_write simple_strtol copy_fails buf offset =
     fs_write simple_strtol TMPSIZE No_data copy_fails buf offset 0"

section \<open>Creating files and directories\<close>

datatype fs_node = File string int | Dir string "fs_node list"

datatype klog = Tree_line string | Pid_line int

record fs =
  allocs :: nat
  alloc_ok :: "nat \<Rightarrow> bool"
  klogs :: "klog list"

definition alloc :: "fs \<Rightarrow> bool \<times> fs" where
  "alloc s = (alloc_ok s (allocs s), s\<lparr>allocs := Suc (allocs s)\<rparr>)"

definition printk :: "klog \<Rightarrow> fs \<Rightarrow> fs" where
  "printk l s = s\<lparr>klogs := klogs s @ [l]\<rparr>"

text \<open>\<open>new_inode\<close> and the log line of \<open>s2fs_make_inode\<close>.\<close>

definition s2fs_make_inode :: "int \<Rightarrow> fs \<Rightarrow> bool \<times> fs" where
  "s2fs_make_inode p s = (let (ok, s) = alloc s in if ok then (True, printk (Pid_line p) s) else (False, s))"

text \<open>Whether the new dentry was added: \<open>d_alloc\<close>, then the inode.\<close>

definition s2fs_create_dir :: "int \<Rightarrow> fs \<Rightarrow> bool \<times> fs" where
  "s2fs_create_dir p s = (let (ok, s) = alloc s in if ok then s2fs_make_inode p s else (False, s))"

definition s2fs_create_file :: "string \<Rightarrow> int \<Rightarrow> fs \<Rightarrow> fs_node list \<times> fs" where
  "s2fs_create_file name p s =
     (let (ok, s) = alloc s
      in if ok then (let (ok, s) = s2fs_make_inode p s in (if ok then [File name p] else [], s))
         else ([], s))"

text \<open>\<open>snprintf(file_name, 10, "%i", task->pid)\<close>.\<close>

definition file_name :: "int \<Rightarrow> string" where
  "file_name p = take 9 (dec p)"

text \<open>
  \<open>recursive_add\<close>: the entries it adds to the directory it is given. A process with children
  becomes a directory; if that cannot be created, the file is created in a NULL directory.
\<close>

fun recursive_add :: "task \<Rightarrow> nat \<Rightarrow> fs \<Rightarrow> (fs_node list \<times> fs) res"
  and recursive_add_list :: "task list \<Rightarrow> nat \<Rightarrow> fs \<Rightarrow> (fs_node list \<times> fs) res" where
  "recursive_add (Task c p cs) space s0 =
     (let s = printk (Tree_line (indent space @ ''-'' @ c @ '' ['' @ dec p @ '']'' @ [newline])) s0;
          name = file_name p
      in if cs = [] then Inr (s2fs_create_file name p s)
         else
           let (ok, s) = s2fs_create_dir p s
           in if \<not> ok then Inl NullDeref
              else
                let (file, s) = s2fs_create_file name p s
                in bind_res (recursive_add_list cs (Suc space) s) (\<lambda>(entries, s).
                     Inr ([Dir name (file @ entries)], s)))"
| "recursive_add_list [] space s = Inr ([], s)"
| "recursive_add_list (t # ts) space s =
     bind_res (recursive_add t space s) (\<lambda>(entries, s).
     bind_res (recursive_add_list ts space s) (\<lambda>(rest, s). Inr (entries @ rest, s)))"

text \<open>\<open>s2fs_fill_super\<close> of part 4: the value and the entries of the root directory.\<close>

definition s2fs_fill_super :: "task \<Rightarrow> fs \<Rightarrow> (int \<times> fs_node list \<times> fs) res" where
  "s2fs_fill_super init_task s =
     (let (ok, s) = s2fs_make_inode (pid init_task) s
      in if \<not> ok then Inr (- ENOMEM_fs, [], s)
         else
           let (ok, s) = alloc s
           in if \<not> ok then Inr (- ENOMEM_fs, [], s)
              else bind_res (recursive_add init_task 0 s) (\<lambda>(entries, s). Inr (0, entries, s)))"

text \<open>
  Parts 2 and 3, whose inodes have no pid and are not logged (nor is the message of part 3 that the
  directory was made). The value of a creation is whether the dentry was added.
\<close>

definition make_entry :: "fs \<Rightarrow> bool \<times> fs" where
  "make_entry s =
     (let (dentry, s) = alloc s
      in if \<not> dentry then (False, s) else let (inode, s) = alloc s in if inode then (True, s) else (False, s))"

definition p3_create_dir :: "fs \<Rightarrow> bool \<times> fs" where
  "p3_create_dir s = make_entry s"

definition p3_create_file :: "string \<Rightarrow> fs \<Rightarrow> fs_node list \<times> fs" where
  "p3_create_file name s = (let (ok, s) = make_entry s in (if ok then [File name 0] else [], s))"

definition p2_create_file :: "string \<Rightarrow> fs \<Rightarrow> (fs_node \<times> private_data) list \<times> fs" where
  "p2_create_file name s =
     (let (ok, s) = make_entry s in (if ok then [(File name 0, Counter)] else [], s))"

text \<open>The root inode and \<open>d_make_root\<close>; part 2 makes nothing else.\<close>

definition p2_fill_super :: "fs \<Rightarrow> int \<times> fs_node list \<times> fs" where
  "p2_fill_super s =
     (let (root, s) = alloc s
      in if \<not> root then (- ENOMEM_fs, [], s)
         else
           let (s_root, s) = alloc s
           in if \<not> s_root then (- ENOMEM_fs, [], s) else (0, [], s))"

definition p3_fill_super :: "fs \<Rightarrow> int \<times> fs_node list \<times> fs" where
  "p3_fill_super s =
     (let (root, s) = alloc s
      in if \<not> root then (- ENOMEM_fs, [], s)
         else
           let (s_root, s) = alloc s
           in if \<not> s_root then (- ENOMEM_fs, [], s)
              else
                let (sub_dentry, s) = p3_create_dir s
                in if sub_dentry
                   then let (file, s) = p3_create_file ''bar'' s in (0, [Dir ''foo'' file], s)
                   else (0, [], s))"

section \<open>Part 4: describing a process\<close>

record mm_info =
  mmap_base :: int
  task_size :: int
  mm_count :: int
  map_count :: int
  total_vm :: int

record task_info =
  ti_comm :: string
  ti_state :: int
  ti_pid :: int
  ti_tgid :: int
  ti_ppid :: int
  start_time :: int
  prio :: int
  static_prio :: int
  normal_prio :: int
  rt_priority :: int
  mm :: "mm_info option"

text \<open>
  What the kernel knows of a pid: no \<open>struct pid\<close>; a \<open>struct pid\<close> that is still referenced but has
  no task; a task.
\<close>

datatype pid_state = No_pid | Pid_without_task | Has_task task_info

definition field :: "string \<Rightarrow> string \<Rightarrow> string" where
  "field label v = label @ v @ [newline]"

definition task_text :: "task_info \<Rightarrow> mm_info \<Rightarrow> string" where
  "task_text t m =
     field ''Task Name: '' (ti_comm t) @
     field ''Task State: '' (dec (ti_state t)) @
     field ''PID: '' (dec (ti_pid t)) @
     field ''TGID: '' (dec (ti_tgid t)) @
     field ''PPID: '' (dec (ti_ppid t)) @
     field ''Start Time: '' (dec (start_time t)) @
     field ''Dynamic Priorty: '' (dec (prio t)) @
     field ''Static Priorty: '' (dec (static_prio t)) @
     field ''Normal Priorty: '' (dec (normal_prio t)) @
     field ''RTime Priorty: '' (dec (rt_priority t)) @
     field ''Mmap Base: '' (dec (mmap_base m)) @
     field ''VMemory Space: '' (dec (task_size m)) @
     field ''VMemory Usage: '' (dec (mm_count m)) @
     field ''No. of VMA: '' (dec (map_count m)) @
     field ''Total Pages Mapped: '' (dec (total_vm m))"

definition gone_text :: string where
  "gone_text = ''Task no longer exists'' @ [newline]"

text \<open>
  \<open>get_task_info\<close>: the value and the buffer. The test is \<open>task_pid != NULL || struct_pid != NULL\<close>,
  and a kernel thread has no \<open>mm\<close>.
\<close>

definition get_task_info :: "pid_state \<Rightarrow> char list \<Rightarrow> (int \<times> char list) res" where
  "get_task_info st data =
     (case st of
        No_pid \<Rightarrow> Inr (-1, snprintf_to data gone_text)
      | Pid_without_task \<Rightarrow> Inl NullDeref
      | Has_task t \<Rightarrow> (case mm t of
            None \<Rightarrow> Inl NullDeref
          | Some m \<Rightarrow> Inr (int (length (task_text t m)), snprintf_to data (task_text t m))))"

definition TMPSIZE4 :: nat where
  "TMPSIZE4 = 2000"

text \<open>
  \<open>s2fs_read_file\<close> of part 4: the pid is the name of the file (0 if it does not parse), its
  description is made anew at every read.
\<close>

definition p4_read ::
  "(string \<Rightarrow> int + int) \<Rightarrow> (int \<Rightarrow> pid_state) \<Rightarrow> char list \<Rightarrow> string \<Rightarrow> bool \<Rightarrow> nat \<Rightarrow> nat \<Rightarrow>
     (int \<times> string \<times> nat) res" where
  "p4_read kstrtoint pids junk d_iname copy_fails count offset =
     (let pid_input = (case kstrtoint d_iname of Inr v \<Rightarrow> v | Inl e \<Rightarrow> 0)
      in bind_res (get_task_info (pids pid_input) junk) (\<lambda>(len, tmp).
           copy_out tmp len copy_fails count offset))"

text \<open>\<open>i_private\<close> of part 4 is the address of a parameter of the function that made the file.\<close>

definition p4_write :: "(string \<Rightarrow> int) \<Rightarrow> bool \<Rightarrow> string \<Rightarrow> nat \<Rightarrow> (int \<times> int) res" where
  "p4_write simple_strtol copy_fails buf offset =
     fs_write simple_strtol TMPSIZE4 Dangling copy_fails buf offset 0"

end
