(* ===== verification/S2fs_Props.thy ===== *)
theory S2fs_Props
  imports S2fs
begin

text \<open>
  The interface between a file and the program that reads it in pieces (\<open>chunked_file\<close>), shown
  for the files of parts 2, 3 and 4; the bounds of the formatting; the mirroring of the process
  tree; and the defects of the descriptions and of the writes.
\<close>

section \<open>Reading a file in pieces\<close>

type_synonym 's reader = "nat \<Rightarrow> nat \<Rightarrow> 's \<Rightarrow> (int \<times> string \<times> nat \<times> 's) res"

text \<open>A program that reads with the given counts, one after the other, from an offset.\<close>

fun cat :: "'s reader \<Rightarrow> nat list \<Rightarrow> nat \<Rightarrow> 's \<Rightarrow> (string \<times> nat \<times> 's) res" where
  "cat read [] off s = Inr ([], off, s)"
| "cat read (c # cs) off s =
     bind_res (read c off s) (\<lambda>(r, bs, off, s).
     bind_res (cat read cs off s) (\<lambda>(rest, off, s). Inr (bs @ rest, off, s)))"

locale chunked_file =
  fixes read :: "'s reader"
    and content :: string
    and good :: "nat \<Rightarrow> 's \<Rightarrow> bool"
  assumes read_chunk: "good off s \<Longrightarrow> off \<le> length content \<Longrightarrow> 0 < c \<Longrightarrow>
    \<exists>t. read c off s = Inr (int (min c (length content - off)), take c (drop off content),
        off + min c (length content - off), t) \<and>
      good (off + min c (length content - off)) t"
begin

lemma cat_from:
  "good off s \<Longrightarrow> off \<le> length content \<Longrightarrow> list_all (\<lambda>c. 0 < c) cs \<Longrightarrow>
   \<exists>t. cat read cs off s = Inr (take (sum_list cs) (drop off content),
      off + min (sum_list cs) (length content - off), t) \<and>
    good (off + min (sum_list cs) (length content - off)) t"
proof (induction cs arbitrary: off s)
  case Nil
  then show ?case by simp
next
  case (Cons c cs)
  let ?n = "min c (length content - off)"
  obtain t where t: "read c off s = Inr (int ?n, take c (drop off content), off + ?n, t)"
    "good (off + ?n) t"
    using read_chunk [of off s c] Cons.prems by auto
  have le: "off + ?n \<le> length content" using Cons.prems(2) by linarith
  obtain u where u: "cat read cs (off + ?n) t = Inr (take (sum_list cs) (drop (off + ?n) content),
      off + ?n + min (sum_list cs) (length content - (off + ?n)), u)"
    "good (off + ?n + min (sum_list cs) (length content - (off + ?n))) u"
    using Cons.IH [OF t(2) le] Cons.prems by auto
  have o: "off + ?n + min (sum_list cs) (length content - (off + ?n)) =
      off + min (c + sum_list cs) (length content - off)" by auto
  have b: "take c (drop off content) @ take (sum_list cs) (drop (off + ?n) content) =
      take (c + sum_list cs) (drop off content)"
    by (cases "c \<le> length content - off") (auto simp: take_add add.commute min_def)
  show ?case using t u by (simp add: o b)
qed

lemma cat_all:
  assumes "good 0 s" and "list_all (\<lambda>c. 0 < c) cs" and "length content \<le> sum_list cs"
  shows "\<exists>t. cat read cs 0 s = Inr (content, length content, t) \<and> good (length content) t"
  using cat_from [OF assms(1) _ assms(2)] assms(3) by (simp add: min_absorb2)

end

text \<open>What all of them share: copying out of the formatted buffer.\<close>

lemma copy_out_ok:
  assumes "length s < length junk" and "off \<le> length s"
  shows "copy_out (snprintf_to junk s) (int (length s)) False c off =
    Inr (int (min c (length s - off)), take c (drop off s), off + min c (length s - off))"
proof -
  have tmp: "snprintf_to junk s = s @ NUL # drop (Suc (length s)) junk"
    using assms(1) by (simp add: snprintf_to_def overlay_def)
  have "take (min c (length s - off)) (drop off (snprintf_to junk s)) = take c (drop off s)"
    using assms(2) by (simp add: tmp min_def)
  moreover have "length (snprintf_to junk s) = length junk" using assms(1) by (simp add: tmp)
  ultimately show ?thesis
    using assms by (simp add: copy_out_def Let_def)
qed

lemma length_dec_nat: "n < 10 ^ Suc k \<Longrightarrow> length (dec_nat n) \<le> Suc k"
proof (induction k arbitrary: n)
  case 0
  then show ?case by (simp add: dec_nat.simps)
next
  case (Suc k)
  show ?case
  proof (cases "n < 10")
    case False
    have "n div 10 < 10 ^ Suc k" using Suc.prems by (simp add: div_less_iff_less_mult)
    then show ?thesis using Suc.IH False by (subst dec_nat.simps) simp
  qed (simp add: dec_nat.simps)
qed

lemma length_dec: "- (10 ^ Suc k) < n \<Longrightarrow> n < 10 ^ Suc k \<Longrightarrow> length (dec n) \<le> Suc (Suc k)"
proof -
  assume n: "- (10 ^ Suc k) < n" "n < 10 ^ Suc k"
  have "nat (- n) < 10 ^ Suc k" if "n < 0"
    using n that by (simp add: nat_less_iff)
  moreover have "nat n < 10 ^ Suc k" if "\<not> n < 0"
    using n that by (simp add: nat_less_iff)
  ultimately show ?thesis
    using length_dec_nat [of "nat (- n)" k] length_dec_nat [of "nat n" k] by (auto simp: dec_def)
qed

lemma NUL_not_digit: "k < 10 \<Longrightarrow> NUL \<noteq> char_of (48 + k :: nat)"
proof
  assume "k < 10" and c: "NUL = char_of (48 + k)"
  have "of_char (char_of (48 + k) :: char) = (48 + k) mod (256 :: nat)" by simp
  then show False using \<open>k < 10\<close> by (simp flip: c)
qed

lemma dec_nat_no_NUL: "NUL \<notin> set (dec_nat n)"
proof (induction n rule: dec_nat.induct)
  case (1 n)
  show ?case
    using 1 NUL_not_digit [of n] NUL_not_digit [of "n mod 10"] by (subst dec_nat.simps) auto
qed

lemma dec_no_NUL: "NUL \<notin> set (dec v)"
  by (simp add: dec_def dec_nat_no_NUL)

lemma takeWhile_no_NUL: "NUL \<notin> set s \<Longrightarrow> takeWhile (\<lambda>c. c \<noteq> NUL) s = s"
  by (induction s) auto

section \<open>The counter file\<close>

definition p2_good :: "int \<Rightarrow> nat \<Rightarrow> int \<Rightarrow> bool" where
  "p2_good v off counter \<longleftrightarrow> - (2 ^ 31) \<le> v \<and> v < 2 ^ 31 - 1 \<and>
     counter = (if off = 0 then v else v + 1)"

definition p2_content :: "int \<Rightarrow> string" where
  "p2_content v = dec v @ [newline]"

lemma length_dec_int: "- (2 ^ 31) \<le> v \<Longrightarrow> v < 2 ^ 31 \<Longrightarrow> length (dec v) \<le> 11"
  using length_dec [of 9 v] by simp

definition p2_reader :: "char list \<Rightarrow> int reader" where
  "p2_reader junk c off counter = p2_read junk False c off counter"

lemma p2_chunk:
  assumes "length junk = TMPSIZE" and "p2_good v off s" and "off \<le> length (p2_content v)" and "0 < c"
  shows "\<exists>t. p2_reader junk c off s =
      Inr (int (min c (length (p2_content v) - off)), take c (drop off (p2_content v)),
        off + min c (length (p2_content v) - off), t) \<and>
    p2_good v (off + min c (length (p2_content v) - off)) t"
proof -
  have v: "- (2 ^ 31) \<le> v" "v < 2 ^ 31 - 1" using assms(2) by (auto simp: p2_good_def)
  then have fits: "length (p2_content v) < length junk"
    using length_dec_int [of v] assms(1) by (simp add: p2_content_def TMPSIZE_def)
  have shown: "(if 0 < off then s - 1 else s) = v" using assms(2) by (auto simp: p2_good_def)
  have "to_int32 (v + 1) = v + 1" using v by (intro to_int32_id) simp_all
  moreover have "0 < off + min c (length (p2_content v) - off)"
    using assms(3,4) by (auto simp: p2_content_def min_def)
  ultimately show ?thesis
    using copy_out_ok [OF fits assms(3), of c] assms(2) v
    unfolding p2_reader_def p2_read_def shown
    by (auto simp: p2_content_def p2_good_def)
qed

interpretation p2: chunked_file "p2_reader junk" "p2_content v"
  "\<lambda>off s. p2_good v off s \<and> length junk = TMPSIZE" for junk v
proof unfold_locales
  fix off :: nat and s :: int and c :: nat
  assume a: "p2_good v off s \<and> length junk = TMPSIZE" "off \<le> length (p2_content v)" "0 < c"
  then show "\<exists>t. p2_reader junk c off s =
      Inr (int (min c (length (p2_content v) - off)), take c (drop off (p2_content v)),
        off + min c (length (p2_content v) - off), t) \<and>
    p2_good v (off + min c (length (p2_content v) - off)) t \<and> length junk = TMPSIZE"
    using p2_chunk [of junk v off s c] by auto
qed

text \<open>
  C35. Reading the counter file of part 2 from the start, in pieces of any positive sizes, gives
  the counter's value and a newline, and counts as one reader however many reads it took.
\<close>

theorem p2_counter_read:
  assumes "- (2 ^ 31) \<le> v" and "v < 2 ^ 31 - 1" and "length junk = TMPSIZE"
    and "list_all (\<lambda>c. 0 < c) cs" and "length (dec v) < sum_list cs"
  shows "cat (\<lambda>c off counter. p2_read junk False c off counter) cs 0 v =
    Inr (dec v @ [newline], length (dec v) + 1, v + 1)"
proof -
  have "\<exists>t. cat (p2_reader junk) cs 0 v = Inr (p2_content v, length (p2_content v), t) \<and>
      p2_good v (length (p2_content v)) t \<and> length junk = TMPSIZE"
    using assms by (intro p2.cat_all) (auto simp: p2_good_def p2_content_def)
  moreover have "p2_reader junk = (\<lambda>c off counter. p2_read junk False c off counter)"
    by (simp add: p2_reader_def fun_eq_iff)
  ultimately show ?thesis by (auto simp: p2_content_def p2_good_def)
qed

theorem p2_counter_read_witness:
  "cat (\<lambda>c off counter. p2_read (replicate 17 NUL) False c off counter) [2, 1, 9] 0 128 =
    Inr (dec 128 @ [newline], length (dec 128) + 1, 128 + 1)"
  by (rule p2_counter_read) (simp_all add: TMPSIZE_def dec_def dec_nat.simps)

text \<open>
  A number written to the counter file is the number then read from it, when
  \<open>simple_strtol\<close> reads back what \<open>%d\<close> writes; a write at another offset or of TMPSIZE bytes or more is
  refused and changes nothing.
\<close>

theorem p2_counter_write:
  assumes "strtol (dec v) = v" and "- (2 ^ 31) \<le> v" and "v < 2 ^ 31 - 1"
    and "length junk = TMPSIZE"
  shows "p2_write strtol False (dec v) 0 counter = Inr (int (length (dec v)), v) \<and>
    p2_read junk False 100 0 v = Inr (int (length (dec v)) + 1, dec v @ [newline], length (dec v) + 1, v + 1) \<and>
    (\<forall>buf off. p2_write strtol False buf off counter =
       (if 0 < off \<or> TMPSIZE \<le> length buf then Inr (- EINVAL, counter)
        else p2_write strtol False buf 0 0))"
proof -
  have len: "length (dec v) \<le> 11" using assms(2,3) by (intro length_dec_int) simp_all
  have tw: "takeWhile (\<lambda>c. c \<noteq> NUL) (dec v) = dec v"
    using dec_no_NUL by (rule takeWhile_no_NUL)
  have "to_int32 v = v" using assms(2,3) by (intro to_int32_id) simp_all
  then have "p2_write strtol False (dec v) 0 counter = Inr (int (length (dec v)), v)"
    using len assms(1) unfolding p2_write_def fs_write_def tw by (simp add: TMPSIZE_def)
  moreover have "p2_read junk False 100 0 v =
      Inr (int (length (dec v)) + 1, dec v @ [newline], length (dec v) + 1, v + 1)"
    using p2_chunk [of junk v 0 v 100] assms(2,3,4) len
    by (simp add: p2_good_def p2_reader_def p2_content_def)
  ultimately show ?thesis by (simp add: p2_write_def fs_write_def)
qed

theorem p2_counter_write_witness:
  "p2_write (\<lambda>s. 128) False (dec 128) 0 5 = Inr (int (length (dec 128)), 128) \<and>
    p2_read (replicate 17 NUL) False 100 0 128 =
      Inr (int (length (dec 128)) + 1, dec 128 @ [newline], length (dec 128) + 1, 128 + 1) \<and>
    (\<forall>buf off. p2_write (\<lambda>s. 128) False buf off 5 =
       (if 0 < off \<or> TMPSIZE \<le> length buf then Inr (- EINVAL, 5)
        else p2_write (\<lambda>s. 128) False buf 0 0))"
  by (rule p2_counter_write) (simp_all add: TMPSIZE_def dec_def dec_nat.simps)

end
