(* ===== verification/S2fs_Tasks.thy ===== *)
theory S2fs_Tasks
  imports S2fs_Props
begin

text \<open>
  Parts 3 and 4 of \<open>Project_4\<close>: the fixed text and the descriptions of processes read in pieces
  (two more interpretations of \<open>chunked_file\<close>), what a file of a process that cannot be described
  does, the writes, and the mount that mirrors the process tree.
\<close>

section \<open>Files without a state\<close>

definition stateless :: "(nat \<Rightarrow> nat \<Rightarrow> (int \<times> string \<times> nat) res) \<Rightarrow> unit reader" where
  "stateless read c off u = bind_res (read c off) (\<lambda>(r, bs, off'). Inr (r, bs, off', u))"

text \<open>A file each of whose reads formats the same text into a buffer that is large enough.\<close>

lemma formatted_chunk:
  assumes "read = (\<lambda>c off. copy_out (snprintf_to junk s) (int (length s)) False c off)"
    and "length s < length junk" and "off \<le> length s"
  shows "\<exists>t. stateless read c off u = Inr (int (min c (length s - off)), take c (drop off s),
      off + min c (length s - off), t)"
  using copy_out_ok [OF assms(2,3), of c] by (simp add: stateless_def assms(1))

lemma length_hello_world: "length hello_world < TMPSIZE"
  by (simp add: hello_world_def TMPSIZE_def)

interpretation p3: chunked_file "stateless (p3_read junk False)" hello_world
  "\<lambda>off u. length junk = TMPSIZE" for junk
proof unfold_locales
  fix off :: nat and s :: unit and c :: nat
  assume a: "length junk = TMPSIZE" "off \<le> length hello_world" "0 < c"
  show "\<exists>t. stateless (p3_read junk False) c off s =
      Inr (int (min c (length hello_world - off)), take c (drop off hello_world),
        off + min c (length hello_world - off), t) \<and> length junk = TMPSIZE"
    using formatted_chunk [of "p3_read junk False" junk hello_world off c s] a length_hello_world
    by (auto simp: p3_read_def fun_eq_iff)
qed

text \<open>
  A file of part 3 read from the start in pieces of any positive sizes gives the greeting and
  a newline.
\<close>

theorem p3_greeting:
  assumes "length junk = TMPSIZE" and "list_all (\<lambda>c. 0 < c) cs" and "13 \<le> sum_list cs"
  shows "cat (stateless (p3_read junk False)) cs 0 () = Inr (''Hello World!'' @ [newline], 13, ())"
proof -
  have "\<exists>t. cat (stateless (p3_read junk False)) cs 0 () =
      Inr (hello_world, length hello_world, t) \<and> length junk = TMPSIZE"
    using assms by (intro p3.cat_all) (auto simp: hello_world_def)
  then show ?thesis by (simp add: hello_world_def)
qed

theorem p3_greeting_witness:
  "cat (stateless (p3_read (replicate 17 NUL) False)) [5, 4, 3, 2] 0 () =
    Inr (''Hello World!'' @ [newline], 13, ())"
  by (rule p3_greeting) (simp_all add: TMPSIZE_def)

section \<open>Descriptions of processes\<close>

text \<open>The ranges of the C types: 64 bits, and a \<open>comm\<close> of at most 15 characters.\<close>

abbreviation fits64 :: "int \<Rightarrow> bool" where
  "fits64 n \<equiv> - (2 ^ 63) \<le> n \<and> n < 2 ^ 64"

definition task_fits :: "task_info \<Rightarrow> mm_info \<Rightarrow> bool" where
  "task_fits t m \<longleftrightarrow> length (ti_comm t) \<le> 15 \<and>
     list_all fits64 [ti_state t, ti_pid t, ti_tgid t, ti_ppid t, start_time t, prio t, static_prio t,
       normal_prio t, rt_priority t, mmap_base m, task_size m, mm_count m, map_count m, total_vm m]"

lemma length_dec64: "fits64 n \<Longrightarrow> length (dec n) \<le> 21"
  using length_dec [of 19 n] by simp

lemma length_task_text:
  assumes "task_fits t m"
  shows "length (task_text t m) < TMPSIZE4"
proof -
  have d: "length (dec n) \<le> 21" if "n \<in> {ti_state t, ti_pid t, ti_tgid t, ti_ppid t, start_time t,
      prio t, static_prio t, normal_prio t, rt_priority t, mmap_base m, task_size m, mm_count m,
      map_count m, total_vm m}" for n
    using assms that by (auto simp: task_fits_def intro: length_dec64)
  have "length (ti_comm t) \<le> 15" using assms by (simp add: task_fits_def)
  then show ?thesis
    using d [of "ti_state t"] d [of "ti_pid t"] d [of "ti_tgid t"] d [of "ti_ppid t"]
      d [of "start_time t"] d [of "prio t"] d [of "static_prio t"] d [of "normal_prio t"]
      d [of "rt_priority t"] d [of "mmap_base m"] d [of "task_size m"] d [of "mm_count m"]
      d [of "map_count m"] d [of "total_vm m"]
    by (simp add: task_text_def field_def TMPSIZE4_def)
qed

lemma file_name_dec: "0 \<le> p \<Longrightarrow> p < 10 ^ 9 \<Longrightarrow> file_name p = dec p"
  using length_dec_nat [of "nat p" 8] by (simp add: file_name_def dec_def nat_less_iff)

definition describes ::
  "(string \<Rightarrow> int + int) \<Rightarrow> (int \<Rightarrow> pid_state) \<Rightarrow> int \<Rightarrow> task_info \<Rightarrow> mm_info \<Rightarrow> bool" where
  "describes kstrtoint pids p t m \<longleftrightarrow> 0 \<le> p \<and> p < 10 ^ 9 \<and> kstrtoint (dec p) = Inr p \<and>
     pids p = Has_task t \<and> mm t = Some m \<and> task_fits t m"

interpretation p4: chunked_file "stateless (p4_read kstrtoint pids junk (file_name p) False)"
  "task_text t m" "\<lambda>off u. length junk = TMPSIZE4 \<and> describes kstrtoint pids p t m"
  for kstrtoint pids junk p t m
proof unfold_locales
  fix off :: nat and s :: unit and c :: nat
  assume a: "length junk = TMPSIZE4 \<and> describes kstrtoint pids p t m" "off \<le> length (task_text t m)"
    "0 < c"
  then have d: "describes kstrtoint pids p t m" by simp
  then have "p4_read kstrtoint pids junk (file_name p) False =
      (\<lambda>c off. copy_out (snprintf_to junk (task_text t m)) (int (length (task_text t m))) False c off)"
    by (simp add: p4_read_def get_task_info_def file_name_dec describes_def fun_eq_iff)
  then show "\<exists>u. stateless (p4_read kstrtoint pids junk (file_name p) False) c off s =
      Inr (int (min c (length (task_text t m) - off)), take c (drop off (task_text t m)),
        off + min c (length (task_text t m) - off), u) \<and>
      length junk = TMPSIZE4 \<and> describes kstrtoint pids p t m"
    using formatted_chunk [of _ junk "task_text t m" off c s] a length_task_text [of t m] d
    by (simp add: describes_def)
qed

lemma description_read:
  assumes "describes kstrtoint pids p t m" and "length junk = TMPSIZE4"
    and "list_all (\<lambda>c. 0 < c) cs" and "length (task_text t m) \<le> sum_list cs"
  shows "cat (stateless (p4_read kstrtoint pids junk (file_name p) False)) cs 0 () =
      Inr (task_text t m, length (task_text t m), ())"
proof -
  have "\<exists>u. cat (stateless (p4_read kstrtoint pids junk (file_name p) False)) cs 0 () =
      Inr (task_text t m, length (task_text t m), u) \<and>
      length junk = TMPSIZE4 \<and> describes kstrtoint pids p t m"
    using assms by (intro p4.cat_all) simp_all
  then show ?thesis by simp
qed

text \<open>
  The file of part 4 that is named by a pid, read from the start in pieces of any positive
  sizes, gives the fifteen lines that describe the process of that pid; they always fit the buffer.
\<close>

theorem p4_description:
  assumes "describes kstrtoint pids p t m" and "length junk = TMPSIZE4"
    and "list_all (\<lambda>c. 0 < c) cs" and "length (task_text t m) \<le> sum_list cs"
  shows "cat (stateless (p4_read kstrtoint pids junk (file_name p) False)) cs 0 () =
      Inr (task_text t m, length (task_text t m), ()) \<and>
    length (task_text t m) < TMPSIZE4"
  using description_read [OF assms] length_task_text assms(1) by (simp add: describes_def)

definition bash_task :: task_info where
  "bash_task = \<lparr>ti_comm = ''bash'', ti_state = 1, ti_pid = 42, ti_tgid = 42, ti_ppid = 1,
     start_time = 9000, prio = 120, static_prio = 120, normal_prio = 120, rt_priority = 0,
     mm = Some \<lparr>mmap_base = 4096, task_size = 8192, mm_count = 1, map_count = 7, total_vm = 99\<rparr>\<rparr>"

theorem p4_description_witness:
  "cat (stateless (p4_read sample_kstrtoint (\<lambda>p. Has_task bash_task) (replicate 2000 NUL)
       (file_name 42) False)) [2000] 0 () =
      Inr (task_text bash_task (the (mm bash_task)),
        length (task_text bash_task (the (mm bash_task))), ()) \<and>
    length (task_text bash_task (the (mm bash_task))) < TMPSIZE4"
proof -
  have f: "task_fits bash_task (the (mm bash_task))"
    by (simp add: task_fits_def bash_task_def)
  have "sample_kstrtoint (dec 42) = Inr 42"
    by code_simp
  then have d: "describes sample_kstrtoint (\<lambda>p. Has_task bash_task) 42 bash_task (the (mm bash_task))"
    using f by (simp add: describes_def bash_task_def)
  have l: "length (task_text bash_task (the (mm bash_task))) \<le> sum_list [2000]"
    using length_task_text [OF f] by (simp add: TMPSIZE4_def)
  have j: "length (replicate 2000 NUL) = TMPSIZE4" by (simp add: TMPSIZE4_def)
  show ?thesis using d j _ l by (rule p4_description) simp
qed

text \<open>
  What a read of the file named by a pid does for every state of that pid: a process that has
  ended reads as empty, although \<open>Task no longer exists\<close> is formatted for it; a \<open>struct pid\<close> that
  outlives its task, and a kernel thread (which has no \<open>mm\<close>), dereference NULL whatever the count and
  offset; any other process is described.
\<close>

lemma p4_read_by_pid_state:
  assumes "kstrtoint (file_name p) = Inr p"
  shows "p4_read kstrtoint pids junk (file_name p) copy_fails count offset =
      (case pids p of
         No_pid \<Rightarrow> Inr (0, [], offset)
       | Pid_without_task \<Rightarrow> Inl NullDeref
       | Has_task t \<Rightarrow> (case mm t of
             None \<Rightarrow> Inl NullDeref
           | Some m \<Rightarrow> copy_out (snprintf_to junk (task_text t m)) (int (length (task_text t m)))
               copy_fails count offset)) \<and>
    get_task_info No_pid junk = Inr (-1, snprintf_to junk gone_text)"
  using assms by (simp add: p4_read_def get_task_info_def copy_out_def split: pid_state.split option.split)

lemma p4_read_by_pid_examples:
  "p4_read sample_kstrtoint (\<lambda>p. if p = 2 then Has_task (bash_task\<lparr>mm := None\<rparr>) else No_pid) []
      (file_name 2) False 100 0 = Inl NullDeref \<and>
    p4_read sample_kstrtoint (\<lambda>p. if p = 2 then Has_task (bash_task\<lparr>mm := None\<rparr>) else No_pid) []
      (file_name 7) False 100 0 = Inr (0, [], 0)"
proof -
  have "sample_kstrtoint (file_name 2) = Inr 2" "sample_kstrtoint (file_name 7) = Inr 7" by code_simp+
  then show ?thesis
    using p4_read_by_pid_state [of sample_kstrtoint 2] p4_read_by_pid_state [of sample_kstrtoint 7] by simp
qed

text \<open>
  Every write of a part 3 or part 4 file at offset 0 that passes the length test and is copied
  stores through a pointer that is NULL (part 3) or to a finished call's variable (part 4); every
  other write is refused with an error.
\<close>

theorem s2fs_writes_fault:
  "p3_write strtol copy_fails buf offset =
     (if 0 < offset \<or> TMPSIZE \<le> length buf then Inr (- 22, 0)
      else if copy_fails then Inr (- 14, 0) else Inl NullDeref) \<and>
   p4_write strtol copy_fails buf offset =
     (if 0 < offset \<or> TMPSIZE4 \<le> length buf then Inr (- 22, 0)
      else if copy_fails then Inr (- 14, 0) else Inl UseAfterFree)"
  by (simp add: p3_write_def p4_write_def fs_write_def EINVAL_def EFAULT_def)

end
