(* ===== verification/S2fs_Mount.thy ===== *)
theory S2fs_Mount
  imports S2fs_Tasks
begin

text \<open>
  Mounting part 4: the directories and files made for the process tree, against the paths a reader
  of the tree would expect (\<open>task_paths\<close>), and what a failed allocation does.
\<close>

section \<open>Paths\<close>

text \<open>The files below an entry, each with its path and the pid it was made for.\<close>

fun node_paths :: "fs_node \<Rightarrow> (string list \<times> int) list" where
  "node_paths (File n p) = [([n], p)]"
| "node_paths (Dir n es) = map (\<lambda>(ns, p). (n # ns, p)) (concat (map node_paths es))"

text \<open>
  The path of every process of a tree: the pids from the root to it, a process with children in
  the directory of its own pid.
\<close>

fun task_paths :: "task \<Rightarrow> (string list \<times> int) list" where
  "task_paths (Task c p []) = [([dec p], p)]"
| "task_paths (Task c p (t # ts)) =
     map (\<lambda>(ns, q). (dec p # ns, q)) (([dec p], p) # concat (map task_paths (t # ts)))"

fun all_pids :: "task \<Rightarrow> int list" where
  "all_pids (Task c p cs) = p # concat (map all_pids cs)"

definition pids_fit :: "task \<Rightarrow> bool" where
  "pids_fit t \<longleftrightarrow> (\<forall>p\<in>set (all_pids t). 0 \<le> p \<and> p < 10 ^ 9)"

definition tree_lines :: "klog list \<Rightarrow> string list" where
  "tree_lines ls = concat (map (\<lambda>l. case l of Tree_line s \<Rightarrow> [s] | Pid_line p \<Rightarrow> []) ls)"

lemma tree_lines_simps [simp]:
  "tree_lines [] = []"
  "tree_lines (Tree_line s # ls) = s # tree_lines ls"
  "tree_lines (Pid_line p # ls) = tree_lines ls"
  "tree_lines (ls @ ls') = tree_lines ls @ tree_lines ls'"
  by (simp_all add: tree_lines_def)

section \<open>With memory\<close>

definition plenty :: "fs \<Rightarrow> bool" where
  "plenty s \<longleftrightarrow> (\<forall>n. alloc_ok s n)"

lemmas fs_defs = alloc_def printk_def s2fs_make_inode_def s2fs_create_dir_def s2fs_create_file_def

lemma create_file_plenty:
  "plenty s \<Longrightarrow> \<exists>s'. s2fs_create_file n p s = ([File n p], s') \<and> plenty s' \<and>
     tree_lines (klogs s') = tree_lines (klogs s)"
  by (simp add: fs_defs plenty_def)

lemma create_dir_plenty:
  "plenty s \<Longrightarrow> \<exists>s'. s2fs_create_dir p s = (True, s') \<and> plenty s' \<and>
     tree_lines (klogs s') = tree_lines (klogs s)"
  by (simp add: fs_defs plenty_def)

lemma printk_plenty:
  "plenty s \<Longrightarrow> plenty (printk l s) \<and> klogs (printk l s) = klogs s @ [l]"
  by (simp add: printk_def plenty_def)

text \<open>The entry a process gets.\<close>

fun task_node :: "task \<Rightarrow> fs_node" where
  "task_node (Task c p []) = File (dec p) p"
| "task_node (Task c p (t # ts)) = Dir (dec p) (File (dec p) p # map task_node (t # ts))"

lemma node_paths_task_node: "node_paths (task_node t) = task_paths t"
  by (induction t rule: task_paths.induct) (auto simp: comp_def cong: map_cong)

lemma recursive_add_plenty:
  "plenty s \<Longrightarrow> pids_fit t \<Longrightarrow> \<exists>s'. recursive_add t space s = Inr ([task_node t], s') \<and> plenty s' \<and>
     tree_lines (klogs s') = tree_lines (klogs s) @ recursive_search t space"
  "plenty s \<Longrightarrow> list_all pids_fit ts \<Longrightarrow> \<exists>s'. recursive_add_list ts space s = Inr (map task_node ts, s') \<and> plenty s' \<and>
     tree_lines (klogs s') = tree_lines (klogs s) @ concat (map (\<lambda>t. recursive_search t space) ts)"
proof (induction t space s and ts space s rule: recursive_add_recursive_add_list.induct)
  case (1 c p cs space s)
  let ?s = "printk (Tree_line (indent space @ ''-'' @ c @ '' ['' @ dec p @ '']'' @ [newline])) s"
  have fit: "file_name p = dec p" "list_all pids_fit cs"
    using "1.prems" by (auto simp: pids_fit_def list_all_iff intro: file_name_dec)
  have s: "plenty ?s" and l: "tree_lines (klogs ?s) = tree_lines (klogs s) @
      [indent space @ ''-'' @ c @ '' ['' @ dec p @ '']'' @ [newline]]"
    using printk_plenty "1.prems" by auto
  show ?case
  proof (cases "cs = []")
    case True
    then show ?thesis using create_file_plenty [OF s, of "dec p" p] l fit by auto
  next
    case False
    obtain s1 where s1: "s2fs_create_dir p ?s = (True, s1)" "plenty s1"
      "tree_lines (klogs s1) = tree_lines (klogs ?s)"
      using create_dir_plenty [OF s] by blast
    obtain s2 where s2: "s2fs_create_file (dec p) p s1 = ([File (dec p) p], s2)" "plenty s2"
      "tree_lines (klogs s2) = tree_lines (klogs s1)"
      using create_file_plenty [OF s1(2)] by blast
    obtain s3 where s3: "recursive_add_list cs (Suc space) s2 = Inr (map task_node cs, s3)" "plenty s3"
      "tree_lines (klogs s3) = tree_lines (klogs s2) @
        concat (map (\<lambda>t. recursive_search t (Suc space)) cs)"
      using "1.IH" [OF refl refl False s1(1) [symmetric] refl _ _ _ s2(2)]
        False s1 s2 fit by fastforce
    obtain t ts where cs: "cs = t # ts" using False by (cases cs) auto
    show ?thesis using s1 s2 s3 l fit by (simp add: cs Let_def)
  qed
next
  case (2 space s)
  then show ?case by simp
next
  case (3 t ts space s)
  then show ?case by fastforce
qed

lemma fill_super_plenty:
  assumes "plenty s" and "pids_fit t"
  shows "\<exists>s'. s2fs_fill_super t s = Inr (0, [task_node t], s') \<and>
    tree_lines (klogs s') = tree_lines (klogs s) @ recursive_search t 0"
proof -
  let ?s = "s\<lparr>klogs := klogs s @ [Pid_line (pid t)], allocs := Suc (Suc (allocs s))\<rparr>"
  have "plenty ?s" using assms(1) by (simp add: plenty_def)
  then obtain s' where e: "recursive_add t 0 ?s = Inr ([task_node t], s')"
    "tree_lines (klogs s') = tree_lines (klogs ?s) @ recursive_search t 0"
    using recursive_add_plenty(1) [of ?s t 0] assms(2) by auto
  have "s2fs_fill_super t s = Inr (0, [task_node t], s')"
    using assms(1) e(1) by (simp add: s2fs_fill_super_def fs_defs plenty_def)
  then show ?thesis using e by simp
qed

lemma task_paths_last:
  "(path, p) \<in> set (task_paths t) \<Longrightarrow> path \<noteq> [] \<and> last path = dec p \<and> p \<in> set (all_pids t)"
  by (induction t arbitrary: path rule: task_paths.induct) fastforce+

lemma task_paths_pids: "map snd (task_paths t) = all_pids t"
  by (induction t rule: task_paths.induct) (auto simp: map_concat comp_def case_prod_beta cong: map_cong)

text \<open>
  C36. When no allocation fails, mounting part 4 makes exactly one file for every process of the
  tree, on the path of its ancestors' pids, and logs the lines that part 1 prints for the tree.
\<close>

theorem mount_mirrors_processes:
  assumes "plenty s" and "pids_fit init_task"
  shows "\<exists>e s'. s2fs_fill_super init_task s = Inr (0, [e], s') \<and>
    node_paths e = task_paths init_task \<and> map snd (node_paths e) = all_pids init_task \<and>
    tree_lines (klogs s') = tree_lines (klogs s) @ tl (fst (proj4_proc_show init_task))"
  using fill_super_plenty [OF assms] by (auto simp: task_paths_pids proj4_proc_show_def node_paths_task_node)

definition small_tree :: task where
  "small_tree = Task ''swapper'' 0 [Task ''init'' 1 [Task ''sh'' 42 []], Task ''kthreadd'' 2 []]"

definition empty_fs :: fs where
  "empty_fs = \<lparr>allocs = 0, alloc_ok = \<lambda>n. True, klogs = []\<rparr>"

theorem mount_mirrors_processes_witness:
  "\<exists>e s'. s2fs_fill_super small_tree empty_fs = Inr (0, [e], s') \<and>
    node_paths e = task_paths small_tree \<and> map snd (node_paths e) = all_pids small_tree \<and>
    tree_lines (klogs s') = tree_lines (klogs empty_fs) @ tl (fst (proj4_proc_show small_tree))"
  by (rule mount_mirrors_processes) (simp_all add: plenty_def pids_fit_def small_tree_def empty_fs_def)

lemma cat_empty: "(\<And>c. read c 0 () = Inr (0, [], 0, ())) \<Longrightarrow> cat read cs 0 () = Inr ([], 0, ())"
  by (induction cs) simp_all

lemma cat_faults: "(\<And>c. read c 0 () = Inl f) \<Longrightarrow> cs \<noteq> [] \<Longrightarrow> cat read cs 0 () = Inl f"
  by (cases cs) simp_all

text \<open>
  C37. When no allocation fails, the mount makes one file for every process of the tree, and what a
  user gets who reads it from the start, in pieces of any positive sizes that add up to 2000 bytes
  or more, is decided by what the kernel finds for the pid in its name: the fifteen lines that
  describe the process when it has a task with an \<open>mm\<close> (a user process), nothing when there is no
  \<open>struct pid\<close> (the swapper, pid 0, or a process that has ended since), and a NULL dereference when
  the task has no \<open>mm\<close> (a kernel thread) or is gone before its \<open>struct pid\<close>. The values described are
  taken to lie in their C types, pids to have at most nine digits, and \<open>kstrtoint\<close> to read them.
\<close>

theorem mounted_files_describe:
  assumes "plenty s" and "pids_fit init_task" and "length junk = TMPSIZE4"
    and names: "\<And>p. p \<in> set (all_pids init_task) \<Longrightarrow> kstrtoint (dec p) = Inr p"
    and fits: "\<And>p t m. p \<in> set (all_pids init_task) \<Longrightarrow> pids p = Has_task t \<Longrightarrow> mm t = Some m \<Longrightarrow> task_fits t m"
    and "list_all (\<lambda>c. 0 < c) cs" and "TMPSIZE4 \<le> sum_list cs"
  shows "\<exists>e s'. s2fs_fill_super init_task s = Inr (0, [e], s') \<and> map snd (node_paths e) = all_pids init_task \<and>
    list_all (\<lambda>(path, p).
      cat (stateless (p4_read kstrtoint pids junk (last path) False)) cs 0 () =
        (case pids p of
           No_pid \<Rightarrow> Inr ([], 0, ())
         | Pid_without_task \<Rightarrow> Inl NullDeref
         | Has_task t \<Rightarrow> (case mm t of
               None \<Rightarrow> Inl NullDeref
             | Some m \<Rightarrow> Inr (task_text t m, length (task_text t m), ())))) (node_paths e)"
proof -
  obtain e s' where e: "s2fs_fill_super init_task s = Inr (0, [e], s')"
    "node_paths e = task_paths init_task"
    using fill_super_plenty [OF assms(1,2)] node_paths_task_node by blast
  have cs: "cs \<noteq> []" using assms(7) by (auto simp: TMPSIZE4_def)
  have "cat (stateless (p4_read kstrtoint pids junk (last path) False)) cs 0 () =
      (case pids p of
         No_pid \<Rightarrow> Inr ([], 0, ())
       | Pid_without_task \<Rightarrow> Inl NullDeref
       | Has_task t \<Rightarrow> (case mm t of
             None \<Rightarrow> Inl NullDeref
           | Some m \<Rightarrow> Inr (task_text t m, length (task_text t m), ())))"
    if "(path, p) \<in> set (task_paths init_task)" for path p
  proof -
    have p: "last path = dec p" "p \<in> set (all_pids init_task)"
      using task_paths_last [OF that] by simp_all
    then have r: "0 \<le> p" "p < 10 ^ 9" "kstrtoint (dec p) = Inr p"
      using assms(2) names by (auto simp: pids_fit_def)
    then have name: "last path = file_name p" "kstrtoint (file_name p) = Inr p"
      using p(1) by (simp_all add: file_name_dec)
    note read = p4_read_by_pid_state [of kstrtoint p, OF name(2), THEN conjunct1]
    show ?thesis
    proof (cases "pids p")
      case No_pid
      then show ?thesis by (simp add: name(1) cat_empty stateless_def read)
    next
      case Pid_without_task
      then show ?thesis using cs by (simp add: name(1) cat_faults stateless_def read)
    next
      case (Has_task t)
      show ?thesis
      proof (cases "mm t")
        case None
        then show ?thesis using Has_task cs by (simp add: name(1) cat_faults stateless_def read)
      next
        case (Some m)
        have f: "task_fits t m" using fits p(2) Has_task Some by blast
        have d: "describes kstrtoint pids p t m" using r Has_task Some f by (simp add: describes_def)
        have "length (task_text t m) \<le> sum_list cs" using length_task_text [OF f] assms(7) by simp
        then show ?thesis
          using description_read [OF d assms(3,6)] Has_task Some by (simp add: name(1))
      qed
    qed
  qed
  moreover have "map snd (node_paths e) = all_pids init_task"
    using task_paths_pids by (simp add: e(2))
  ultimately show ?thesis using e by (auto simp: list_all_iff)
qed

text \<open>The swapper has no \<open>struct pid\<close>, \<open>kthreadd\<close> no \<open>mm\<close>; \<open>init\<close> and the shell are user processes.\<close>

definition small_pids :: "int \<Rightarrow> pid_state" where
  "small_pids p =
     (if p = 0 then No_pid else if p = 2 then Has_task (bash_task\<lparr>ti_pid := 2, mm := None\<rparr>)
      else Has_task (bash_task\<lparr>ti_pid := p\<rparr>))"

theorem mounted_files_describe_witness:
  "\<exists>e s'. s2fs_fill_super small_tree empty_fs = Inr (0, [e], s') \<and> map snd (node_paths e) = all_pids small_tree \<and>
    list_all (\<lambda>(path, p).
      cat (stateless (p4_read sample_kstrtoint small_pids (replicate 2000 NUL) (last path) False)) [1500, 500] 0 () =
        (case small_pids p of
           No_pid \<Rightarrow> Inr ([], 0, ())
         | Pid_without_task \<Rightarrow> Inl NullDeref
         | Has_task t \<Rightarrow> (case mm t of
               None \<Rightarrow> Inl NullDeref
             | Some m \<Rightarrow> Inr (task_text t m, length (task_text t m), ())))) (node_paths e)"
proof (rule mounted_files_describe)
  fix p assume "p \<in> set (all_pids small_tree)"
  moreover have "list_all (\<lambda>p. sample_kstrtoint (dec p) = Inr p) (all_pids small_tree)" by code_simp
  ultimately show "sample_kstrtoint (dec p) = Inr p" by (auto simp: list_all_iff)
next
  fix p t m assume "p \<in> set (all_pids small_tree)" and "small_pids p = Has_task t" and "mm t = Some m"
  then show "task_fits t m" by (auto simp: small_tree_def small_pids_def task_fits_def bash_task_def)
qed (simp_all add: plenty_def pids_fit_def small_tree_def empty_fs_def TMPSIZE4_def)

text \<open>
  When the directory of the first process cannot be allocated, the mount goes on to make a
  file in it, and dereferences NULL.
\<close>

theorem mount_without_directory_faults:
  assumes "alloc_ok s (allocs s)" and "alloc_ok s (Suc (allocs s))"
    and "\<not> (alloc_ok s (allocs s + 2) \<and> alloc_ok s (allocs s + 3))" and "children init_task \<noteq> []"
  shows "s2fs_fill_super init_task s = Inl NullDeref"
  using assms by (cases init_task) (auto simp: s2fs_fill_super_def fs_defs numeral_eq_Suc Let_def)

theorem mount_without_directory_faults_witness:
  "s2fs_fill_super small_tree \<lparr>allocs = 0, alloc_ok = \<lambda>n. n < 3, klogs = []\<rparr> = Inl NullDeref"
  by (rule mount_without_directory_faults) (simp_all add: small_tree_def)

text \<open>
  The mount of part 3 returns 0 or -ENOMEM, -ENOMEM exactly when the root cannot be allocated,
  and makes the greeting's file at \<open>foo/bar\<close> exactly when its six allocations succeed; the mount
  of part 2 makes no file, so its counter cannot be opened.
\<close>

theorem p2_p3_mounts:
  "(case p3_fill_super s of (r, entries, s') \<Rightarrow>
      (r = -12 \<longleftrightarrow> \<not> (alloc_ok s (allocs s) \<and> alloc_ok s (allocs s + 1))) \<and> (r = 0 \<or> r = -12) \<and>
      (concat (map node_paths entries) = [([''foo'', ''bar''], 0)] \<longleftrightarrow>
         list_all (\<lambda>n. alloc_ok s (allocs s + n)) [0..<6]) \<and>
      (concat (map node_paths entries) = [([''foo'', ''bar''], 0)] \<or> concat (map node_paths entries) = [])) \<and>
   fst (snd (p2_fill_super s)) = []"
  by (simp add: p3_fill_super_def p2_fill_super_def p3_create_dir_def p3_create_file_def
    make_entry_def alloc_def ENOMEM_fs_def upt_rec numeral_eq_Suc)

end
