(* ===== verification/S2fs_Open.thy ===== *)
theory S2fs_Open
  imports S2fs_Mount
begin

unbundle bit_operations_syntax

text \<open>
  The inodes that the file systems of \<open>Project_4\<close> make (modes, operations, private data), opening a file
  by its path, and what the modes of part 4 mean for users with and without privileges.
\<close>

section \<open>Inodes\<close>

datatype fops = Simple_dir | S2fs_fops

record inode =
  i_ino :: nat
  i_mode :: "16 word"
  i_private :: private_data
  i_fop :: fops

definition S_IFDIR :: int where "S_IFDIR = 0x4000"
definition S_IFREG :: int where "S_IFREG = 0x8000"

text \<open>
  Part 2 gives every inode the number 0 and, through \<open>inode_init_owner(inode, NULL, S_IFDIR)\<close>, the mode of
  a directory without permissions; its arguments \<open>mode\<close> and \<open>dev\<close> are not used.
\<close>

definition p2_get_inode :: "private_data \<Rightarrow> fops \<Rightarrow> inode" where
  "p2_get_inode data ops = \<lparr>i_ino = 0, i_mode = word_of_int S_IFDIR, i_private = data, i_fop = ops\<rparr>"

text \<open>Parts 3 and 4; \<open>ino\<close> is what \<open>get_next_ino\<close> gives, and the mode is narrowed to 16 bits.\<close>

definition p3_make_inode :: "nat \<Rightarrow> int \<Rightarrow> fops \<Rightarrow> inode" where
  "p3_make_inode ino mode ops = \<lparr>i_ino = ino, i_mode = word_of_int mode, i_private = No_data, i_fop = ops\<rparr>"

definition p4_make_inode :: "nat \<Rightarrow> int \<Rightarrow> fops \<Rightarrow> inode" where
  "p4_make_inode ino mode ops = \<lparr>i_ino = ino, i_mode = word_of_int mode, i_private = Dangling, i_fop = ops\<rparr>"

text \<open>Octal 0644 is 420 and 0755 is 493.\<close>

definition p4_root_inode :: "nat \<Rightarrow> inode" where
  "p4_root_inode ino = p4_make_inode ino (S_IFDIR OR 493) Simple_dir"

definition p4_dir_inode :: "nat \<Rightarrow> inode" where
  "p4_dir_inode ino = p4_make_inode ino (S_IFDIR OR 420) Simple_dir"

definition p4_file_inode :: "nat \<Rightarrow> inode" where
  "p4_file_inode ino = p4_make_inode ino S_IFREG S2fs_fops"

definition s2fs_open :: "inode \<Rightarrow> private_data" where
  "s2fs_open inode = i_private inode"

section \<open>Opening by path\<close>

datatype access = May_read | May_write | May_search

text \<open>
  Who may do what is decided by the kernel: \<open>may\<close> is its answer for the inodes of a mount, which belong to
  root. For a user who is neither root nor of root's group it is the last three bits of the
  mode; with \<open>CAP_DAC_OVERRIDE\<close> everything is allowed but searching what is not a directory.
\<close>

type_synonym permission = "inode \<Rightarrow> access \<Rightarrow> bool"

fun others_bit :: "access \<Rightarrow> 16 word" where
  "others_bit May_read = 4"
| "others_bit May_write = 2"
| "others_bit May_search = 1"

definition unprivileged :: "permission \<Rightarrow> bool" where
  "unprivileged may \<longleftrightarrow> (\<forall>i a. may i a \<longleftrightarrow> i_mode i AND others_bit a \<noteq> 0)"

definition privileged :: "permission \<Rightarrow> bool" where
  "privileged may \<longleftrightarrow> (\<forall>i a. may i a \<longleftrightarrow> a \<noteq> May_search \<or> i_fop i = Simple_dir)"

fun node_name :: "fs_node \<Rightarrow> string" where
  "node_name (File n p) = n"
| "node_name (Dir n es) = n"

fun node_inode :: "nat \<Rightarrow> fs_node \<Rightarrow> inode" where
  "node_inode ino (File n p) = p4_file_inode ino"
| "node_inode ino (Dir n es) = p4_dir_inode ino"

fun sub_entries :: "fs_node \<Rightarrow> fs_node list" where
  "sub_entries (File n p) = []"
| "sub_entries (Dir n es) = es"

text \<open>The entry at a path, if every directory on the way may be searched.\<close>

fun resolve :: "permission \<Rightarrow> inode \<Rightarrow> fs_node list \<Rightarrow> string list \<Rightarrow> fs_node option" where
  "resolve may dir es [] = None"
| "resolve may dir es (n # ns) =
     (if \<not> may dir May_search then None
      else case find (\<lambda>e. node_name e = n) es of
        None \<Rightarrow> None
      | Some e \<Rightarrow> if ns = [] then Some e else resolve may (node_inode 0 e) (sub_entries e) ns)"

text \<open>What a successful \<open>open\<close> gives: the entry and the private data of the open file.\<close>

definition open_file :: "permission \<Rightarrow> access \<Rightarrow> nat \<Rightarrow> fs_node list \<Rightarrow> string list \<Rightarrow> (fs_node \<times> private_data) option" where
  "open_file may a ino es path =
     (case resolve may (p4_root_inode ino) es path of
        None \<Rightarrow> None
      | Some e \<Rightarrow> if may (node_inode ino e) a then Some (e, s2fs_open (node_inode ino e)) else None)"

lemmas inode_defs = p4_root_inode_def p4_dir_inode_def p4_file_inode_def p4_make_inode_def S_IFDIR_def S_IFREG_def

lemma p4_modes:
  "i_mode (p4_root_inode ino) = 0x41ED" "i_mode (p4_dir_inode ino) = 0x41A4" "i_mode (p4_file_inode ino) = 0x8000"
  by (simp_all add: inode_defs)

lemma unprivileged_bits:
  assumes "unprivileged may"
  shows "may (p4_root_inode ino) May_search" "may (p4_root_inode ino) May_read"
    "\<not> may (p4_dir_inode ino) May_search" "may (p4_dir_inode ino) May_read"
    "\<not> may (p4_file_inode ino) a"
  using assms by (simp_all add: unprivileged_def p4_modes) (cases a; simp)

lemma privileged_bits:
  "privileged may \<Longrightarrow> may (p4_root_inode ino) May_search"
  "privileged may \<Longrightarrow> may (p4_dir_inode ino) May_search"
  "privileged may \<Longrightarrow> a \<noteq> May_search \<Longrightarrow> may i a"
  by (auto simp: privileged_def inode_defs)

section \<open>Names\<close>

definition digits :: "string \<Rightarrow> nat" where
  "digits s = fold (\<lambda>c n. 10 * n + (of_char c - 48)) s 0"

lemma digits_dec_nat: "digits (dec_nat n) = n"
proof (induction n rule: dec_nat.induct)
  case (1 n)
  show ?case
  proof (cases "n < 10")
    case True
    then show ?thesis by (subst dec_nat.simps) (simp add: digits_def)
  next
    case False
    then have "digits (dec_nat n) = 10 * digits (dec_nat (n div 10)) + n mod 10"
      by (subst dec_nat.simps) (simp add: digits_def)
    then show ?thesis using 1 False by simp
  qed
qed

lemma dec_inj:
  assumes "0 \<le> p" and "0 \<le> q" and "dec p = dec q"
  shows "p = q"
proof -
  have "dec_nat (nat p) = dec_nat (nat q)" using assms by (simp add: dec_def)
  then have "nat p = nat q" by (metis digits_dec_nat)
  then show ?thesis using assms(1,2) by simp
qed

lemma node_name_task: "node_name (task_node t) = dec (pid t)"
  by (cases t rule: task_node.cases) simp_all

lemma pid_in_all: "pid t \<in> set (all_pids t)"
  by (cases t) simp

lemma distinct_siblings:
  "distinct (concat (map all_pids ts)) \<Longrightarrow> t \<in> set ts \<Longrightarrow> list_all (\<lambda>t. 0 \<le> pid t) ts \<Longrightarrow>
    find (\<lambda>e. node_name e = dec (pid t)) (map task_node ts) = Some (task_node t)"
proof (induction ts)
  case (Cons u us)
  show ?case
  proof (cases "t = u")
    case False
    then have t: "t \<in> set us" using Cons.prems(2) by simp
    then have "pid t \<in> set (concat (map all_pids us))" using pid_in_all by auto
    then have "pid u \<noteq> pid t" using Cons.prems(1) pid_in_all [of u] by auto
    moreover have "0 \<le> pid t" "0 \<le> pid u" using Cons.prems(2,3) by (auto simp: list_all_iff)
    ultimately have "dec (pid u) \<noteq> dec (pid t)" using dec_inj by blast
    then show ?thesis using Cons t by (simp add: node_name_task)
  qed (simp add: node_name_task)
qed simp

lemma resolve_task:
  assumes "privileged may"
  shows "(path, q) \<in> set (task_paths t) \<Longrightarrow> distinct (all_pids t) \<Longrightarrow> list_all (\<lambda>p. 0 \<le> p) (all_pids t) \<Longrightarrow>
    may dir May_search \<Longrightarrow> find (\<lambda>e. node_name e = dec (pid t)) es = Some (task_node t) \<Longrightarrow>
    resolve may dir es path = Some (File (dec q) q)"
proof (induction t arbitrary: path dir es rule: task_paths.induct)
  case (1 c p)
  then show ?case by simp
next
  case (2 c p t ts)
  let ?sub = "File (dec p) p # map task_node (t # ts)"
  obtain ns where path: "path = dec p # ns" and ns: "(ns, q) = ([dec p], p) \<or> (\<exists>u \<in> set (t # ts). (ns, q) \<in> set (task_paths u))"
    using "2.prems"(1) by auto
  have srch: "may (p4_dir_inode 0) May_search" by (rule privileged_bits(2) [OF assms])
  from ns have "ns \<noteq> [] \<and> resolve may (p4_dir_inode 0) ?sub ns = Some (File (dec q) q)"
  proof
    assume "(ns, q) = ([dec p], p)"
    then show ?thesis using srch by simp
  next
    assume "\<exists>u \<in> set (t # ts). (ns, q) \<in> set (task_paths u)"
    then obtain u where u: "u \<in> set (t # ts)" "(ns, q) \<in> set (task_paths u)" by blast
    have d: "distinct (concat (map all_pids (t # ts)))" "p \<notin> set (concat (map all_pids (t # ts)))" "distinct (all_pids u)"
      using "2.prems"(2) u(1) by (auto simp: distinct_concat_iff)
    have nn: "list_all (\<lambda>p. 0 \<le> p) (all_pids u)" "list_all (\<lambda>t. 0 \<le> pid t) (t # ts)" "0 \<le> p"
      using "2.prems"(3) u(1) pid_in_all by (auto simp: list_all_iff)
    have "pid u \<in> set (concat (map all_pids (t # ts)))" using u(1) pid_in_all by auto
    then have "p \<noteq> pid u" using d(2) by blast
    moreover have "0 \<le> pid u" using nn(2) u(1) by (auto simp: list_all_iff)
    ultimately have "dec p \<noteq> dec (pid u)" using dec_inj nn(3) by blast
    then have "find (\<lambda>e. node_name e = dec (pid u)) ?sub = Some (task_node u)"
      using distinct_siblings [OF d(1) u(1) nn(2)] by simp
    then show ?thesis using "2.IH" [OF u(1,2) d(3) nn(1) srch] task_paths_last [OF u(2)] by blast
  qed
  then show ?case using "2.prems"(4,5) path by simp
qed

text \<open>
  C38. The files of part 4 have the mode of a regular file without any permission, in directories that may
  be listed but not searched. When no allocation fails and pids differ, root can open the file of every
  process at its path (and gets the dangling private data with it); any other user can open none of
  them, neither for reading nor for writing.
\<close>

theorem mounted_files_only_for_root:
  assumes "plenty s" and "pids_fit init_task" and "distinct (all_pids init_task)"
    and "s2fs_fill_super init_task s = Inr (r, entries, s')" and "(path, p) \<in> set (task_paths init_task)"
    and "a \<noteq> May_search"
  shows "(privileged may \<longrightarrow> open_file may a ino entries path = Some (File (dec p) p, Dangling)) \<and>
    (unprivileged may \<longrightarrow> open_file may a ino entries path = None)"
proof -
  have e: "entries = [task_node init_task]" using fill_super_plenty [OF assms(1,2)] assms(4) by auto
  have nn: "list_all (\<lambda>p. 0 \<le> p) (all_pids init_task)" using assms(2) by (auto simp: pids_fit_def list_all_iff)
  have fnd: "find (\<lambda>e. node_name e = dec (pid init_task)) entries = Some (task_node init_task)"
    by (simp add: e node_name_task)
  have "open_file may a ino entries path = Some (File (dec p) p, Dangling)" if "privileged may"
    using resolve_task [OF that assms(5,3) nn privileged_bits(1) [OF that] fnd] privileged_bits(3) [OF that assms(6)]
    by (simp add: open_file_def s2fs_open_def p4_file_inode_def p4_make_inode_def)
  moreover have "open_file may a ino entries path = None" if u: "unprivileged may"
  proof -
    have blocked: "\<not> may (node_inode 0 e) May_search" for e
      using unprivileged_bits(3,5) [OF u] by (cases e) simp_all
    obtain n ns where path: "path = n # ns" using task_paths_last [OF assms(5)] by (cases path) auto
    show ?thesis
    proof (cases "ns = []")
      case True
      then have "task_node init_task = File n p"
        using assms(5) path by (cases init_task rule: task_paths.cases) (auto dest: task_paths_last)
      then show ?thesis
        using True path e unprivileged_bits(5) [OF u] by (simp add: open_file_def)
    next
      case False
      then have "resolve may dir es path = None" for dir es
        using path blocked by (cases ns) (auto split: option.splits)
      then show ?thesis by (simp add: open_file_def)
    qed
  qed
  ultimately show ?thesis by blast
qed

theorem mounted_files_only_for_root_witness:
  "\<exists>entries s'. s2fs_fill_super small_tree empty_fs = Inr (0, entries, s') \<and>
    open_file (\<lambda>i a. a \<noteq> May_search \<or> i_fop i = Simple_dir) May_read 7 entries [''0'', ''1'', ''42''] =
      Some (File (dec 42) 42, Dangling) \<and>
    open_file (\<lambda>i a. i_mode i AND others_bit a \<noteq> 0) May_read 7 entries [''0'', ''1'', ''42''] = None"
proof -
  have fit: "plenty empty_fs" "pids_fit small_tree" "distinct (all_pids small_tree)"
    by (simp_all add: plenty_def pids_fit_def small_tree_def empty_fs_def)
  obtain s' where s: "s2fs_fill_super small_tree empty_fs = Inr (0, [task_node small_tree], s')"
    using fill_super_plenty [OF fit(1,2)] by blast
  have path: "([''0'', ''1'', ''42''], 42) \<in> set (task_paths small_tree)" by code_simp
  have users: "privileged (\<lambda>i a. a \<noteq> May_search \<or> i_fop i = Simple_dir)"
    "unprivileged (\<lambda>i a. i_mode i AND others_bit a \<noteq> 0)"
    by (simp_all add: privileged_def unprivileged_def)
  show ?thesis
    using s mounted_files_only_for_root [OF fit s path, of May_read] users by blast
qed

text \<open>In parts 2 and 3 the files can only be opened by root as well, with the counter and with nothing as their data.\<close>

lemma other_parts_only_for_root:
  assumes "unprivileged may"
  shows "\<not> may (p2_get_inode data ops) a" "\<not> may (p3_make_inode ino S_IFREG S2fs_fops) a"
    "s2fs_open (p2_get_inode Counter S2fs_fops) = Counter" "s2fs_open (p3_make_inode ino S_IFREG S2fs_fops) = No_data"
  using assms
  by (cases a; simp add: unprivileged_def p2_get_inode_def p3_make_inode_def s2fs_open_def S_IFDIR_def S_IFREG_def)+

end
