(* ===== verification/Kernel_Modules.thy ===== *)
theory Kernel_Modules
  imports S2fs_Open Containers_Show
begin

text \<open>
  Loading and unloading the modules: the proc files of \<open>Project_4/part1/proj4.c\<close> and
  \<open>Project_2/prev/proj2.c\<close>, and the file system of \<open>Project_4/part2\<close> to \<open>part4\<close>. The registries belong to the
  kernel: its functions are parameters (\<open>kapi\<close>), and \<open>kapi_laws\<close> is what their documentation says of the
  names that are taken.
\<close>

section \<open>The functions of the kernel\<close>

record 'k kapi =
  proc_create :: "string \<Rightarrow> 'k \<Rightarrow> bool \<times> 'k"
  remove_proc_entry :: "string \<Rightarrow> 'k \<Rightarrow> 'k"
  register_filesystem :: "string \<Rightarrow> 'k \<Rightarrow> int \<times> 'k"
  unregister_filesystem :: "string \<Rightarrow> 'k \<Rightarrow> int \<times> 'k"

definition EBUSY :: int where "EBUSY = 16"

text \<open>
  \<open>procs\<close> and \<open>fss\<close> are the names of the proc files and of the file systems that exist. \<open>proc_create\<close> may
  fail for want of memory, and does for a name that is taken; so does \<open>register_filesystem\<close>.
\<close>

definition kapi_laws :: "'k kapi \<Rightarrow> ('k \<Rightarrow> string set) \<Rightarrow> ('k \<Rightarrow> string set) \<Rightarrow> bool" where
  "kapi_laws api procs fss \<longleftrightarrow>
     (\<forall>n k ok k'. proc_create api n k = (ok, k') \<longrightarrow>
        procs k' = (if ok then insert n (procs k) else procs k) \<and> fss k' = fss k \<and> (n \<in> procs k \<longrightarrow> \<not> ok)) \<and>
     (\<forall>n k. procs (remove_proc_entry api n k) = procs k - {n} \<and> fss (remove_proc_entry api n k) = fss k) \<and>
     (\<forall>n k r k'. register_filesystem api n k = (r, k') \<longrightarrow>
        r = (if n \<in> fss k then - EBUSY else 0) \<and> fss k' = insert n (fss k) \<and> procs k' = procs k) \<and>
     (\<forall>n k r k'. unregister_filesystem api n k = (r, k') \<longrightarrow> fss k' = fss k - {n} \<and> procs k' = procs k)"

section \<open>The modules\<close>

definition proj4_init :: "'k kapi \<Rightarrow> 'k \<Rightarrow> int \<times> 'k" where
  "proj4_init api k = (let (entry, k) = proc_create api ''proj4'' k in (0, k))"

definition proj4_exit :: "'k kapi \<Rightarrow> 'k \<Rightarrow> string list \<times> 'k" where
  "proj4_exit api k = ([''Bye World!'' @ [newline]], remove_proc_entry api ''proj4'' k)"

definition prj2_init :: "'k kapi \<Rightarrow> 'k \<Rightarrow> int \<times> 'k" where
  "prj2_init api k = (let (entry, k) = proc_create api ''proj2'' k in (0, k))"

definition prj2_exit :: "'k kapi \<Rightarrow> 'k \<Rightarrow> 'k" where
  "prj2_exit api k = remove_proc_entry api ''proj2'' k"

definition s2fs_init :: "'k kapi \<Rightarrow> 'k \<Rightarrow> int \<times> 'k" where
  "s2fs_init api k = register_filesystem api ''s2fs'' k"

definition s2fs_exit :: "'k kapi \<Rightarrow> 'k \<Rightarrow> string list \<times> 'k" where
  "s2fs_exit api k = (let (r, k) = unregister_filesystem api ''s2fs'' k in ([''Bye World!'' @ [newline]], k))"

text \<open>
  \<open>s2fs_mount\<close>: the entry or the error of \<open>mount_nodev\<close>, which calls \<open>s2fs_fill_super\<close>; a failure is logged.
\<close>

definition s2fs_mount ::
  "((fs \<Rightarrow> (int \<times> fs_node list \<times> fs) res) \<Rightarrow> fs \<Rightarrow> ((int + fs_node list) \<times> fs) res) \<Rightarrow> task \<Rightarrow> fs \<Rightarrow>
     ((int + fs_node list) \<times> string list \<times> fs) res" where
  "s2fs_mount mount_nodev init_task s =
     bind_res (mount_nodev (s2fs_fill_super init_task) s) (\<lambda>(entry, s).
       case entry of
         Inl e \<Rightarrow> Inr (Inl e, [''s2fs mounting failed'' @ [newline]], s)
       | Inr es \<Rightarrow> Inr (Inr es, [], s))"

text \<open>A new superblock is filled, and its error, if there is one, is that of the mount.\<close>

definition mounts_new :: "((fs \<Rightarrow> (int \<times> fs_node list \<times> fs) res) \<Rightarrow> fs \<Rightarrow> ((int + fs_node list) \<times> fs) res) \<Rightarrow> bool" where
  "mounts_new mount_nodev \<longleftrightarrow> (\<forall>fill s. mount_nodev fill s =
     bind_res (fill s) (\<lambda>(r, es, s). Inr (if r = 0 then Inr es else Inl r, s)))"

section \<open>Loading and unloading\<close>

lemma kapi_lawsD:
  assumes "kapi_laws api procs fss"
  shows "proc_create api n k = (ok, k') \<Longrightarrow>
      procs k' = (if ok then insert n (procs k) else procs k) \<and> fss k' = fss k \<and> (n \<in> procs k \<longrightarrow> \<not> ok)"
    and "procs (remove_proc_entry api n k) = procs k - {n}"
    and "register_filesystem api n k = (r, k') \<Longrightarrow>
      r = (if n \<in> fss k then - EBUSY else 0) \<and> fss k' = insert n (fss k) \<and> procs k' = procs k"
    and "unregister_filesystem api n k = (r, k') \<Longrightarrow> fss k' = fss k - {n} \<and> procs k' = procs k"
proof -
  note laws = assms [unfolded kapi_laws_def]
  show "proc_create api n k = (ok, k') \<Longrightarrow>
      procs k' = (if ok then insert n (procs k) else procs k) \<and> fss k' = fss k \<and> (n \<in> procs k \<longrightarrow> \<not> ok)"
    by (rule laws [THEN conjunct1, rule_format])
  show "procs (remove_proc_entry api n k) = procs k - {n}"
    using laws [THEN conjunct2, THEN conjunct1] by simp
  show "register_filesystem api n k = (r, k') \<Longrightarrow>
      r = (if n \<in> fss k then - EBUSY else 0) \<and> fss k' = insert n (fss k) \<and> procs k' = procs k"
    by (rule laws [THEN conjunct2, THEN conjunct2, THEN conjunct1, rule_format])
  show "unregister_filesystem api n k = (r, k') \<Longrightarrow> fss k' = fss k - {n} \<and> procs k' = procs k"
    by (rule laws [THEN conjunct2, THEN conjunct2, THEN conjunct2, rule_format])
qed

text \<open>
  The file system module loads exactly if its name is free, and unloading it then restores what
  there was. A module with a proc file always loads; if the name was taken, unloading it takes the
  file of the other module away.
\<close>

theorem s2fs_load_unload:
  assumes "kapi_laws api procs fss" and "s2fs_init api k = (r, k')"
  shows "r = (if ''s2fs'' \<in> fss k then - 16 else 0) \<and> ''s2fs'' \<in> fss k' \<and>
    (r = 0 \<longrightarrow> fss (snd (s2fs_exit api k')) = fss k)"
proof -
  obtain r2 k2 where u: "unregister_filesystem api ''s2fs'' k' = (r2, k2)" by fastforce
  show ?thesis
    using kapi_lawsD(3) [OF assms(1), of "''s2fs''" k r k'] kapi_lawsD(4) [OF assms(1) u] assms(2) u
    by (auto simp: s2fs_init_def s2fs_exit_def EBUSY_def)
qed

theorem proc_load_unload:
  assumes "kapi_laws api procs fss" and "proj4_init api k = (r, k')"
  shows "r = 0 \<and> procs (snd (proj4_exit api k')) = procs k - {''proj4''}"
proof -
  obtain ok k1 where c: "proc_create api ''proj4'' k = (ok, k1)" by fastforce
  then show ?thesis
    using kapi_lawsD(1) [OF assms(1) c] kapi_lawsD(2) [OF assms(1)] assms(2)
    by (auto simp: proj4_init_def proj4_exit_def)
qed

theorem proj2_load_unload:
  assumes "kapi_laws api procs fss" and "prj2_init api k = (r, k')"
  shows "r = 0 \<and> procs (prj2_exit api k') = procs k - {''proj2''}"
proof -
  obtain ok k1 where c: "proc_create api ''proj2'' k = (ok, k1)" by fastforce
  then show ?thesis
    using kapi_lawsD(1) [OF assms(1) c] kapi_lawsD(2) [OF assms(1)] assms(2)
    by (auto simp: prj2_init_def prj2_exit_def)
qed

text \<open>
  Mounting gives the mirrored tree when memory lasts, and -ENOMEM with a message when the root cannot
  be allocated.
\<close>

theorem s2fs_mount_outcome:
  assumes "mounts_new mount_nodev" and "pids_fit init_task"
  shows "plenty s \<Longrightarrow> \<exists>s'. s2fs_mount mount_nodev init_task s = Inr (Inr [task_node init_task], [], s')"
    and "\<not> (alloc_ok s (allocs s) \<and> alloc_ok s (Suc (allocs s))) \<Longrightarrow>
      \<exists>s'. s2fs_mount mount_nodev init_task s = Inr (Inl (-12), [''s2fs mounting failed'' @ [newline]], s')"
proof -
  have m: "mount_nodev fill s = bind_res (fill s) (\<lambda>(r, es, s). Inr (if r = 0 then Inr es else Inl r, s))" for fill s
    using assms(1) by (simp add: mounts_new_def)
  show "plenty s \<Longrightarrow> \<exists>s'. s2fs_mount mount_nodev init_task s = Inr (Inr [task_node init_task], [], s')"
    using fill_super_plenty [OF _ assms(2), of s] by (auto simp: s2fs_mount_def m)
  show "\<exists>s'. s2fs_mount mount_nodev init_task s = Inr (Inl (-12), [''s2fs mounting failed'' @ [newline]], s')"
    if "\<not> (alloc_ok s (allocs s) \<and> alloc_ok s (Suc (allocs s)))"
    using that by (auto simp: s2fs_mount_def m s2fs_fill_super_def fs_defs ENOMEM_fs_def Let_def)
qed

text \<open>The laws can hold: registries that are lists of names.\<close>

definition list_kapi :: "(string list \<times> string list) kapi" where
  "list_kapi = \<lparr>proc_create = (\<lambda>n (ps, fs). if n \<in> set ps then (False, (ps, fs)) else (True, (n # ps, fs))),
     remove_proc_entry = (\<lambda>n (ps, fs). (filter (\<lambda>m. m \<noteq> n) ps, fs)),
     register_filesystem = (\<lambda>n (ps, fs). if n \<in> set fs then (- EBUSY, (ps, fs)) else (0, (ps, n # fs))),
     unregister_filesystem = (\<lambda>n (ps, fs). (0, (ps, filter (\<lambda>m. m \<noteq> n) fs)))\<rparr>"

lemma list_kapi_laws: "kapi_laws list_kapi (\<lambda>(ps, fs). set ps) (\<lambda>(ps, fs). set fs)"
  by (auto simp: kapi_laws_def list_kapi_def)

theorem s2fs_load_unload_witness:
  "fst (s2fs_init list_kapi ([], [''ext4''])) = 0 \<and> fst (s2fs_init list_kapi ([], [''s2fs''])) = - 16"
  using s2fs_load_unload [OF list_kapi_laws, of "([], [''ext4''])"] s2fs_load_unload [OF list_kapi_laws, of "([], [''s2fs''])"]
  by (cases "s2fs_init list_kapi ([], [''ext4''])"; cases "s2fs_init list_kapi ([], [''s2fs''])") auto

end
