(* ===== verification/S2fs_Old.thy ===== *)
theory S2fs_Old
  imports Kernel_Modules
begin

text \<open>
  \<open>Project_4/part3/old/s2fs.c\<close>, an earlier state of part 3 that still has the counter of part 2 in its
  file operations but creates no file: its mount can never succeed, and a file made by its
  \<open>s2fs_create_file\<close> has no counter.
\<close>

section \<open>Inodes and files\<close>

text \<open>\<open>inode_init_owner(inode, NULL, S_IFDIR)\<close> comes last and replaces the mode that was asked for.\<close>

definition old_make_inode :: "nat \<Rightarrow> int \<Rightarrow> fops \<Rightarrow> inode" where
  "old_make_inode ino mode ops =
     (let inode = \<lparr>i_ino = ino, i_mode = word_of_int mode, i_private = No_data, i_fop = ops\<rparr>
      in inode\<lparr>i_mode := word_of_int S_IFDIR\<rparr>)"

definition old_file_inode :: "nat \<Rightarrow> inode" where
  "old_file_inode ino = old_make_inode ino 0 S2fs_fops"

definition old_open :: "inode \<Rightarrow> private_data" where
  "old_open inode = i_private inode"

definition old_read_file ::
  "private_data \<Rightarrow> char list \<Rightarrow> bool \<Rightarrow> nat \<Rightarrow> nat \<Rightarrow> int \<Rightarrow> (int \<times> string \<times> nat \<times> int) res" where
  "old_read_file data junk copy_fails cnt offset counter =
     (case data of
        No_data \<Rightarrow> Inl NullDeref
      | Dangling \<Rightarrow> Inl UseAfterFree
      | Counter \<Rightarrow>
          let v = (if 0 < offset then counter - 1 else counter);
              counter' = (if 0 < offset then counter else to_int32 (counter + 1));
              s = dec v @ [newline]
          in bind_res (copy_out (snprintf_to junk s) (int (length s)) copy_fails cnt offset)
               (\<lambda>(r, bytes, offset'). Inr (r, bytes, offset', counter')))"

definition old_write_file ::
  "(string \<Rightarrow> int) \<Rightarrow> private_data \<Rightarrow> bool \<Rightarrow> string \<Rightarrow> nat \<Rightarrow> int \<Rightarrow> (int \<times> int) res" where
  "old_write_file simple_strtol data copy_fails buf offset counter =
     fs_write simple_strtol TMPSIZE data copy_fails buf offset counter"

text \<open>A dentry, then an inode; whether the entry was added.\<close>

definition old_create_dir :: "fs \<Rightarrow> bool \<times> fs" where
  "old_create_dir s =
     (let (dentry, s) = alloc s
      in if \<not> dentry then (False, s) else let (inode, s) = alloc s in if inode then (True, s) else (False, s))"

definition old_create_file :: "nat \<Rightarrow> fs \<Rightarrow> inode option \<times> fs" where
  "old_create_file ino s =
     (let (dentry, s) = alloc s
      in if \<not> dentry then (None, s)
         else let (inode, s) = alloc s in if inode then (Some (old_file_inode ino), s) else (None, s))"

section \<open>The mount\<close>

text \<open>
  \<open>s_root\<close>: whether the superblock has a root. It is tested between \<open>d_make_root\<close> and the assignment of
  what that returned. The value, the entries of the root and \<open>s_root\<close> afterwards.
\<close>

definition old_fill_super :: "bool \<Rightarrow> fs \<Rightarrow> int \<times> fs_node list \<times> bool \<times> fs" where
  "old_fill_super s_root s =
     (let (root, s) = alloc s
      in if \<not> root then (- ENOMEM_fs, [], s_root, s)
         else
           let (root_dentry, s) = alloc s
           in if \<not> s_root then (- ENOMEM_fs, [], s_root, s) else (0, [], root_dentry, s))"

text \<open>\<open>mount_nodev\<close> fills a new superblock, which has no root.\<close>

definition old_mount ::
  "((fs \<Rightarrow> (int \<times> fs_node list \<times> fs) res) \<Rightarrow> fs \<Rightarrow> ((int + fs_node list) \<times> fs) res) \<Rightarrow> fs \<Rightarrow>
     ((int + fs_node list) \<times> string list \<times> fs) res" where
  "old_mount mount_nodev s =
     bind_res (mount_nodev (\<lambda>s. let (r, es, s_root, s) = old_fill_super False s in Inr (r, es, s)) s) (\<lambda>(entry, s).
       case entry of
         Inl e \<Rightarrow> Inr (Inl e, [''s2fs mounting failed'' @ [newline]], s)
       | Inr es \<Rightarrow> Inr (Inr es, [], s))"

definition part1_proc_show :: "task \<Rightarrow> string list \<times> int" where
  "part1_proc_show init_task =
     ((''Loading proctree Module...'' @ [newline]) # recursive_search init_task 0, 0)"

definition old_init :: "'k kapi \<Rightarrow> 'k \<Rightarrow> int \<times> 'k" where
  "old_init api k = register_filesystem api ''s2fs'' k"

definition old_exit :: "'k kapi \<Rightarrow> 'k \<Rightarrow> string list \<times> 'k" where
  "old_exit api k = (let (r, k) = unregister_filesystem api ''s2fs'' k in ([''Bye World!'' @ [newline]], k))"

section \<open>What it does\<close>

text \<open>
  The mount fails with -ENOMEM whatever the memory does, also when both allocations were made; a
  superblock that had a root would get the new one, also when that could not be made.
\<close>

theorem old_mount_fails:
  assumes "mounts_new mount_nodev"
  shows "\<exists>s'. old_mount mount_nodev s = Inr (Inl (-12), [''s2fs mounting failed'' @ [newline]], s') \<and>
    allocs s' = allocs s + (if alloc_ok s (allocs s) then 2 else 1)"
proof -
  have m: "mount_nodev fill s = bind_res (fill s) (\<lambda>(r, es, s). Inr (if r = 0 then Inr es else Inl r, s))" for fill s
    using assms by (simp add: mounts_new_def)
  show ?thesis by (simp add: old_mount_def m old_fill_super_def alloc_def ENOMEM_fs_def Let_def)
qed

lemma old_fill_super_again:
  "alloc_ok s (allocs s) \<Longrightarrow> \<exists>s'. old_fill_super True s = (0, [], alloc_ok s (Suc (allocs s)), s')"
  by (simp add: old_fill_super_def alloc_def Let_def)

text \<open>A file it makes is a directory by its mode, and its first read goes through a null pointer.\<close>

theorem old_file_has_no_counter:
  assumes "old_create_file ino s = (Some inode, s')"
  shows "i_mode inode = 0x4000 \<and> old_read_file (old_open inode) junk copy_fails cnt offset counter = Inl NullDeref \<and>
    (offset = 0 \<and> length buf < TMPSIZE \<and> \<not> copy_fails \<longrightarrow>
      old_write_file simple_strtol (old_open inode) copy_fails buf offset counter = Inl NullDeref)"
  using assms
  by (auto simp: old_create_file_def alloc_def old_file_inode_def old_make_inode_def old_open_def old_read_file_def
      old_write_file_def fs_write_def S_IFDIR_def Let_def split: if_splits)

text \<open>With a counter the reads are those of part 2.\<close>

lemma old_read_is_p2: "old_read_file Counter = p2_read"
  by (simp add: old_read_file_def p2_read_def fun_eq_iff)

end
