(* ===== verification/Tutorials.thy ===== *)
theory Tutorials
  imports Kernel_Modules
begin

text \<open>
  The example modules: \<open>hello-1.c\<close>, \<open>hello-2.c\<close>, \<open>hello-4.c\<close> and \<open>hello-5.c\<close> of \<open>EX_4/example\<close> (the last also in
  \<open>Project_4\<close>), which print to the log when they are loaded and unloaded, and \<open>Project_2/example.c\<close>,
  which has a proc file. A module's function gives its value and the lines it logs.
\<close>

section \<open>The modules without parameters\<close>

definition hello_1_init :: "int \<times> string list" where
  "hello_1_init = (0, [''Hello world 1.'' @ [newline]])"

definition hello_1_exit :: "string list" where
  "hello_1_exit = [''Goodbye world 1.'' @ [newline]]"

definition hello_2_init :: "int \<times> string list" where
  "hello_2_init = (0, [''Hello, world 2'' @ [newline]])"

definition hello_2_exit :: "string list" where
  "hello_2_exit = [''Goodbye, world 2'' @ [newline]]"

definition hello_4_init :: "int \<times> string list" where
  "hello_4_init = (0, [''Hello, world 4'' @ [newline]])"

definition hello_4_exit :: "string list" where
  "hello_4_exit = [''Goodbye, world 4'' @ [newline]]"

section \<open>The module with parameters\<close>

record hello_params =
  myshort :: "16 word"
  myint :: "32 word"
  mylong :: "64 word"
  mystring :: string
  myintArray :: "32 word list"
  arr_argc :: "32 word"

definition hello_5_params :: hello_params where
  "hello_5_params = \<lparr>myshort = 1, myint = 420, mylong = 9999, mystring = ''blah'', myintArray = [-1, -1], arr_argc = 0\<rparr>"

definition hello_5_init :: "hello_params \<Rightarrow> int \<times> string list" where
  "hello_5_init p =
     (0, [''Hello, world 5'' @ [newline] @ ''============='' @ [newline],
          ''myshort is a short integer: '' @ dec (sint (myshort p)) @ [newline],
          ''myint is an integer: '' @ dec (sint (myint p)) @ [newline],
          ''mylong is a long integer: '' @ dec (sint (mylong p)) @ [newline],
          ''mystring is a string: '' @ mystring p @ [newline]] @
         map (\<lambda>i. ''myintArray['' @ dec (int i) @ ''] = '' @ dec (sint (myintArray p ! i)) @ [newline])
           [0..<length (myintArray p)] @
         [''got '' @ dec (sint (arr_argc p)) @ '' arguments for myintArray.'' @ [newline]])"

definition hello_5_exit :: "string list" where
  "hello_5_exit = [''Goodbye, world 5'' @ [newline]]"

text \<open>
  The kernel stores the values given for \<open>myintArray\<close>, at most as many as it has elements, over its first
  elements, and their number in \<open>arr_argc\<close>. However many are given, all elements are logged: those
  that were not given with the value -1, and the number that were.
\<close>

theorem hello_5_logs_array:
  assumes "length vs \<le> 2" and "p = hello_5_params\<lparr>myintArray := overlay (myintArray hello_5_params) 0 vs,
    arr_argc := word_of_nat (length vs)\<rparr>"
  shows "\<exists>log. hello_5_init p = (0, take 5 log @
      map (\<lambda>i. ''myintArray['' @ dec (int i) @ ''] = '' @ (if i < length vs then dec (sint (vs ! i)) else dec (- 1)) @ [newline]) [0, 1] @
      [''got '' @ dec (int (length vs)) @ '' arguments for myintArray.'' @ [newline]]) \<and> length log = 5"
proof -
  have n: "length vs \<le> 2" and p: "p = hello_5_params\<lparr>myintArray := overlay [-1, -1] 0 vs, arr_argc := word_of_nat (length vs)\<rparr>"
    using assms by (simp_all add: hello_5_params_def)
  consider "vs = []" | a where "vs = [a]" | a b where "vs = [a, b]"
    using n by (cases vs rule: remdups_adj.cases) auto
  then have "map (\<lambda>i. dec (sint (overlay [-1, -1] 0 vs ! i))) [0, 1] =
      map (\<lambda>i. if i < length vs then dec (sint (vs ! i)) else dec (- 1)) [0, 1]"
    "length (overlay [-1, -1 :: 32 word] 0 vs) = 2" "sint (word_of_nat (length vs) :: 32 word) = int (length vs)"
    by (cases; simp add: overlay_def)+
  then show ?thesis
    by (intro exI [of _ "[''Hello, world 5'' @ [newline] @ ''============='' @ [newline],
          ''myshort is a short integer: '' @ dec (sint (myshort p)) @ [newline],
          ''myint is an integer: '' @ dec (sint (myint p)) @ [newline],
          ''mylong is a long integer: '' @ dec (sint (mylong p)) @ [newline],
          ''mystring is a string: '' @ mystring p @ [newline]]"])
      (simp add: hello_5_init_def p numeral_2_eq_2)
qed

section \<open>The module with a proc file\<close>

definition hello_proc_show :: "string \<times> int" where
  "hello_proc_show = (''Hello proc!'' @ [newline], 0)"

definition hello_proc_init :: "'k kapi \<Rightarrow> 'k \<Rightarrow> int \<times> 'k" where
  "hello_proc_init api k = (let (entry, k) = proc_create api ''hello_proc'' k in (0, k))"

definition hello_proc_exit :: "'k kapi \<Rightarrow> 'k \<Rightarrow> 'k" where
  "hello_proc_exit api k = remove_proc_entry api ''hello_proc'' k"

lemma hello_proc_load_unload:
  assumes "kapi_laws api procs fss" and "hello_proc_init api k = (r, k')"
  shows "r = 0 \<and> procs (hello_proc_exit api k') = procs k - {''hello_proc''}"
proof -
  obtain ok k1 where c: "proc_create api ''hello_proc'' k = (ok, k1)" by fastforce
  then show ?thesis
    using kapi_lawsD(1) [OF assms(1) c] kapi_lawsD(2) [OF assms(1)] assms(2)
    by (auto simp: hello_proc_init_def hello_proc_exit_def)
qed

end
