(* ===== verification/Encrypt.thy ===== *)
theory Encrypt
  imports Prelude
begin

text \<open>
  The system call \<open>s2_encrypt\<close> that \<open>Project_1/syscall.patch\<close> adds (\<open>kernel/q2/q2.c\<close>): it copies a
  string from the caller, adds the key to each of its bytes and logs the result; and the program
  \<open>Project_1/question2.c\<close> that calls it.
\<close>

section \<open>The call\<close>

text \<open>The loop on \<open>user_data[i]\<close>; adding to a \<open>char\<close> wraps, and the loop stops at a NUL only.\<close>

definition add_key :: "nat \<Rightarrow> char \<Rightarrow> char" where
  "add_key key c = char_of (of_char c + key)"

function shift_from :: "nat \<Rightarrow> char list \<Rightarrow> nat \<Rightarrow> char list res" where
  "shift_from key user_data i =
     (if length user_data \<le> i then Inl OutOfBounds
      else if user_data ! i = NUL then Inr user_data
      else shift_from key (user_data[i := add_key key (user_data ! i)]) (Suc i))"
  by auto

termination by (relation "measure (\<lambda>(key, user_data, i). length user_data - i)") auto

declare shift_from.simps [simp del]

text \<open>
  \<open>kmalloc_ok\<close> says whether \<open>kmalloc\<close> gives memory; for 0 bytes it gives a pointer that no byte may be
  read through. \<open>strnlen_user\<close> and \<open>copy_from_user\<close> are the kernel's functions on the pointer given, by
  the number of bytes. The result is the value, the lines logged, and whether the buffer has been freed.
\<close>

definition s2_encrypt :: "bool \<Rightarrow> (nat \<Rightarrow> nat) \<Rightarrow> (nat \<Rightarrow> char list option) \<Rightarrow> int \<Rightarrow> (int \<times> string list \<times> bool) res" where
  "s2_encrypt kmalloc_ok strnlen_user copy_from_user keyval =
     (let encrypt_key = (word_of_int keyval :: 32 word);
          len = strnlen_user 1024
      in if 0 < encrypt_key \<and> encrypt_key < 6 then
           let hello = ''Hello World, length is: '' @ dec (int len) @ '' and key is '' @ dec (uint encrypt_key) @
                 '' '' @ [newline]
           in if \<not> kmalloc_ok then Inl NullDeref
              else case copy_from_user len of
                None \<Rightarrow> Inr (- 14, [hello, ''Boo'' @ [newline]], False)
              | Some user_data \<Rightarrow>
                  bind_res (shift_from (unat encrypt_key) user_data 0) (\<lambda>user_data.
                  bind_res (cstr user_data) (\<lambda>s.
                    Inr (0, [hello, ''Yay'' @ [newline],
                      ''String is '' @ s @ '' and Digit is '' @ dec (uint encrypt_key) @ [newline]], True)))
         else Inr (- 22, [''Out of bounds cause of '' @ dec (sint encrypt_key) @ [newline]], False))"

section \<open>The program\<close>

text \<open>
  \<open>question2.c\<close>: the options as \<open>getopt\<close> gives them, in order; without \<open>-s\<close> the string is an
  uninitialised buffer (\<open>junk\<close>). \<open>sys\<close> is the value of the system call, and \<open>error_text\<close> what
  \<open>strerror\<close> gives for \<open>errno\<close>.
\<close>

fun read_options :: "(string \<Rightarrow> int) \<Rightarrow> (char \<times> string) list \<Rightarrow> char list \<Rightarrow> int \<Rightarrow> char list \<times> int" where
  "read_options atoi [] strval keyval = (strval, keyval)"
| "read_options atoi ((opt, optarg) # opts) strval keyval =
     (if opt = CHR ''s'' then read_options atoi opts (optarg @ [NUL]) keyval
      else if opt = CHR ''k'' then read_options atoi opts strval (atoi optarg)
      else read_options atoi opts strval keyval)"

definition question2 ::
  "(string \<Rightarrow> int) \<Rightarrow> (char list \<Rightarrow> int \<Rightarrow> int) \<Rightarrow> string \<Rightarrow> char list \<Rightarrow> (char \<times> string) list \<Rightarrow> string list res" where
  "question2 atoi sys error_text junk opts =
     (let (strval, keyval) = read_options atoi opts junk 0
      in bind_res (cstr strval) (\<lambda>text.
           Inr ([''Hello, invoking q2 sys call'' @ [newline], ''string '', text, [newline],
               ''encrypt = '' @ dec keyval @ [newline]] @
             (if sys strval keyval = 0
              then [''syscall has returned 0, use dmesg to check the info'' @ [newline]]
              else [''syscall failed; EINVAL = '' @ error_text @ [newline]]))))"

section \<open>Properties\<close>

text \<open>
  What the kernel documents of its two functions that read the caller's memory, of which \<open>mem\<close> are
  the bytes from the pointer up to the first that is not mapped. \<open>strnlen_user\<close> counts the string with its NUL, gives
  more than \<open>n\<close> when there is no NUL in \<open>n\<close> bytes, and 0 when it cannot read on; \<open>copy_from_user\<close>
  copies \<open>n\<close> bytes, None when it cannot read them all.
\<close>

definition user_strnlen :: "char list \<Rightarrow> nat \<Rightarrow> nat" where
  "user_strnlen mem n =
     (if NUL \<in> set (take n mem) then Suc (length (takeWhile (\<lambda>c. c \<noteq> NUL) mem))
      else if n \<le> length mem then Suc n else 0)"

definition user_copy :: "char list \<Rightarrow> nat \<Rightarrow> char list option" where
  "user_copy mem n = (if n \<le> length mem then Some (take n mem) else None)"

lemma add_key_0 [simp]: "add_key 0 c = c"
  by (simp add: add_key_def)

lemma shift_from_text:
  "NUL \<notin> set s \<Longrightarrow> shift_from key (done @ s @ NUL # rest) (length done) =
     Inr (done @ map (add_key key) s @ NUL # rest)"
proof (induction s arbitrary: "done")
  case Nil
  then show ?case by (simp add: shift_from.simps nth_append)
next
  case (Cons c s)
  have "shift_from key (done @ (c # s) @ NUL # rest) (length done) =
      shift_from key ((done @ [add_key key c]) @ s @ NUL # rest) (length (done @ [add_key key c]))"
    using Cons.prems by (subst shift_from.simps) (auto simp: nth_append list_update_append)
  then show ?case using Cons.prems Cons.IH [of "done @ [add_key key c]"] by simp
qed

lemma shift_from_unterminated:
  "NUL \<notin> set (drop i bs) \<Longrightarrow> shift_from key bs i = Inl OutOfBounds"
proof (induction key bs i rule: shift_from.induct)
  case (1 key bs i)
  show ?case
  proof (cases "length bs \<le> i")
    case False
    then have "drop i bs = bs ! i # drop (Suc i) bs" by (simp add: Cons_nth_drop_Suc)
    then have n: "bs ! i \<noteq> NUL" "NUL \<notin> set (drop (Suc i) bs)" using "1.prems" by auto
    show ?thesis using n False "1.IH" by (subst shift_from.simps) simp
  qed (simp add: shift_from.simps)
qed

lemma key_in_range:
  assumes "- (2 ^ 31) \<le> keyval" and "keyval < 2 ^ 31"
  shows "0 < (word_of_int keyval :: 32 word) \<and> word_of_int keyval < (6 :: 32 word) \<longleftrightarrow>
    1 \<le> keyval \<and> keyval \<le> 5"
    and "sint (word_of_int keyval :: 32 word) = keyval"
proof -
  have u: "uint (word_of_int keyval :: 32 word) = (if 0 \<le> keyval then keyval else keyval + 2 ^ 32)"
  proof (cases "0 \<le> keyval")
    case True
    then show ?thesis using assms by (simp add: uint_word_of_int)
  next
    case False
    then have "(keyval + 2 ^ 32) mod 2 ^ 32 = keyval + 2 ^ 32"
      using assms(1) by (intro mod_pos_pos_trivial) simp_all
    then show ?thesis using False by (simp add: uint_word_of_int)
  qed
  show "0 < (word_of_int keyval :: 32 word) \<and> word_of_int keyval < (6 :: 32 word) \<longleftrightarrow>
      1 \<le> keyval \<and> keyval \<le> 5"
    using u assms by (auto simp: word_less_def)
  show "sint (word_of_int keyval :: 32 word) = keyval"
    using assms by (simp add: sint_sbintrunc' signed_take_bit_int_eq_self)
qed

lemma cstr_shifted: "cstr (bs @ NUL # rest) = Inr (takeWhile (\<lambda>c. c \<noteq> NUL) bs)"
proof -
  have "takeWhile (\<lambda>c. c \<noteq> NUL) (bs @ NUL # rest) = takeWhile (\<lambda>c. c \<noteq> NUL) bs" by (induction bs) simp_all
  then show ?thesis by (simp add: cstr_def)
qed

text \<open>
  What is copied: the string and its NUL when that is among the first 1025 bytes, otherwise 1025
  bytes or, when memory ends before 1024, none.
\<close>

lemma copied_string:
  assumes "mem = s @ NUL # rest" and "NUL \<notin> set s" and "length s \<le> 1024"
  shows "user_strnlen mem 1024 = Suc (length s)" and "user_copy mem (Suc (length s)) = Some (s @ [NUL])"
proof -
  have "NUL \<in> set (take 1024 mem) \<longleftrightarrow> length s < 1024"
    using assms by (auto simp: take_Cons' dest: in_set_takeD)
  moreover have "takeWhile (\<lambda>c. c \<noteq> NUL) mem = s" using assms(1,2) by (simp add: takeWhile_append)
  ultimately show "user_strnlen mem 1024 = Suc (length s)" using assms by (simp add: user_strnlen_def)
  show "user_copy mem (Suc (length s)) = Some (s @ [NUL])" using assms(1) by (simp add: user_copy_def)
qed

lemma copied_other:
  assumes "NUL \<notin> set (take 1025 mem)"
  shows "user_copy mem (user_strnlen mem 1024) =
    (if length mem = 1024 then None else if length mem < 1024 then Some [] else Some (take 1025 mem))"
proof -
  have "set (take 1024 mem) \<subseteq> set (take 1025 mem)" by (rule set_take_subset_set_take) simp
  then have "NUL \<notin> set (take 1024 mem)" using assms by blast
  then show ?thesis by (auto simp: user_strnlen_def user_copy_def)
qed

lemma s2_encrypt_refused:
  assumes "- (2 ^ 31) \<le> keyval" and "keyval < 2 ^ 31" and "\<not> (1 \<le> keyval \<and> keyval \<le> 5)"
  shows "s2_encrypt kmalloc_ok (user_strnlen mem) (user_copy mem) keyval = Inr (- 22, [''Out of bounds cause of '' @ dec keyval @ [newline]], False)"
proof -
  have "\<not> (0 < (word_of_int keyval :: 32 word) \<and> word_of_int keyval < (6 :: 32 word))"
    using key_in_range [OF assms(1,2)] assms(3) by simp
  then show ?thesis
    using key_in_range(2) [OF assms(1,2)] by (simp only: s2_encrypt_def Let_def if_False)
qed

lemma s2_encrypt_accepted:
  assumes "1 \<le> keyval" and "keyval \<le> 5"
    and "hello = ''Hello World, length is: '' @ dec (int (user_strnlen mem 1024)) @ '' and key is '' @ dec keyval @
      '' '' @ [newline]"
  shows "s2_encrypt True (user_strnlen mem) (user_copy mem) keyval = (case user_copy mem (user_strnlen mem 1024) of
      None \<Rightarrow> Inr (- 14, [hello, ''Boo'' @ [newline]], False)
    | Some user_data \<Rightarrow>
        bind_res (shift_from (nat keyval) user_data 0) (\<lambda>user_data.
        bind_res (cstr user_data) (\<lambda>s.
          Inr (0, [hello, ''Yay'' @ [newline], ''String is '' @ s @ '' and Digit is '' @ dec keyval @ [newline]], True))))"
    and "s2_encrypt False (user_strnlen mem) (user_copy mem) keyval = Inl NullDeref"
proof -
  have r: "(0 :: 32 word) < word_of_int keyval \<and> word_of_int keyval < (6 :: 32 word)"
    using key_in_range [of keyval] assms(1,2) by simp
  have u: "uint (word_of_int keyval :: 32 word) = keyval"
    using assms(1,2) by (simp add: uint_word_of_int)
  then have n: "unat (word_of_int keyval :: 32 word) = nat keyval" by (simp only: unat_eq_nat_uint)
  show "s2_encrypt True (user_strnlen mem) (user_copy mem) keyval = (case user_copy mem (user_strnlen mem 1024) of
      None \<Rightarrow> Inr (- 14, [hello, ''Boo'' @ [newline]], False)
    | Some user_data \<Rightarrow>
        bind_res (shift_from (nat keyval) user_data 0) (\<lambda>user_data.
        bind_res (cstr user_data) (\<lambda>s.
          Inr (0, [hello, ''Yay'' @ [newline], ''String is '' @ s @ '' and Digit is '' @ dec keyval @ [newline]], True))))"
    by (simp only: s2_encrypt_def Let_def r u n assms(3) if_True if_False simp_thms)
  show "s2_encrypt False (user_strnlen mem) (user_copy mem) keyval = Inl NullDeref"
    by (simp only: s2_encrypt_def Let_def r if_True simp_thms)
qed

text \<open>The loop on what was copied, with an accepted key.\<close>

lemma shift_copied:
  "case user_copy mem (user_strnlen mem 1024) of
     None \<Rightarrow> NUL \<notin> set (take 1025 mem) \<and> length mem = 1024
   | Some user_data \<Rightarrow> bind_res (shift_from key user_data 0) cstr =
       (if NUL \<in> set (take 1025 mem)
        then Inr (takeWhile (\<lambda>c. c \<noteq> NUL) (map (add_key key) (takeWhile (\<lambda>c. c \<noteq> NUL) mem)))
        else Inl OutOfBounds) \<and> (NUL \<in> set (take 1025 mem) \<or> length mem \<noteq> 1024)"
proof (cases "NUL \<in> set (take 1025 mem)")
  case True
  define s where "s = takeWhile (\<lambda>c. c \<noteq> NUL) mem"
  have "NUL \<in> set mem" using True by (rule in_set_takeD)
  then obtain xs rest where xs: "mem = xs @ NUL # rest" "NUL \<notin> set xs" using split_list_first by metis
  then have "s = xs" by (auto simp: s_def takeWhile_append)
  then have mem: "mem = s @ NUL # rest" "NUL \<notin> set s" using xs by simp_all
  have "length s \<le> 1024"
  proof (rule ccontr)
    assume "\<not> length s \<le> 1024"
    then have "take 1025 mem = take 1025 s" using mem(1) by simp
    then show False using True mem(2) by (auto dest: in_set_takeD)
  qed
  note copy = copied_string [OF mem this]
  have "shift_from key (s @ [NUL]) 0 = Inr (map (add_key key) s @ [NUL])"
    using shift_from_text [OF mem(2), of key "[]" "[]"] by simp
  then show ?thesis
    using True copy cstr_shifted [of "map (add_key key) s" "[]"] by (simp flip: s_def)
next
  case False
  then show ?thesis
    using copied_other [OF False] shift_from_unterminated [of 0 "take 1025 mem" key]
      shift_from_unterminated [of 0 "[]" key] take_all [of mem 1025] by (auto split: if_splits)
qed

lemma s2_encrypt_string:
  assumes "1 \<le> keyval" and "keyval \<le> 5" and "NUL \<in> set (take 1025 mem)"
  shows "\<exists>ls. s2_encrypt True (user_strnlen mem) (user_copy mem) keyval = Inr (0, ls, True)"
  using shift_copied [of mem "nat keyval"] assms(3) s2_encrypt_accepted(1) [OF assms(1,2) refl]
  by (auto simp: bind_res_def split: option.splits sum.splits)

text \<open>
  C40. The system call for every \<open>int\<close> key and every memory of the caller. Exactly the keys 1 to 5 are
  accepted; for others, negative ones included, it returns -EINVAL and does not free its buffer.
  With an accepted key and a string of at most 1024 characters it returns 0, frees the buffer and
  logs the string with the key added to each byte, up to the first byte that wraps to NUL. With no
  NUL in the first 1025 bytes it returns -EFAULT and leaks the buffer when the memory ends after
  1024 bytes, and otherwise reads past the buffer: for a longer string, and for a pointer to no
  readable string.
\<close>

theorem s2_encrypt_shifts:
  assumes "- (2 ^ 31) \<le> keyval" and "keyval < 2 ^ 31"
  shows "s2_encrypt kmalloc_ok (user_strnlen mem) (user_copy mem) keyval =
    (let hello = ''Hello World, length is: '' @ dec (int (user_strnlen mem 1024)) @ '' and key is '' @ dec keyval @
           '' '' @ [newline];
         s = takeWhile (\<lambda>c. c \<noteq> NUL) mem;
         logged = takeWhile (\<lambda>c. c \<noteq> NUL) (map (add_key (nat keyval)) s)
     in if \<not> (1 \<le> keyval \<and> keyval \<le> 5) then Inr (- 22, [''Out of bounds cause of '' @ dec keyval @ [newline]], False)
        else if \<not> kmalloc_ok then Inl NullDeref
        else if NUL \<in> set (take 1025 mem)
          then Inr (0, [hello, ''Yay'' @ [newline],
            ''String is '' @ logged @ '' and Digit is '' @ dec keyval @ [newline]], True)
        else if length mem = 1024 then Inr (- 14, [hello, ''Boo'' @ [newline]], False)
        else Inl OutOfBounds)"
proof (cases "1 \<le> keyval \<and> keyval \<le> 5")
  case False
  then show ?thesis using s2_encrypt_refused [OF assms False] by (simp only: Let_def if_True simp_thms)
next
  case True
  then have key: "1 \<le> keyval" "keyval \<le> 5" by simp_all
  show ?thesis
    using shift_copied [of mem "nat keyval"] s2_encrypt_accepted(1) [OF key refl, of mem]
      s2_encrypt_accepted(2) [OF key refl, of mem] True
    by (cases kmalloc_ok; cases "user_copy mem (user_strnlen mem 1024)")
      (auto simp: Let_def bind_res_def split: sum.splits if_splits)
qed

theorem s2_encrypt_shifts_witness:
  "s2_encrypt True (user_strnlen (''Hi'' @ [NUL] @ ''...'')) (user_copy (''Hi'' @ [NUL] @ ''...'')) 3 =
    (let hello = ''Hello World, length is: '' @ dec (int (user_strnlen (''Hi'' @ [NUL] @ ''...'') 1024)) @
           '' and key is '' @ dec 3 @ '' '' @ [newline];
         s = takeWhile (\<lambda>c. c \<noteq> NUL) (''Hi'' @ [NUL] @ ''...'');
         logged = takeWhile (\<lambda>c. c \<noteq> NUL) (map (add_key (nat 3)) s)
     in if \<not> (1 \<le> (3 :: int) \<and> (3 :: int) \<le> 5) then Inr (- 22, [''Out of bounds cause of '' @ dec 3 @ [newline]], False)
        else if \<not> True then Inl NullDeref
        else if NUL \<in> set (take 1025 (''Hi'' @ [NUL] @ ''...''))
          then Inr (0, [hello, ''Yay'' @ [newline],
            ''String is '' @ logged @ '' and Digit is '' @ dec 3 @ [newline]], True)
        else if length (''Hi'' @ [NUL] @ ''...'') = 1024 then Inr (- 14, [hello, ''Boo'' @ [newline]], False)
        else Inl OutOfBounds)"
  by (rule s2_encrypt_shifts) simp_all

text \<open>
  The program, given a string of at most 1024 characters and a key, passes both to the call: it
  reports success exactly for a key the call accepts.
\<close>

theorem question2_reports:
  assumes "NUL \<notin> set s" and "length s \<le> 1024" and "- (2 ^ 31) \<le> atoi n" and "atoi n < 2 ^ 31"
    and "\<And>bs key. sys bs key =
      (case s2_encrypt True (user_strnlen bs) (user_copy bs) key of Inr (r, _) \<Rightarrow> if r = 0 then 0 else -1 | Inl f \<Rightarrow> -1)"
  shows "question2 atoi sys error_text junk [(CHR ''s'', s), (CHR ''k'', n)] =
    Inr [''Hello, invoking q2 sys call'' @ [newline], ''string '', s, [newline],
      ''encrypt = '' @ dec (atoi n) @ [newline],
      if 1 \<le> atoi n \<and> atoi n \<le> 5 then ''syscall has returned 0, use dmesg to check the info'' @ [newline]
      else ''syscall failed; EINVAL = '' @ error_text @ [newline]]"
proof -
  have str: "cstr (s @ [NUL]) = Inr s" using cstr_append_NUL [OF assms(1), of "[]"] by simp
  have "NUL \<in> set (take 1025 (s @ [NUL]))" using assms(2) by simp
  then have "sys (s @ [NUL]) (atoi n) = (if 1 \<le> atoi n \<and> atoi n \<le> 5 then 0 else -1)"
    using s2_encrypt_string [of "atoi n" "s @ [NUL]"] s2_encrypt_refused [OF assms(3,4), of True "s @ [NUL]"]
    by (auto simp: assms(5))
  then show ?thesis using str by (simp add: question2_def)
qed

definition sample_atoi :: "string \<Rightarrow> int" where
  "sample_atoi p = (case digits_value p of Some v \<Rightarrow> v | None \<Rightarrow> 0)"

theorem question2_reports_witness:
  "question2 sample_atoi (\<lambda>bs key.
      case s2_encrypt True (user_strnlen bs) (user_copy bs) key of Inr (r, _) \<Rightarrow> if r = 0 then 0 else -1 | Inl f \<Rightarrow> -1)
      ''Invalid argument'' [] [(CHR ''s'', ''abc''), (CHR ''k'', ''9'')] =
    Inr [''Hello, invoking q2 sys call'' @ [newline], ''string '', ''abc'', [newline],
      ''encrypt = '' @ dec (sample_atoi ''9'') @ [newline],
      if 1 \<le> sample_atoi ''9'' \<and> sample_atoi ''9'' \<le> 5 then ''syscall has returned 0, use dmesg to check the info'' @ [newline]
      else ''syscall failed; EINVAL = '' @ ''Invalid argument'' @ [newline]]"
  by (rule question2_reports) (simp_all add: sample_atoi_def digits_value_def)

end
