(* ===== verification/Spec2Isabelle.thy ===== *)
theory Spec2Isabelle
  imports Msi_Typing Msi_Handler Msi_Boot_Props Msi_Stream Msi_Previous Msi_Crossed Msi_Bounds Msi_Race Msi_Draft_Pair
    Msi_Draft_Old Msg_Share_Props Msg_Stale Containers_Show Containers_Log Container_Tests Uffd_Props
    Sockets_Props Shm_Boot_Props Msi_Answers S2fs_Old Tutorials Encrypt
begin

text \<open>
  A verification library for the kernel-programming course projects of this repository. They
  are independent programs; each part below names the sources it is translated from (under
  \<open>src/\<close>), and the names of definitions are those of the C functions where possible.

  \<^bold>\<open>Shared vocabulary\<close> (\<open>Prelude\<close>). A function of the code that may go wrong returns a fault or
  a value (\<open>'a res\<close>): \<open>NullDeref\<close>, \<open>UseAfterFree\<close>, \<open>BadFree\<close> and \<open>OutOfBounds\<close> where C is
  undefined, \<open>Overflow\<close> for a signed overflow, \<open>Exit\<close> with a message for a process that ends
  itself, \<open>NotEnabled\<close> for an event that a blocked thread cannot take. Buffers are lists of
  characters, \<open>long\<close> and \<open>int\<close> values are integers, narrowed by \<open>to_int32\<close> and \<open>to_int64\<close> where the code
  narrows them or its products wrap, and words where the code masks or compares unsigned values. The locales
  \<open>step_guarded\<close>, \<open>step_within\<close>, \<open>step_total\<close>, \<open>step_refines\<close> and \<open>step_simulates\<close> give the invariant, the totality
  and the refinement of a run (with a specification that cannot fail, and with one that may) from
  those of a step; the components interpret them.

  \<^bold>\<open>Two-machine page sharing\<close> (\<open>Project_3_new/part4/part4.c\<close>), the largest program. \<open>Msi_Machine\<close>
  has one process: its globals (\<open>machine\<close>), the menu thread cut at the points where it blocks
  (\<open>menu_command\<close>, \<open>menu_iter\<close> for the loops over all pages, \<open>menu_reply\<close> when the answer to a read
  arrives), the server thread's loop body (\<open>server_handle\<close>, the MSI transitions) and the
  initialisation of each side, with a \<open>mmap\<close> that fails. Pages have at most \<open>2 ^ 18\<close> bytes in the theorems,
  which keeps the offsets of 4096 pages below the range of an \<open>int\<close>. \<open>Msi_System\<close> joins two of them by request and reply queues and
  has an event per thread step (\<open>sys_step\<close>) and one for a \<open>read\<close> that returns 0 because the other process has
  ended (\<open>Eof\<close>). \<open>Msi_Coherence\<close> proves that every step keeps the
  per-page coherence invariant when one command is in flight and follows an abstract MSI
  protocol; \<open>Msi_Sync\<close> runs commands one at a time (fuel \<open>3 * page_count + 3\<close>, enough for a
  command over all pages: each page takes at most three events) and states C1 to C4.
  The other theories take every interleaving. \<open>Msi_Async\<close> has the safety of all of them, and two commands
  that cross (C5); \<open>Msi_Blocking\<close> where the program comes to a stop (C6) and which
  reads are never answered (C7); \<open>Msi_Crossed\<close> how a write comes to be answered as a read (C8)
  and that a page without text is never answered; \<open>Msi_Bounds\<close> what becomes of page numbers that are not there
  (C9), and of those so large that their offset wraps (C10).
  \<open>Msi_Answers\<close> has the answers as bytes, which the menu's \<open>read\<close> may cut anywhere or take together: what that can do to
  memory (C11), and how a short \<open>read\<close> shifts all that follows (C12).
  \<open>Msi_Typing\<close> splits the write command at its wait for the message (\<open>write_begin\<close>, \<open>write_finish\<close>): the split
  command refines the whole one, C15 is the safety of all interleavings of the finer
  steps, C16 the message that goes to a wrong page when the server runs in between. The steps of these
  theories are stretches of code between two waits. \<open>Msi_Race\<close> goes below them for the one place where that
  matters most, the three flags of a page, which menu and server assign without a lock: a crossing upgrade can leave a
  page with two flags or none (C14), so the statements that a page has exactly one flag hold for
  steps taken whole. Other accesses in the middle of straight-line code are not interleaved.
  \<open>Msi_Handler\<close> has the program's fault handler and C13, by which the mapping of \<open>Msi_Machine\<close> may be
  taken to be zeroed memory, given that the kernel reports the start of the faulting page.

  \<open>Msi_Boot\<close> is how the system comes up: the server and the client thread of each process as steps between
  their accesses to \<open>mch_num\<close>, \<open>addr\<close>, \<open>init_uffd\<close> and the sockets (\<open>boot_server\<close>, \<open>boot_client\<close>), interleaved
  in any order (\<open>boot_step\<close>, \<open>booted\<close>), with the failures of \<open>mmap\<close>, \<open>userfaultfd\<close>, \<open>ioctl\<close> and \<open>pthread_create\<close> as data
  of the environment (\<open>boot_call\<close>). \<open>Msi_Boot_Props\<close> has the invariant of every schedule and the number
  of steps made, read off the state (\<open>moves\<close>): C17 gives the bound, what can end a process and the four ends, C18 schedules
  that reach them, and C19 joins the good end, in which
  machine 2's handler has its own descriptor, to the commands of \<open>Msi_Sync\<close>. In \<open>Msi_System\<close> a
  \<open>proc_info\<close> is received whole by one \<open>read\<close>; \<open>Msi_Stream\<close> has the record as its bytes in memory and the
  server's \<open>read\<close>s of any length: that whole reads refine the queue,
  and two theorems on what a short \<open>read\<close> does. The layout of the record there is that of a 64-bit little-endian machine, an
  assumption of the model, since the code sends the struct as it lies in memory. \<open>Msi_Previous\<close> is \<open>Project_3_new/part4/backup.c\<close>, the state before
  the last change of the server, and C20 what that change repaired.

  \<^bold>\<open>The earlier versions of page sharing\<close> (\<open>Project_3/part4\<close>), in the order in which they were made.
  \<open>Msg_Pages\<close> has a process of the two that work by messages, with the abstract process it implements
  (\<open>node_rel\<close>: pages filled on demand against zeroed ones, buffers of a page on a byte stream against
  a queue of messages; connections with bounded room, and their end). \<open>Msg_Share\<close> is \<open>backup2.c\<close>: its set-up, the two
  menus, the turns in which they run side by side (\<open>share_turn\<close>: a command that waits is there again at the
  next turn of its machine) and the simulation by two
  boards (C31), from which \<open>Msg_Share_Props\<close> has the order of the messages and when a machine waits
  (C32), the independence of the two memories (C33) and what a second message to a page leaves.
  There machine 2 is granted the address it asks for, and a \<open>read\<close> of the connection returns a whole buffer.
  \<open>Msg_Stale\<close> is \<open>backup.c\<close>, which no longer receives the messages: C34. \<open>Msi_Draft_Old\<close> has \<open>backup3.c\<close>,
  where page states and bus signals come in, and what \<open>backup4.c\<close> has other than \<open>part4.c\<close>; its locale
  \<open>drafted_memory\<close> is the contract of an access to memory on which both rely (a first access that hangs, and reads of a machine's own writes).
  \<open>Msi_Draft\<close>, \<open>Msi_Draft_Props\<close> and \<open>Msi_Draft_Pair\<close> are \<open>part4.c\<close>: its menu, bus signals and handler,
  the two machines with their connection, and C29 and C30, by which machine 1 never stores anything
  and machine 2's first read of a page waits or makes its handler read from descriptor 0. What the handler copies for a message
  from there that passes every check is not determined (\<open>Indeterminate\<close>).

  \<^bold>\<open>Integer containers\<close> (\<open>Project_2/prev/proj2.c\<close>, also in \<open>submission_new\<close>, \<open>testing\<close> and
  \<open>Project_4/Project_2\<close>). \<open>Containers\<close> has the entries as heap objects and the linked list, hash
  table, red-black tree and radix tree over them, the parsing of the parameter, the proc file
  and the taking down; what the kernel does (parsing a number, hashing, rebalancing, erasing)
  is the parameter \<open>klib\<close> with the laws \<open>klib_laws\<close>. \<open>Containers_Correct\<close> has the invariant
  \<open>kernel_ok\<close> and the refinement to what the containers hold; \<open>Containers_Show\<close> the text of the
  proc file (C21) and the defects. \<open>Containers_Log\<close> adds the submitted version, which prints
  to the log, and \<open>EX_4/ex4.c\<close> (C39); \<open>Container_Tests\<close> the trial modules of \<open>Project_2/test\<close>, on the
  same heap, the invariant of any sequence of stores, and what repeated numbers leak (C22).

  \<^bold>\<open>Memory on demand\<close> (\<open>Project_3/part1/uffd.c\<close>, \<open>Project_3_new/part1/uffd.c\<close>). \<open>Uffd\<close> has a region with
  its resident pages, an iteration of the fault handler and the two programs; \<open>Uffd_Correct\<close> the
  refinement of lazily filled memory to zeroed memory; \<open>Uffd_Props\<close> what the programs print
  (C23, C24).

  \<^bold>\<open>Sockets\<close> (\<open>Project_1\<close>, \<open>Project_1/code-socket\<close>, \<open>Project_3/part2\<close>, \<open>Project_3/part2_v2\<close>).
  \<open>Sockets\<close> has every program as its sequence of system calls, answered by an environment that
  sees the calls made before; \<open>Sockets_Props\<close> what the programs of project 1 print, what a failed call
  does, and C25. The openings of the page-sharing programs are here too. \<open>retry_connect\<close> takes the
  number of attempts as fuel, and C25 shows that the attempts up to the first success are enough;
  \<open>v2_serve\<close> takes the number of connections served.

  \<^bold>\<open>A page menu over memory on demand\<close> (\<open>Project_3/part3/part3.c\<close>). \<open>Shm\<close> joins the two parts
  above: the set-up of each thread as system calls, the menu and the page accesses; \<open>Shm_Correct\<close> shows that
  the menu behaves as one over a zeroed array. \<open>Shm_Boot\<close> has the threads of both processes, in any order, as steps
  between their accesses to \<open>order\<close>, \<open>data\<close>, \<open>recv_data\<close>, \<open>page_size\<close> and the sockets, with the failures of \<open>mmap\<close>,
  \<open>ioctl\<close> and \<open>pthread_create\<close> as data of the environment (\<open>shm_boot_step\<close>), and the handler's loop. In
  \<open>Shm_Boot_Props\<close> an invariant of all schedules, through the locale \<open>step_within\<close>, and a measure give the bound of
  twenty-four steps and the ends (C26); C27 goes from any start to any commands, and
  C28 is what becomes of machine 2 when it is not given the address it asks for.

  \<^bold>\<open>Process file systems\<close> (\<open>Project_4\<close>). \<open>S2fs\<close> has the process tree printed by part 1, the files of
  parts 2, 3 and 4 as their read and write functions, the mounts with every allocation, and the
  description of a process. The locale \<open>chunked_file\<close> (in \<open>S2fs_Props\<close>) says what a read of a file
  owes a program that reads in pieces, and is interpreted on the three read functions (C35
  in \<open>S2fs_Props\<close>, and \<open>S2fs_Tasks\<close>, which also has what a read does for every state of a pid); \<open>S2fs_Mount\<close> shows that the mount mirrors the
  process tree and what a failed allocation does (C36, C37); \<open>S2fs_Open\<close> has the inodes and their
  modes, and who can open the files (C38), \<open>S2fs_Old\<close> an earlier
  state of part 3, whose mount cannot succeed, \<open>Kernel_Modules\<close> the loading and unloading of these modules and of
  \<open>proj2\<close>, over kernel registries that are parameters.

  \<^bold>\<open>A system call\<close> (\<open>Project_1/syscall.patch\<close>, \<open>question2.c\<close>). \<open>Encrypt\<close> has the call, over what
  the kernel documents of \<open>strnlen_user\<close> and \<open>copy_from_user\<close>, and the
  program that makes it; C40 gives its result for every key and every memory of the caller.

  \<^bold>\<open>Example modules\<close> (\<open>EX_4/example\<close>, \<open>Project_2/example.c\<close>): \<open>Tutorials\<close>.

  \<^bold>\<open>Not modelled\<close>: times of inodes, socket addresses, constant prompt texts; a \<open>read\<close> that fails (it returns -1; the code
  treats it as one that returns 0); in the two interleaved starts, failures of \<open>socket\<close>, \<open>bind\<close>, \<open>listen\<close> and \<open>accept\<close> (they are
  in \<open>Sockets\<close> and \<open>Shm\<close>); the room of the sockets in \<open>Msi_System\<close>, where at most a few records wait; interleavings below the
  steps described above; vendored kernel files (\<open>Project_1/backups/socket.c\<close>, \<open>syscalls.h\<close>), which are
  Linux's with a few lines added; generated \<open>.mod.c\<close> files; \<open>Project_1/backups/q2bu.c\<close>, which uses undeclared names and is
  not C that compiles; \<open>proj2.c\<close> at the top, which holds unresolved merge conflicts. What else is under \<open>src/\<close>
  are copies, identical or but for messages, of the files named above (\<open>submission\<close>, \<open>submission_new\<close>, \<open>testing\<close>).
\<close>

end
